(* ===== verification/Prelude.thy ===== *)
theory Prelude
  imports Main "HOL-Library.Word"
begin

text \<open>
  What every component of the development shares.

  \<^item> The machine types of the C sources: \<open>BYTE\<close>, \<open>UINT16\<close>, \<open>UINT32\<close> and \<open>UINT64\<close> are words,
    \<open>size_t\<close> is a natural number below \<open>2 ^ 64\<close> whose additions and subtractions wrap.
  \<^item> The outcome of a C function that works on a state: it aborts (a \<open>WINPR_ASSERT\<close> fires, or an
    access leaves its memory block), returns \<open>FALSE\<close>, or returns \<open>TRUE\<close> with its results.
  \<^item> Memory blocks as lists, with checked block reads and writes (\<open>memcpy\<close>, \<open>memset\<close>), and the
    allocator (\<open>malloc\<close>, \<open>calloc\<close>, \<open>realloc\<close>), which may fail for
    any size and whose fresh memory holds anything.
  \<^item> The two safety disciplines the components are proved against, as predicates with
    introduction rules collected in \<open>safe_intros\<close>.
\<close>

unbundle bit_operations_syntax

named_theorems safe_intros
named_theorems mem_simps

section \<open>Machine types\<close>

type_synonym byte = "8 word"
type_synonym u16 = "16 word"
type_synonym u32 = "32 word"
type_synonym u64 = "64 word"

definition SIZE_MAX :: nat where
  "SIZE_MAX = 2 ^ 64 - 1"

definition size_add :: "nat \<Rightarrow> nat \<Rightarrow> nat" where
  "size_add a b = (a + b) mod 2 ^ 64"

definition size_sub :: "nat \<Rightarrow> nat \<Rightarrow> nat" where
  "size_sub a b = (a + (2 ^ 64 - b mod 2 ^ 64)) mod 2 ^ 64"

definition size_mul :: "nat \<Rightarrow> nat \<Rightarrow> nat" where
  "size_mul a b = (a * b) mod 2 ^ 64"

lemma size_add_exact [simp]: "a + b < 2 ^ 64 \<Longrightarrow> size_add a b = a + b"
  by (simp add: size_add_def)

lemma size_sub_exact [simp]:
  assumes "b \<le> a" "a < 2 ^ 64"
  shows "size_sub a b = a - b"
proof -
  have "(a + (2 ^ 64 - b)) mod 2 ^ 64 = ((a - b) + 2 ^ 64) mod 2 ^ 64"
    using assms by (simp add: algebra_simps)
  also have "\<dots> = a - b"
    using assms by (subst mod_add_self2) simp
  finally show ?thesis
    using assms by (simp add: size_sub_def)
qed

lemma size_mul_exact [simp]: "a * b < 2 ^ 64 \<Longrightarrow> size_mul a b = a * b"
  by (simp add: size_mul_def)

lemma unat_u8_le: "unat (b :: byte) \<le> 0xFF"
  and unat_u16_le: "unat (v :: u16) \<le> 0xFFFF"
  and unat_u32_le: "unat (w :: u32) \<le> 0xFFFFFFFF"
  using unsigned_less [of b, where 'a = nat] unsigned_less [of v, where 'a = nat]
    unsigned_less [of w, where 'a = nat]
  by simp_all

lemmas unat_bounds = unat_u8_le unat_u16_le unat_u32_le

lemma unat_ucast_8_16 [simp]: "unat (ucast (b :: byte) :: u16) = unat b"
  and unat_ucast_8_32 [simp]: "unat (ucast (b :: byte) :: u32) = unat b"
  and unat_ucast_16_32 [simp]: "unat (ucast (v :: u16) :: u32) = unat v"
  using unsigned_less [of b, where 'a = nat] unsigned_less [of v, where 'a = nat]
  by (simp_all add: unsigned_ucast_eq take_bit_nat_eq_self_iff)

lemma unat_push8: "unat (push_bit 8 (ucast (a :: byte)) :: u16) = unat a * 256"
  using unsigned_less [of a, where 'a = nat] by (simp add: push_bit_eq_mult unat_word_ariths)

lemma unat_join8: "unat (push_bit 8 (ucast a) + ucast b :: u16) = unat (a :: byte) * 256 + unat (b :: byte)"
  using unsigned_less [of a, where 'a = nat] unsigned_less [of b, where 'a = nat]
  by (simp add: unat_word_ariths unat_push8)

text \<open>The top bit of a byte, which marks continued lengths.\<close>

lemma and_not_80: "(b :: byte) AND NOT 0x80 = take_bit 7 b"
proof -
  have "(NOT 0x80 :: byte) = mask 7" by (simp add: mask_eq_exp_minus_1)
  then show ?thesis by (simp only: take_bit_eq_mask)
qed
lemma bit_two_power: "bit (2 ^ k :: 'a::len word) n \<longleftrightarrow> n = k \<and> k < LENGTH('a)"
  by (auto simp: bit_exp_iff)

lemma bit_128: "bit (128 :: int) n \<longleftrightarrow> n = 7"
proof -
  have "bit (2 ^ 7 :: int) n \<longleftrightarrow> n = 7" by (simp only: bit_exp_iff) auto
  then show ?thesis by simp
qed

lemma and_80_zero: "(b :: byte) AND 0x80 = 0 \<longleftrightarrow> \<not> bit b 7"
proof
  assume "b AND 0x80 = 0"
  then have "\<not> bit (b AND 0x80) 7" by simp
  then show "\<not> bit b 7" by (simp add: bit_and_iff bit_128)
next
  assume "\<not> bit b 7"
  then show "b AND 0x80 = 0"
    by (intro bit_word_eqI) (auto simp: bit_and_iff bit_128)
qed

lemma bit7_ge: "bit (b :: byte) 7 \<longleftrightarrow> 0x80 \<le> unat b"
proof -
  have "bit b 7 \<longleftrightarrow> bit (unat b) 7" by (simp add: bit_unsigned_iff)
  also have "\<dots> \<longleftrightarrow> odd (unat b div 0x80)" by (simp add: bit_iff_odd)
  also have "\<dots> \<longleftrightarrow> 0x80 \<le> unat b"
  proof (cases "0x80 \<le> unat b")
    case True
    then have "unat b div 0x80 = 1"
      using unat_u8_le [of b] by (intro div_nat_eqI) simp_all
    with True show ?thesis by simp
  qed simp
  finally show ?thesis .
qed
section \<open>Outcomes of C functions\<close>

datatype ('a, 's) outcome = Abort | Fail 's | Done 'a 's

fun run_bind :: "('a, 's) outcome \<Rightarrow> ('a \<Rightarrow> 's \<Rightarrow> ('b, 's) outcome) \<Rightarrow> ('b, 's) outcome" where
  "run_bind Abort f = Abort"
| "run_bind (Fail s) f = Fail s"
| "run_bind (Done a s) f = f a s"

text \<open>\<open>if (!f(s)) return FALSE;\<close> after a predicate that leaves the state alone.\<close>

definition run_guard :: "bool \<Rightarrow> 's \<Rightarrow> (unit, 's) outcome" where
  "run_guard b s = (if b then Done () s else Fail s)"

text \<open>\<open>WINPR_ASSERT(b)\<close>.\<close>

definition run_assert :: "bool \<Rightarrow> 's \<Rightarrow> (unit, 's) outcome" where
  "run_assert b s = (if b then Done () s else Abort)"

lemma run_bind_eq_Done:
  "run_bind m f = Done b t \<longleftrightarrow> (\<exists>a s. m = Done a s \<and> f a s = Done b t)"
  by (cases m) auto

lemma run_bind_eq_Fail:
  "run_bind m f = Fail t \<longleftrightarrow> m = Fail t \<or> (\<exists>a s. m = Done a s \<and> f a s = Fail t)"
  by (cases m) auto

lemma run_bind_eq_Abort:
  "run_bind m f = Abort \<longleftrightarrow> m = Abort \<or> (\<exists>a s. m = Done a s \<and> f a s = Abort)"
  by (cases m) auto

lemma run_bind_cong [fundef_cong]:
  "m = m' \<Longrightarrow> (\<And>a s. m' = Done a s \<Longrightarrow> f a s = g a s) \<Longrightarrow> run_bind m f = run_bind m' g"
  by (cases m') auto

lemma run_guard_simps [simp]:
  "run_guard True s = Done () s"
  "run_guard False s = Fail s"
  by (simp_all add: run_guard_def)

lemma run_assert_simps [simp]:
  "run_assert True s = Done () s"
  "run_assert False s = Abort"
  by (simp_all add: run_assert_def)

lemma run_bind_assoc:
  "run_bind (run_bind m f) g = run_bind m (\<lambda>a s. run_bind (f a s) g)"
  by (cases m) auto

text \<open>
  \<open>safe_run I Q m\<close>: the run does not abort, the state it ends in satisfies \<open>I\<close> whether it failed
  or not, and a result satisfies \<open>Q\<close> together with its state.
\<close>

definition safe_run :: "('s \<Rightarrow> bool) \<Rightarrow> ('a \<Rightarrow> 's \<Rightarrow> bool) \<Rightarrow> ('a, 's) outcome \<Rightarrow> bool" where
  "safe_run I Q m = (case m of Abort \<Rightarrow> False | Fail s \<Rightarrow> I s | Done a s \<Rightarrow> I s \<and> Q a s)"

lemma safe_run_Done [simp]: "safe_run I Q (Done a s) \<longleftrightarrow> I s \<and> Q a s"
  and safe_run_Fail [simp]: "safe_run I Q (Fail s) \<longleftrightarrow> I s"
  and safe_run_Abort [simp]: "\<not> safe_run I Q Abort"
  by (simp_all add: safe_run_def)

lemma safe_run_bind:
  assumes "safe_run I P m"
    and "\<And>a s. I s \<Longrightarrow> P a s \<Longrightarrow> safe_run I Q (f a s)"
  shows "safe_run I Q (run_bind m f)"
  using assms by (cases m) auto

lemma safe_run_guard: "I s \<Longrightarrow> (b \<Longrightarrow> Q () s) \<Longrightarrow> safe_run I Q (run_guard b s)"
  by (cases b) auto

lemma safe_run_if:
  "(b \<Longrightarrow> safe_run I Q m) \<Longrightarrow> (\<not> b \<Longrightarrow> safe_run I Q n) \<Longrightarrow> safe_run I Q (if b then m else n)"
  by simp

lemma safe_run_mono:
  "safe_run I P m \<Longrightarrow> (\<And>a s. I s \<Longrightarrow> P a s \<Longrightarrow> Q a s) \<Longrightarrow> safe_run I Q m"
  by (cases m) auto

lemma safe_run_not_Abort: "safe_run I Q m \<Longrightarrow> m \<noteq> Abort"
  by auto

section \<open>Memory blocks\<close>

definition mem_read :: "'a list \<Rightarrow> nat \<Rightarrow> nat \<Rightarrow> 'a list option" where
  "mem_read m off n = (if off + n \<le> length m then Some (take n (drop off m)) else None)"

definition mem_write :: "'a list \<Rightarrow> nat \<Rightarrow> 'a list \<Rightarrow> 'a list option" where
  "mem_write m off xs =
     (if off + length xs \<le> length m then Some (take off m @ xs @ drop (off + length xs) m) else None)"

lemma mem_read_Some [mem_simps]:
  "off + n \<le> length m \<Longrightarrow> mem_read m off n = Some (take n (drop off m))"
  by (simp add: mem_read_def)

lemma mem_write_Some [mem_simps]:
  "off + length xs \<le> length m \<Longrightarrow>
     mem_write m off xs = Some (take off m @ xs @ drop (off + length xs) m)"
  by (simp add: mem_write_def)

lemma mem_read_length: "mem_read m off n = Some xs \<Longrightarrow> length xs = n"
  by (auto simp: mem_read_def split: if_splits)

lemma mem_write_length: "mem_write m off xs = Some m' \<Longrightarrow> length m' = length m"
  by (auto simp: mem_write_def split: if_splits)

lemma mem_write_nth:
  assumes "mem_write m off xs = Some m'" "i < length m"
  shows "m' ! i = (if off \<le> i \<and> i < off + length xs then xs ! (i - off) else m ! i)"
  using assms by (auto simp: mem_write_def nth_append split: if_splits)

lemma mem_read_of_write:
  assumes "mem_write m off xs = Some m'"
  shows "mem_read m' off (length xs) = Some xs"
  using assms by (auto simp: mem_write_def mem_read_def split: if_splits)

section \<open>The allocator\<close>

text \<open>
  \<open>alloc_ok n\<close> says whether a request of \<open>n\<close> bytes succeeds; \<open>junk n i\<close> is what byte \<open>i\<close> of a
  fresh block of \<open>n\<close> bytes happens to hold. Both are arbitrary functions of the size, the same for every
  request of one run: that a request of some size succeeds once and fails later is not covered. No
  object is larger than \<open>PTRDIFF_MAX\<close> bytes, so larger
  requests always fail.
\<close>

definition PTRDIFF_MAX :: nat where
  "PTRDIFF_MAX = 2 ^ 63 - 1"

record allocator =
  alloc_ok :: "nat \<Rightarrow> bool"
  junk :: "nat \<Rightarrow> nat \<Rightarrow> byte"

definition c_malloc :: "allocator \<Rightarrow> nat \<Rightarrow> byte list option" where
  "c_malloc A n = (if alloc_ok A n \<and> n \<le> PTRDIFF_MAX then Some (map (junk A n) [0..<n]) else None)"

definition c_calloc :: "allocator \<Rightarrow> nat \<Rightarrow> byte list option" where
  "c_calloc A n = (if alloc_ok A n \<and> n \<le> PTRDIFF_MAX then Some (replicate n 0) else None)"

definition c_realloc :: "allocator \<Rightarrow> byte list \<Rightarrow> nat \<Rightarrow> byte list option" where
  "c_realloc A m n =
     (if alloc_ok A n \<and> n \<le> PTRDIFF_MAX then Some (take n m @ map (junk A n) [length m..<n])
      else None)"

lemma c_malloc_length: "c_malloc A n = Some m \<Longrightarrow> length m = n \<and> n \<le> PTRDIFF_MAX"
  by (auto simp: c_malloc_def split: if_splits)

lemma c_calloc_length: "c_calloc A n = Some m \<Longrightarrow> length m = n \<and> n \<le> PTRDIFF_MAX"
  by (auto simp: c_calloc_def split: if_splits)

lemma c_realloc_length: "c_realloc A m n = Some m' \<Longrightarrow> length m' = n \<and> n \<le> PTRDIFF_MAX"
  by (auto simp: c_realloc_def min_def split: if_splits)

lemma c_realloc_take:
  "c_realloc A m n = Some m' \<Longrightarrow> k \<le> n \<Longrightarrow> k \<le> length m \<Longrightarrow> take k m' = take k m"
  by (auto simp: c_realloc_def min_def split: if_splits)

text \<open>An allocator that always succeeds, for concrete runs.\<close>

definition plain_allocator :: allocator where
  "plain_allocator = \<lparr>alloc_ok = (\<lambda>_. True), junk = (\<lambda>_ _. 0)\<rparr>"

section \<open>Rings\<close>

text \<open>A ring as a list: \<open>ring_pos\<close> is where its \<open>i\<close>-th element lies in a block of \<open>n\<close>.\<close>

definition ring_pos :: "nat \<Rightarrow> nat \<Rightarrow> nat \<Rightarrow> nat" where
  "ring_pos n r i = (if r + i < n then r + i else r + i - n)"

lemma ring_nth:
  assumes "length buf = n" "r < n" "u \<le> n" "i < u"
  shows "take u (drop r (buf @ buf)) ! i = buf ! ring_pos n r i"
  using assms by (auto simp: ring_pos_def nth_append add.commute)

lemma ring_extend:
  assumes "length buf = n" "length b = n" "r < n" "u + length bs \<le> n"
    and "\<And>i. i < u \<Longrightarrow> b ! ring_pos n r i = buf ! ring_pos n r i"
    and "\<And>i. i < length bs \<Longrightarrow> b ! ring_pos n r (u + i) = bs ! i"
  shows "take (u + length bs) (drop r (b @ b)) = take u (drop r (buf @ buf)) @ bs"
proof -
  define xs ys where "xs = take u (drop r (buf @ buf))" and "ys = take (u + length bs) (drop r (b @ b))"
  have len: "length xs = u" "length ys = u + length bs"
    using assms(1-4) by (simp_all add: xs_def ys_def)
  have xs: "xs ! i = buf ! ring_pos n r i" if "i < u" for i
    using ring_nth [OF assms(1,3) _ that] assms(4) by (simp add: xs_def)
  have ys: "ys ! i = b ! ring_pos n r i" if "i < u + length bs" for i
    using ring_nth [OF assms(2-4) that] by (simp add: ys_def)
  have "ys = xs @ bs"
  proof (rule nth_equalityI)
    fix i assume "i < length ys"
    then show "ys ! i = (xs @ bs) ! i"
      using xs [of i] ys [of i] assms(5) [of i] assms(6) [of "i - u"] len
      by (cases "i < u") (simp_all add: nth_append)
  qed (simp add: len)
  then show ?thesis by (simp only: xs_def ys_def)
qed

lemma ring_take:
  assumes "length buf = n" "r < n" "u \<le> n" "m \<le> u"
  shows "take m (take u (drop r (buf @ buf))) =
    take (min m (n - r)) (drop r buf) @ take (m - min m (n - r)) buf"
  using assms by (auto simp: min_def)

end
