(* ===== verification/Wire_Stream.thy ===== *)
theory Wire_Stream
  imports Prelude
begin

text \<open>
  The byte stream \<open>wStream\<close> of WinPR (\<open>winpr/include/winpr/stream.h\<close>,
  \<open>winpr/libwinpr/utils/stream.c\<close>, \<open>winpr/include/winpr/endian.h\<close>): every PDU of the program is
  parsed from one and built in one. The record holds the memory block, the current position as an
  offset into it, the length and the capacity. A \<open>WINPR_ASSERT\<close> that does not hold, and an access
  outside the block, are \<open>Abort\<close>. The lemmas give each operation's exact result on a well-formed
  stream, in terms of the bytes left to read (\<open>rest\<close>) and the bytes written so far (\<open>written\<close>).
\<close>

section \<open>The stream\<close>

record wStream =
  buffer :: "byte list"
  pointer :: nat
  slength :: nat
  capacity :: nat
  scount :: u32
  isAllocatedStream :: bool
  isOwner :: bool

definition Stream_Init :: wStream where
  "Stream_Init = \<lparr>buffer = [], pointer = 0, slength = 0, capacity = 0, scount = 0,
     isAllocatedStream = False, isOwner = False\<rparr>"

definition Stream_GetRemainingCapacity :: "wStream \<Rightarrow> (nat, wStream) outcome" where
  "Stream_GetRemainingCapacity s =
     (if pointer s \<le> capacity s then Done (capacity s - pointer s) s else Abort)"

definition Stream_GetRemainingLength :: "wStream \<Rightarrow> (nat, wStream) outcome" where
  "Stream_GetRemainingLength s =
     (if slength s \<le> capacity s \<and> pointer s \<le> slength s
      then Done (slength s - pointer s) s else Abort)"

definition Stream_GetPosition :: "wStream \<Rightarrow> nat" where
  "Stream_GetPosition s = pointer s"

definition Stream_ResetPosition :: "wStream \<Rightarrow> wStream" where
  "Stream_ResetPosition s = s\<lparr>pointer := 0\<rparr>"

definition Stream_SetPosition :: "wStream \<Rightarrow> nat \<Rightarrow> (unit, wStream) outcome" where
  "Stream_SetPosition s p =
     (if p > capacity s then Fail (s\<lparr>pointer := 0\<rparr>) else Done () (s\<lparr>pointer := p\<rparr>))"

definition Stream_SetLength :: "wStream \<Rightarrow> nat \<Rightarrow> (unit, wStream) outcome" where
  "Stream_SetLength s l =
     (if l > capacity s then Fail (s\<lparr>slength := 0\<rparr>) else Done () (s\<lparr>slength := l\<rparr>))"

definition Stream_SealLength :: "wStream \<Rightarrow> (unit, wStream) outcome" where
  "Stream_SealLength s =
     (if pointer s \<le> capacity s then Done () (s\<lparr>slength := pointer s\<rparr>) else Abort)"

definition Stream_EnsureValidity :: "wStream \<Rightarrow> (unit, wStream) outcome" where
  "Stream_EnsureValidity s =
     run_bind (run_assert (pointer s \<le> capacity s) s) (\<lambda>_ s.
       run_assert (slength s \<le> capacity s) s)"

definition Stream_Seek :: "wStream \<Rightarrow> nat \<Rightarrow> (unit, wStream) outcome" where
  "Stream_Seek s n =
     run_bind (Stream_GetRemainingCapacity s) (\<lambda>c s.
       if n \<le> c then Done () (s\<lparr>pointer := pointer s + n\<rparr>) else Abort)"

definition Stream_Rewind :: "wStream \<Rightarrow> nat \<Rightarrow> (unit, wStream) outcome" where
  "Stream_Rewind s n =
     run_bind (run_assert (n \<le> pointer s) s) (\<lambda>_ s.
       if n \<le> pointer s then Done () (s\<lparr>pointer := pointer s - n\<rparr>)
       else Done () (s\<lparr>pointer := 0\<rparr>))"

section \<open>Integers in memory\<close>

definition winpr_Data_Get_UINT8 :: "byte list \<Rightarrow> byte" where
  "winpr_Data_Get_UINT8 d = d ! 0"

definition winpr_Data_Get_UINT16 :: "byte list \<Rightarrow> u16" where
  "winpr_Data_Get_UINT16 d = foldl (\<lambda>v x. push_bit 8 v OR ucast (d ! (2 - x - 1))) 0 [0..<2]"

definition winpr_Data_Get_UINT16_BE :: "byte list \<Rightarrow> u16" where
  "winpr_Data_Get_UINT16_BE d = foldl (\<lambda>v x. push_bit 8 v OR ucast (d ! x)) 0 [0..<2]"

definition winpr_Data_Get_UINT32 :: "byte list \<Rightarrow> u32" where
  "winpr_Data_Get_UINT32 d = foldl (\<lambda>v x. push_bit 8 v OR ucast (d ! (4 - x - 1))) 0 [0..<4]"

definition winpr_Data_Get_UINT32_BE :: "byte list \<Rightarrow> u32" where
  "winpr_Data_Get_UINT32_BE d = foldl (\<lambda>v x. push_bit 8 v OR ucast (d ! x)) 0 [0..<4]"

definition winpr_Data_Get_UINT64 :: "byte list \<Rightarrow> u64" where
  "winpr_Data_Get_UINT64 d = foldl (\<lambda>v x. push_bit 8 v OR ucast (d ! (8 - x - 1))) 0 [0..<8]"

definition winpr_Data_Get_UINT64_BE :: "byte list \<Rightarrow> u64" where
  "winpr_Data_Get_UINT64_BE d = foldl (\<lambda>v x. push_bit 8 v OR ucast (d ! x)) 0 [0..<8]"

definition winpr_Data_Write_UINT8 :: "byte \<Rightarrow> byte list" where
  "winpr_Data_Write_UINT8 v = [v]"

definition winpr_Data_Write_UINT16 :: "u16 \<Rightarrow> byte list" where
  "winpr_Data_Write_UINT16 v = [ucast (v AND 0xFF), ucast (drop_bit 8 v AND 0xFF)]"

definition winpr_Data_Write_UINT16_BE :: "u16 \<Rightarrow> byte list" where
  "winpr_Data_Write_UINT16_BE v = [ucast (drop_bit 8 v AND 0xFF), ucast (v AND 0xFF)]"

definition winpr_Data_Write_UINT32 :: "u32 \<Rightarrow> byte list" where
  "winpr_Data_Write_UINT32 v =
     winpr_Data_Write_UINT16 (ucast (v AND 0xFFFF)) @
     winpr_Data_Write_UINT16 (ucast (drop_bit 16 v AND 0xFFFF))"

definition winpr_Data_Write_UINT32_BE :: "u32 \<Rightarrow> byte list" where
  "winpr_Data_Write_UINT32_BE v =
     winpr_Data_Write_UINT16_BE (ucast (drop_bit 16 v AND 0xFFFF)) @
     winpr_Data_Write_UINT16_BE (ucast (v AND 0xFFFF))"

definition winpr_Data_Write_UINT64 :: "u64 \<Rightarrow> byte list" where
  "winpr_Data_Write_UINT64 v =
     winpr_Data_Write_UINT32 (ucast (v AND 0xFFFFFFFF)) @
     winpr_Data_Write_UINT32 (ucast (drop_bit 32 v AND 0xFFFFFFFF))"

definition winpr_Data_Write_UINT64_BE :: "u64 \<Rightarrow> byte list" where
  "winpr_Data_Write_UINT64_BE v =
     winpr_Data_Write_UINT32_BE (ucast (drop_bit 32 v AND 0xFFFFFFFF)) @
     winpr_Data_Write_UINT32_BE (ucast (v AND 0xFFFFFFFF))"


lemma and_FF: "(v :: 'a::len word) AND 0xFF = take_bit 8 v"
  by (simp add: take_bit_eq_mask mask_eq_exp_minus_1)

lemma and_FFFF: "(v :: 'a::len word) AND 0xFFFF = take_bit 16 v"
  by (simp add: take_bit_eq_mask mask_eq_exp_minus_1)

lemma and_FFFFFFFF: "(v :: 'a::len word) AND 0xFFFFFFFF = take_bit 32 v"
  by (simp add: take_bit_eq_mask mask_eq_exp_minus_1)

lemmas and_masks = and_FF and_FFFF and_FFFFFFFF

text \<open>The loops of the readers, unrolled.\<close>

lemma Get_UINT16_list:
  "winpr_Data_Get_UINT16 [a, b] = push_bit 8 (ucast b) OR ucast a"
  "winpr_Data_Get_UINT16_BE [a, b] = push_bit 8 (ucast a) OR ucast b"
  by (simp_all add: winpr_Data_Get_UINT16_def winpr_Data_Get_UINT16_BE_def upt_rec numeral_2_eq_2)

lemma upt4: "[0..<4] = [0, 1, 2, 3 :: nat]"
  and upt8: "[0..<8] = [0, 1, 2, 3, 4, 5, 6, 7 :: nat]"
  by (simp_all add: upt_rec)

text \<open>A byte widened twice, or shifted inside a word wide enough for it.\<close>

lemma ucast_widen:
  "(ucast (ucast a :: u16) :: 'a::len word) = ucast (a :: byte)"
  "(ucast (ucast a :: u32) :: 'a::len word) = ucast (a :: byte)"
  by (rule bit_word_eqI, auto simp: bit_simps dest: bit_imp_le_length)+

lemma ucast_push_byte:
  "(ucast (push_bit 8 (ucast a) :: u16) :: 'a::len word) = push_bit 8 (ucast (a :: byte))"
  "(ucast (push_bit 8 (ucast a) :: u32) :: 'a::len word) = push_bit 8 (ucast (a :: byte))"
  "(ucast (push_bit 16 (ucast a) :: u32) :: 'a::len word) = push_bit 16 (ucast (a :: byte))"
  "(ucast (push_bit 24 (ucast a) :: u32) :: 'a::len word) = push_bit 24 (ucast (a :: byte))"
  by (rule bit_word_eqI, auto simp: bit_simps dest: bit_imp_le_length)+

lemma ucast_or: "(ucast (a OR b) :: 'a::len word) = ucast a OR ucast b"
  by (rule bit_word_eqI) (auto simp: bit_simps)

lemmas join_simps = push_bit_or push_bit_push_bit ucast_or ucast_widen ucast_push_byte or.assoc

lemma Get_UINT32_list:
  "winpr_Data_Get_UINT32 [a, b, c, d] =
     push_bit 16 (ucast (winpr_Data_Get_UINT16 [c, d])) OR ucast (winpr_Data_Get_UINT16 [a, b])"
  "winpr_Data_Get_UINT32_BE [a, b, c, d] =
     push_bit 16 (ucast (winpr_Data_Get_UINT16_BE [a, b])) OR ucast (winpr_Data_Get_UINT16_BE [c, d])"
  unfolding Get_UINT16_list winpr_Data_Get_UINT32_def winpr_Data_Get_UINT32_BE_def upt4
  by (simp_all add: join_simps)

lemma Get_UINT64_list:
  "winpr_Data_Get_UINT64 [a, b, c, d, e, f, g, h] =
     push_bit 32 (ucast (winpr_Data_Get_UINT32 [e, f, g, h])) OR
     ucast (winpr_Data_Get_UINT32 [a, b, c, d])"
  "winpr_Data_Get_UINT64_BE [a, b, c, d, e, f, g, h] =
     push_bit 32 (ucast (winpr_Data_Get_UINT32_BE [a, b, c, d])) OR
     ucast (winpr_Data_Get_UINT32_BE [e, f, g, h])"
  unfolding Get_UINT32_list Get_UINT16_list winpr_Data_Get_UINT64_def winpr_Data_Get_UINT64_BE_def upt8
  by (simp_all add: join_simps)

lemma Get_Write_UINT16 [simp]:
  "winpr_Data_Get_UINT16 (winpr_Data_Write_UINT16 v) = v"
  "winpr_Data_Get_UINT16_BE (winpr_Data_Write_UINT16_BE v) = v"
  unfolding winpr_Data_Write_UINT16_def winpr_Data_Write_UINT16_BE_def Get_UINT16_list and_masks
  by (rule bit_word_eqI, auto simp: bit_simps)+

lemma Get_Write_UINT32 [simp]:
  "winpr_Data_Get_UINT32 (winpr_Data_Write_UINT32 v) = v"
  "winpr_Data_Get_UINT32_BE (winpr_Data_Write_UINT32_BE v) = v"
proof -
  have "push_bit 16 (ucast (ucast (drop_bit 16 v AND 0xFFFF) :: u16)) OR
      ucast (ucast (v AND 0xFFFF) :: u16) = v"
    unfolding and_masks by (rule bit_word_eqI, auto simp: bit_simps)
  then show "winpr_Data_Get_UINT32 (winpr_Data_Write_UINT32 v) = v"
    "winpr_Data_Get_UINT32_BE (winpr_Data_Write_UINT32_BE v) = v"
    using Get_Write_UINT16
    by (simp_all add: winpr_Data_Write_UINT32_def winpr_Data_Write_UINT32_BE_def
          winpr_Data_Write_UINT16_def winpr_Data_Write_UINT16_BE_def Get_UINT32_list)
qed

lemma Get_Write_UINT64 [simp]:
  "winpr_Data_Get_UINT64 (winpr_Data_Write_UINT64 v) = v"
  "winpr_Data_Get_UINT64_BE (winpr_Data_Write_UINT64_BE v) = v"
proof -
  have "push_bit 32 (ucast (ucast (drop_bit 32 v AND 0xFFFFFFFF) :: u32)) OR
      ucast (ucast (v AND 0xFFFFFFFF) :: u32) = v"
    unfolding and_masks by (rule bit_word_eqI, auto simp: bit_simps)
  then show "winpr_Data_Get_UINT64 (winpr_Data_Write_UINT64 v) = v"
    "winpr_Data_Get_UINT64_BE (winpr_Data_Write_UINT64_BE v) = v"
    using Get_Write_UINT32
    by (simp_all add: winpr_Data_Write_UINT64_def winpr_Data_Write_UINT64_BE_def
          winpr_Data_Write_UINT32_def winpr_Data_Write_UINT32_BE_def
          winpr_Data_Write_UINT16_def winpr_Data_Write_UINT16_BE_def Get_UINT64_list)
qed

section \<open>Reading\<close>

text \<open>
  The common body of \<open>stream_read_u8\<close> \<dots> \<open>stream_read_u64_be\<close>: assert that the bytes are there,
  load them, and advance when asked to. \<open>stream_read_i8\<close> is the one reader of the source without
  the assertion.
\<close>

definition stream_load :: "nat \<Rightarrow> (byte list \<Rightarrow> 'a) \<Rightarrow> wStream \<Rightarrow> bool \<Rightarrow> ('a, wStream) outcome" where
  "stream_load typesize get s seek =
     (case mem_read (buffer s) (pointer s) typesize of
        None \<Rightarrow> Abort
      | Some d \<Rightarrow>
          if seek then run_bind (Stream_Seek s typesize) (\<lambda>_ s. Done (get d) s)
          else Done (get d) s)"

definition stream_read :: "nat \<Rightarrow> (byte list \<Rightarrow> 'a) \<Rightarrow> wStream \<Rightarrow> bool \<Rightarrow> ('a, wStream) outcome" where
  "stream_read typesize get s seek =
     run_bind (Stream_GetRemainingLength s) (\<lambda>n s.
       run_bind (run_assert (typesize \<le> n) s) (\<lambda>_ s. stream_load typesize get s seek))"

definition stream_read_u8 :: "wStream \<Rightarrow> bool \<Rightarrow> (byte, wStream) outcome" where
  "stream_read_u8 = stream_read 1 winpr_Data_Get_UINT8"

definition stream_read_i8 :: "wStream \<Rightarrow> bool \<Rightarrow> (int, wStream) outcome" where
  "stream_read_i8 = stream_load 1 (\<lambda>d. sint (winpr_Data_Get_UINT8 d))"

definition stream_read_u16_le :: "wStream \<Rightarrow> bool \<Rightarrow> (u16, wStream) outcome" where
  "stream_read_u16_le = stream_read 2 winpr_Data_Get_UINT16"

definition stream_read_u16_be :: "wStream \<Rightarrow> bool \<Rightarrow> (u16, wStream) outcome" where
  "stream_read_u16_be = stream_read 2 winpr_Data_Get_UINT16_BE"

definition stream_read_i16_le :: "wStream \<Rightarrow> bool \<Rightarrow> (int, wStream) outcome" where
  "stream_read_i16_le = stream_read 2 (\<lambda>d. sint (winpr_Data_Get_UINT16 d))"

definition stream_read_i16_be :: "wStream \<Rightarrow> bool \<Rightarrow> (int, wStream) outcome" where
  "stream_read_i16_be = stream_read 2 (\<lambda>d. sint (winpr_Data_Get_UINT16_BE d))"

definition stream_read_u32_le :: "wStream \<Rightarrow> bool \<Rightarrow> (u32, wStream) outcome" where
  "stream_read_u32_le = stream_read 4 winpr_Data_Get_UINT32"

definition stream_read_u32_be :: "wStream \<Rightarrow> bool \<Rightarrow> (u32, wStream) outcome" where
  "stream_read_u32_be = stream_read 4 winpr_Data_Get_UINT32_BE"

definition stream_read_i32_le :: "wStream \<Rightarrow> bool \<Rightarrow> (int, wStream) outcome" where
  "stream_read_i32_le = stream_read 4 (\<lambda>d. sint (winpr_Data_Get_UINT32 d))"

definition stream_read_i32_be :: "wStream \<Rightarrow> bool \<Rightarrow> (int, wStream) outcome" where
  "stream_read_i32_be = stream_read 4 (\<lambda>d. sint (winpr_Data_Get_UINT32_BE d))"

definition stream_read_u64_le :: "wStream \<Rightarrow> bool \<Rightarrow> (u64, wStream) outcome" where
  "stream_read_u64_le = stream_read 8 winpr_Data_Get_UINT64"

definition stream_read_u64_be :: "wStream \<Rightarrow> bool \<Rightarrow> (u64, wStream) outcome" where
  "stream_read_u64_be = stream_read 8 winpr_Data_Get_UINT64_BE"

definition Stream_Read :: "wStream \<Rightarrow> nat \<Rightarrow> (byte list, wStream) outcome" where
  "Stream_Read s n =
     run_bind (Stream_GetRemainingCapacity s) (\<lambda>c s.
       run_bind (run_assert (n \<le> c) s) (\<lambda>_ s.
         case mem_read (buffer s) (pointer s) n of
           None \<Rightarrow> Abort
         | Some d \<Rightarrow> run_bind (Stream_Seek s n) (\<lambda>_ s. Done d s)))"

definition Stream_Peek :: "wStream \<Rightarrow> nat \<Rightarrow> (byte list, wStream) outcome" where
  "Stream_Peek s n =
     run_bind (Stream_GetRemainingCapacity s) (\<lambda>c s.
       run_bind (run_assert (n \<le> c) s) (\<lambda>_ s.
         case mem_read (buffer s) (pointer s) n of None \<Rightarrow> Abort | Some d \<Rightarrow> Done d s))"

definition Stream_CheckAndLogRequiredLengthOfSize ::
    "wStream \<Rightarrow> nat \<Rightarrow> nat \<Rightarrow> (unit, wStream) outcome" where
  "Stream_CheckAndLogRequiredLengthOfSize s nmemb sz =
     run_bind (run_assert (sz > 0) s) (\<lambda>_ s.
       run_bind (Stream_GetRemainingLength s) (\<lambda>len s.
         run_guard (nmemb \<le> len div sz) s))"

definition Stream_CheckAndLogRequiredLength :: "wStream \<Rightarrow> nat \<Rightarrow> (unit, wStream) outcome" where
  "Stream_CheckAndLogRequiredLength s len = Stream_CheckAndLogRequiredLengthOfSize s len 1"

definition Stream_CheckAndLogRequiredCapacityOfSize ::
    "wStream \<Rightarrow> nat \<Rightarrow> nat \<Rightarrow> (unit, wStream) outcome" where
  "Stream_CheckAndLogRequiredCapacityOfSize s nmemb sz =
     run_bind (run_assert (sz \<noteq> 0) s) (\<lambda>_ s.
       run_bind (Stream_GetRemainingCapacity s) (\<lambda>c s.
         run_guard (nmemb \<le> c div sz) s))"

definition Stream_SafeSeek :: "wStream \<Rightarrow> nat \<Rightarrow> (unit, wStream) outcome" where
  "Stream_SafeSeek s n =
     run_bind (Stream_CheckAndLogRequiredLength s n) (\<lambda>_ s. Stream_Seek s n)"

section \<open>Writing\<close>

text \<open>The common body of the \<open>_unchecked\<close> writers: assert the capacity, store, advance.\<close>

definition stream_store :: "wStream \<Rightarrow> byte list \<Rightarrow> (unit, wStream) outcome" where
  "stream_store s bs =
     run_bind (Stream_GetRemainingCapacity s) (\<lambda>c s.
       run_bind (run_assert (length bs \<le> c) s) (\<lambda>_ s.
         case mem_write (buffer s) (pointer s) bs of
           None \<Rightarrow> Abort
         | Some b \<Rightarrow> Done () (s\<lparr>buffer := b, pointer := pointer s + length bs\<rparr>)))"

definition Stream_Write_UINT8 :: "wStream \<Rightarrow> nat \<Rightarrow> (unit, wStream) outcome" where
  "Stream_Write_UINT8 s v =
     run_bind (run_assert (v \<le> 0xFF) s) (\<lambda>_ s.
       stream_store s (winpr_Data_Write_UINT8 (of_nat v)))"

definition Stream_Write_UINT16 :: "wStream \<Rightarrow> nat \<Rightarrow> (unit, wStream) outcome" where
  "Stream_Write_UINT16 s v =
     run_bind (run_assert (v \<le> 0xFFFF) s) (\<lambda>_ s.
       stream_store s (winpr_Data_Write_UINT16 (of_nat v)))"

definition Stream_Write_UINT16_BE :: "wStream \<Rightarrow> nat \<Rightarrow> (unit, wStream) outcome" where
  "Stream_Write_UINT16_BE s v =
     run_bind (run_assert (v \<le> 0xFFFF) s) (\<lambda>_ s.
       stream_store s (winpr_Data_Write_UINT16_BE (of_nat v)))"

definition Stream_Write_UINT24_BE :: "wStream \<Rightarrow> nat \<Rightarrow> (unit, wStream) outcome" where
  "Stream_Write_UINT24_BE s v =
     run_bind (run_assert (v \<le> 0xFFFFFF) s) (\<lambda>_ s.
       let w = of_nat v :: u32 in
       stream_store s [ucast (drop_bit 16 w AND 0xFF), ucast (drop_bit 8 w AND 0xFF),
         ucast (w AND 0xFF)])"

definition Stream_Write_UINT32 :: "wStream \<Rightarrow> nat \<Rightarrow> (unit, wStream) outcome" where
  "Stream_Write_UINT32 s v =
     run_bind (run_assert (v \<le> 0xFFFFFFFF) s) (\<lambda>_ s.
       stream_store s (winpr_Data_Write_UINT32 (of_nat v)))"

definition Stream_Write_UINT32_BE :: "wStream \<Rightarrow> nat \<Rightarrow> (unit, wStream) outcome" where
  "Stream_Write_UINT32_BE s v =
     run_bind (run_assert (v \<le> 0xFFFFFFFF) s) (\<lambda>_ s.
       stream_store s (winpr_Data_Write_UINT32_BE (of_nat v)))"

definition Stream_Write_UINT64 :: "wStream \<Rightarrow> u64 \<Rightarrow> (unit, wStream) outcome" where
  "Stream_Write_UINT64 s v = stream_store s (winpr_Data_Write_UINT64 v)"

definition Stream_Write_UINT64_BE :: "wStream \<Rightarrow> u64 \<Rightarrow> (unit, wStream) outcome" where
  "Stream_Write_UINT64_BE s v = stream_store s (winpr_Data_Write_UINT64_BE v)"

definition Stream_Write :: "wStream \<Rightarrow> byte list \<Rightarrow> (unit, wStream) outcome" where
  "Stream_Write s bs =
     (if length bs > 0 then
        run_bind (Stream_GetRemainingCapacity s) (\<lambda>c s.
          run_bind (run_assert (length bs \<le> c) s) (\<lambda>_ s.
            case mem_write (buffer s) (pointer s) bs of
              None \<Rightarrow> Abort
            | Some b \<Rightarrow> Stream_Seek (s\<lparr>buffer := b\<rparr>) (length bs)))
      else Done () s)"

definition Stream_Fill :: "wStream \<Rightarrow> byte \<Rightarrow> nat \<Rightarrow> (unit, wStream) outcome" where
  "Stream_Fill s v n =
     run_bind (Stream_GetRemainingCapacity s) (\<lambda>c s.
       run_bind (run_assert (n \<le> c) s) (\<lambda>_ s.
         case mem_write (buffer s) (pointer s) (replicate n v) of
           None \<Rightarrow> Abort
         | Some b \<Rightarrow> Stream_Seek (s\<lparr>buffer := b\<rparr>) n))"

definition Stream_Zero :: "wStream \<Rightarrow> nat \<Rightarrow> (unit, wStream) outcome" where
  "Stream_Zero s n = Stream_Fill s 0 n"

definition Stream_SafeZero :: "wStream \<Rightarrow> nat \<Rightarrow> (unit, wStream) outcome" where
  "Stream_SafeZero s n =
     run_bind (Stream_CheckAndLogRequiredCapacityOfSize s n 1) (\<lambda>_ s. Stream_Zero s n)"

definition Stream_Clear :: "wStream \<Rightarrow> (unit, wStream) outcome" where
  "Stream_Clear s =
     (case mem_write (buffer s) 0 (replicate (capacity s) 0) of
        None \<Rightarrow> Abort
      | Some b \<Rightarrow> Done () (s\<lparr>buffer := b\<rparr>))"

text \<open>\<open>Stream_Copy\<close> works on two streams: the state is the pair of source and destination.\<close>

definition Stream_Copy :: "wStream \<Rightarrow> wStream \<Rightarrow> nat \<Rightarrow> (unit, wStream \<times> wStream) outcome" where
  "Stream_Copy src dst n =
     (case (Stream_GetRemainingCapacity src, Stream_GetRemainingCapacity dst) of
        (Done cs _, Done cd _) \<Rightarrow>
          if n \<le> cs \<and> n \<le> cd then
            (case mem_read (buffer src) (pointer src) n of
               None \<Rightarrow> Abort
             | Some d \<Rightarrow>
                 (case mem_write (buffer dst) (pointer dst) d of
                    None \<Rightarrow> Abort
                  | Some b \<Rightarrow>
                      (case (Stream_Seek (dst\<lparr>buffer := b\<rparr>) n, Stream_Seek src n) of
                         (Done _ dst', Done _ src') \<Rightarrow> Done () (src', dst')
                       | _ \<Rightarrow> Abort)))
          else Abort
      | _ \<Rightarrow> Abort)"

section \<open>Allocation and growth\<close>

text \<open>
  \<open>Stream_New\<close> takes over a caller's block (\<open>Some\<close>) or allocates a zeroed one; \<open>None\<close> is the null
  result. \<open>Stream_StaticInit\<close> wraps a block the stream does not own.
\<close>

definition Stream_New :: "allocator \<Rightarrow> byte list option \<Rightarrow> nat \<Rightarrow> wStream option" where
  "Stream_New A buf sz =
     (if buf = None \<and> sz = 0 then None
      else case (case buf of Some b \<Rightarrow> Some b | None \<Rightarrow> c_calloc A sz) of
             None \<Rightarrow> None
           | Some b \<Rightarrow> Some \<lparr>buffer = b, pointer = 0, slength = sz, capacity = sz, scount = 1,
                            isAllocatedStream = True, isOwner = True\<rparr>)"

definition Stream_StaticInit :: "byte list \<Rightarrow> nat \<Rightarrow> wStream" where
  "Stream_StaticInit buf sz =
     \<lparr>buffer = buf, pointer = 0, slength = sz, capacity = sz, scount = 1,
      isAllocatedStream = False, isOwner = False\<rparr>"

definition Stream_EnsureCapacity :: "allocator \<Rightarrow> wStream \<Rightarrow> nat \<Rightarrow> (unit, wStream) outcome" where
  "Stream_EnsureCapacity A s sz =
     (if sz \<le> capacity s then Done () s
      else if sz > SIZE_MAX - 128 then Fail s
      else
        let old_capacity = capacity s;
            new_capacity = sz + 128 - sz mod 128;
            position = Stream_GetPosition s
        in
        run_bind
          (if \<not> isOwner s then
             (case c_malloc A new_capacity of
                None \<Rightarrow> Fail s
              | Some new_buf \<Rightarrow>
                  (case mem_read (buffer s) 0 (capacity s) of
                     None \<Rightarrow> Abort
                   | Some d \<Rightarrow>
                       (case mem_write new_buf 0 d of
                          None \<Rightarrow> Abort
                        | Some b \<Rightarrow> Done b (s\<lparr>isOwner := True\<rparr>))))
           else
             (case c_realloc A (buffer s) new_capacity of
                None \<Rightarrow> Fail s
              | Some b \<Rightarrow> Done b s))
          (\<lambda>new_buf s.
             (case mem_write new_buf old_capacity (replicate (new_capacity - old_capacity) 0) of
                None \<Rightarrow> Abort
              | Some b \<Rightarrow>
                  Stream_SetPosition
                    (s\<lparr>buffer := b, capacity := new_capacity, slength := new_capacity\<rparr>) position)))"

definition Stream_EnsureRemainingCapacity ::
    "allocator \<Rightarrow> wStream \<Rightarrow> nat \<Rightarrow> (unit, wStream) outcome" where
  "Stream_EnsureRemainingCapacity A s sz =
     (let pos = Stream_GetPosition s in
      if pos > SIZE_MAX - sz then Fail s
      else if size_add pos sz > capacity s then
        Stream_EnsureCapacity A s (size_add (capacity s) sz)
      else Done () s)"

section \<open>Well-formed streams and their two views\<close>

definition wf_stream :: "wStream \<Rightarrow> bool" where
  "wf_stream s \<longleftrightarrow> length (buffer s) = capacity s \<and> slength s \<le> capacity s \<and>
     pointer s \<le> capacity s \<and> capacity s \<le> PTRDIFF_MAX"

definition readable :: "wStream \<Rightarrow> bool" where
  "readable s \<longleftrightarrow> wf_stream s \<and> pointer s \<le> slength s"

definition rest :: "wStream \<Rightarrow> byte list" where
  "rest s = drop (pointer s) (take (slength s) (buffer s))"

definition written :: "wStream \<Rightarrow> byte list" where
  "written s = take (pointer s) (buffer s)"

definition advance :: "nat \<Rightarrow> wStream \<Rightarrow> wStream" where
  "advance n s = s\<lparr>pointer := pointer s + n\<rparr>"

definition put :: "byte list \<Rightarrow> wStream \<Rightarrow> wStream" where
  "put bs s = s\<lparr>buffer := take (pointer s) (buffer s) @ bs @ drop (pointer s + length bs) (buffer s),
     pointer := pointer s + length bs\<rparr>"

lemma readable_wf: "readable s \<Longrightarrow> wf_stream s"
  by (simp add: readable_def)

lemma length_rest: "readable s \<Longrightarrow> length (rest s) = slength s - pointer s"
  by (simp add: readable_def wf_stream_def rest_def)

lemma rest_advance [simp]: "rest (advance n s) = drop n (rest s)"
  by (simp add: rest_def advance_def add.commute)

lemma advance_0 [simp]: "advance 0 s = s"
  by (simp add: advance_def)

lemma advance_advance [simp]: "advance n (advance m s) = advance (m + n) s"
  by (simp add: advance_def add.assoc)

lemma readable_advance [simp]: "readable s \<Longrightarrow> n \<le> length (rest s) \<Longrightarrow> readable (advance n s)"
  by (auto simp: length_rest) (auto simp: readable_def wf_stream_def advance_def)

lemma take_rest:
  "readable s \<Longrightarrow> n \<le> length (rest s) \<Longrightarrow> take n (drop (pointer s) (buffer s)) = take n (rest s)"
  by (auto simp: length_rest) (auto simp: readable_def wf_stream_def rest_def drop_take min_def)

lemma remaining_length [simp]:
  "readable s \<Longrightarrow> Stream_GetRemainingLength s = Done (length (rest s)) s"
  by (auto simp: length_rest) (auto simp: Stream_GetRemainingLength_def readable_def wf_stream_def)

lemma check_length [simp]:
  "readable s \<Longrightarrow> Stream_CheckAndLogRequiredLength s n = run_guard (n \<le> length (rest s)) s"
  by (simp add: Stream_CheckAndLogRequiredLength_def Stream_CheckAndLogRequiredLengthOfSize_def)

lemma seek_wf: "wf_stream s \<Longrightarrow> pointer s + n \<le> capacity s \<Longrightarrow> Stream_Seek s n = Done () (advance n s)"
  by (auto simp: Stream_Seek_def Stream_GetRemainingCapacity_def wf_stream_def advance_def)

lemma rest_capacity: "readable s \<Longrightarrow> n \<le> length (rest s) \<Longrightarrow> pointer s + n \<le> capacity s"
  by (auto simp: length_rest) (auto simp: readable_def wf_stream_def)

lemma seek_rest [simp]: "readable s \<Longrightarrow> n \<le> length (rest s) \<Longrightarrow> Stream_Seek s n = Done () (advance n s)"
  by (simp add: seek_wf rest_capacity readable_wf)

lemma stream_load_rest:
  assumes "readable s" "n \<le> length (rest s)"
  shows "stream_load n get s seek = Done (get (take n (rest s))) (if seek then advance n s else s)"
proof -
  have "pointer s + n \<le> length (buffer s)"
    using rest_capacity [OF assms] assms(1) by (simp add: readable_def wf_stream_def)
  then show ?thesis
    using assms by (simp add: stream_load_def mem_simps take_rest)
qed

lemma stream_read_rest:
  assumes "readable s"
  shows "stream_read n get s seek =
    (if n \<le> length (rest s) then Done (get (take n (rest s))) (if seek then advance n s else s)
     else Abort)"
  using assms by (simp add: stream_read_def stream_load_rest)

lemma Stream_Read_rest [simp]:
  assumes "readable s" "n \<le> length (rest s)"
  shows "Stream_Read s n = Done (take n (rest s)) (advance n s)"
proof -
  have "pointer s + n \<le> capacity s" "length (buffer s) = capacity s" "n \<le> capacity s - pointer s"
    using rest_capacity [OF assms] assms(1) by (simp_all add: readable_def wf_stream_def)
  then show ?thesis
    using assms by (simp add: Stream_Read_def Stream_GetRemainingCapacity_def mem_simps take_rest)
qed

lemma Stream_Peek_rest [simp]:
  assumes "readable s" "n \<le> length (rest s)"
  shows "Stream_Peek s n = Done (take n (rest s)) s"
proof -
  have "pointer s + n \<le> capacity s" "length (buffer s) = capacity s" "n \<le> capacity s - pointer s"
    using rest_capacity [OF assms] assms(1) by (simp_all add: readable_def wf_stream_def)
  then show ?thesis
    using assms by (simp add: Stream_Peek_def Stream_GetRemainingCapacity_def mem_simps take_rest)
qed

lemmas stream_reads = stream_read_u8_def stream_read_u16_le_def stream_read_u16_be_def
  stream_read_i16_le_def stream_read_i16_be_def stream_read_u32_le_def stream_read_u32_be_def
  stream_read_i32_le_def stream_read_i32_be_def stream_read_u64_le_def stream_read_u64_be_def

lemma read_u8_Cons [simp]:
  "readable s \<Longrightarrow> rest s = b # bs \<Longrightarrow>
     stream_read_u8 s seek = Done b (if seek then advance 1 s else s)"
  by (simp add: stream_reads stream_read_rest winpr_Data_Get_UINT8_def)

lemma read_u16_be_append:
  "readable s \<Longrightarrow> rest s = winpr_Data_Write_UINT16_BE v @ bs \<Longrightarrow>
     stream_read_u16_be s seek = Done v (if seek then advance 2 s else s)"
  using Get_Write_UINT16(2) [of v]
  by (simp add: stream_reads stream_read_rest winpr_Data_Write_UINT16_BE_def)

lemma read_u16_le_append:
  "readable s \<Longrightarrow> rest s = winpr_Data_Write_UINT16 v @ bs \<Longrightarrow>
     stream_read_u16_le s seek = Done v (if seek then advance 2 s else s)"
  using Get_Write_UINT16(1) [of v]
  by (simp add: stream_reads stream_read_rest winpr_Data_Write_UINT16_def)

lemma length_Data_Write [simp]:
  "length (winpr_Data_Write_UINT8 b) = 1"
  "length (winpr_Data_Write_UINT16 v) = 2"
  "length (winpr_Data_Write_UINT16_BE v) = 2"
  "length (winpr_Data_Write_UINT32 w) = 4"
  "length (winpr_Data_Write_UINT32_BE w) = 4"
  "length (winpr_Data_Write_UINT64 x) = 8"
  "length (winpr_Data_Write_UINT64_BE x) = 8"
  by (simp_all add: winpr_Data_Write_UINT8_def winpr_Data_Write_UINT16_def
      winpr_Data_Write_UINT16_BE_def winpr_Data_Write_UINT32_def winpr_Data_Write_UINT32_BE_def
      winpr_Data_Write_UINT64_def winpr_Data_Write_UINT64_BE_def)

lemma read_u32_le_append:
  "readable s \<Longrightarrow> rest s = winpr_Data_Write_UINT32 v @ bs \<Longrightarrow>
     stream_read_u32_le s seek = Done v (if seek then advance 4 s else s)"
  by (simp add: stream_reads stream_read_rest)

lemma read_u32_be_append:
  "readable s \<Longrightarrow> rest s = winpr_Data_Write_UINT32_BE v @ bs \<Longrightarrow>
     stream_read_u32_be s seek = Done v (if seek then advance 4 s else s)"
  by (simp add: stream_reads stream_read_rest)

end
