(* ===== verification/Wire_Codec.thy ===== *)
theory Wire_Codec
  imports Wire_Stream
begin

text \<open>
  How code that builds or parses a PDU on a \<open>wStream\<close> is reasoned about. \<open>emits\<close> and \<open>writes\<close>
  describe writers (what they append, the room they need), \<open>consumes\<close> describes readers (they never
  abort, never leave the stream, whatever the bytes are), each with one rule per way the code
  composes calls. Growth of the stream (\<open>Stream_EnsureCapacity\<close>,
  \<open>Stream_EnsureRemainingCapacity\<close>) and the UTF-16 string loops of \<open>stream.c\<close> are proved here. The
  locales \<open>wire_codec\<close> and \<open>growing_codec\<close> are the interface of an encoding, with the round trips
  that PER, BER, TPKT and the others inherit.
\<close>

section \<open>Writers: what they append, and the room they need\<close>

text \<open>
  \<open>emits r w bs r'\<close>: on a well-formed stream with \<open>r\<close> bytes of capacity left, the writer \<open>w\<close> does
  not abort; when it succeeds it has appended exactly \<open>bs\<close> and left room for \<open>r'\<close> more bytes.
\<close>

definition room :: "nat \<Rightarrow> wStream \<Rightarrow> bool" where
  "room r s \<longleftrightarrow> pointer s + r \<le> capacity s"

definition emits :: "nat \<Rightarrow> (wStream \<Rightarrow> (unit, wStream) outcome) \<Rightarrow> byte list \<Rightarrow> nat \<Rightarrow> bool" where
  "emits r w bs r' \<longleftrightarrow> (\<forall>s. wf_stream s \<and> room r s \<longrightarrow>
     safe_run wf_stream (\<lambda>_ t. written t = written s @ bs \<and> room r' t) (w s))"

lemma written_put [simp]: "wf_stream s \<Longrightarrow> written (put bs s) = written s @ bs"
  by (simp add: written_def put_def wf_stream_def)

lemma wf_put: "wf_stream s \<Longrightarrow> room (length bs) s \<Longrightarrow> wf_stream (put bs s)"
  by (auto simp: wf_stream_def put_def room_def)

lemma room_put [simp]: "room r (put bs s) \<longleftrightarrow> room (length bs + r) s"
  by (simp add: room_def put_def add.assoc)

lemma room_mono: "room r s \<Longrightarrow> r' \<le> r \<Longrightarrow> room r' s"
  by (simp add: room_def)

lemma remaining_capacity:
  "wf_stream s \<Longrightarrow> Stream_GetRemainingCapacity s = Done (capacity s - pointer s) s"
  by (simp add: Stream_GetRemainingCapacity_def wf_stream_def)

lemma room_diff: "wf_stream s \<Longrightarrow> room r s \<longleftrightarrow> r \<le> capacity s - pointer s"
  by (auto simp: room_def wf_stream_def)

lemma mem_write_put:
  "wf_stream s \<Longrightarrow> room (length bs) s \<Longrightarrow>
     mem_write (buffer s) (pointer s) bs = Some (buffer (put bs s))"
  by (simp add: mem_write_def room_def wf_stream_def put_def)

lemma put_eq: "s\<lparr>buffer := buffer (put bs s), pointer := pointer s + length bs\<rparr> = put bs s"
  by (simp add: put_def)

lemma put_Nil: "put [] s = s"
  by (simp add: put_def)

lemma stream_store_put:
  assumes "wf_stream s" "room (length bs) s"
  shows "stream_store s bs = Done () (put bs s)"
  using assms by (simp add: stream_store_def remaining_capacity room_diff [symmetric]
      mem_write_put put_eq)

lemma seek_put:
  assumes "wf_stream s" "room (length bs) s"
  shows "Stream_Seek (s\<lparr>buffer := buffer (put bs s)\<rparr>) (length bs) = Done () (put bs s)"
  using assms
  by (simp add: Stream_Seek_def Stream_GetRemainingCapacity_def wf_stream_def room_diff [symmetric]
      put_eq room_def)

lemma emitsI:
  "(\<And>s. wf_stream s \<Longrightarrow> room r s \<Longrightarrow>
     safe_run wf_stream (\<lambda>_ t. written t = written s @ bs \<and> room r' t) (w s)) \<Longrightarrow> emits r w bs r'"
  by (simp add: emits_def)

lemma emits_put:
  assumes "\<And>s. wf_stream s \<Longrightarrow> room (length bs) s \<Longrightarrow> w s = Done () (put bs s)" "length bs \<le> r"
  shows "emits r w bs (r - length bs)"
proof (rule emitsI)
  fix s assume s: "wf_stream s" "room r s"
  then have "room (length bs) s"
    using assms(2) by (rule_tac room_mono)
  then show "safe_run wf_stream (\<lambda>_ t. written t = written s @ bs \<and> room (r - length bs) t) (w s)"
    using s assms by (simp add: wf_put)
qed

lemma emits_store:
  "length bs \<le> r \<Longrightarrow> emits r (\<lambda>s. stream_store s bs) bs (r - length bs)"
  by (rule emits_put) (simp_all add: stream_store_put)

lemma emits_Write_UINT8:
  "v \<le> 0xFF \<Longrightarrow> 1 \<le> r \<Longrightarrow> emits r (\<lambda>s. Stream_Write_UINT8 s v) [of_nat v] (r - 1)"
  using emits_store [of "winpr_Data_Write_UINT8 (of_nat v)" r]
  by (simp add: Stream_Write_UINT8_def winpr_Data_Write_UINT8_def)

lemma emits_Write_UINT16:
  "v \<le> 0xFFFF \<Longrightarrow> 2 \<le> r \<Longrightarrow>
     emits r (\<lambda>s. Stream_Write_UINT16 s v) (winpr_Data_Write_UINT16 (of_nat v)) (r - 2)"
  using emits_store [of "winpr_Data_Write_UINT16 (of_nat v)" r]
  by (simp add: Stream_Write_UINT16_def)

lemma emits_Write_UINT16_BE:
  "v \<le> 0xFFFF \<Longrightarrow> 2 \<le> r \<Longrightarrow>
     emits r (\<lambda>s. Stream_Write_UINT16_BE s v) (winpr_Data_Write_UINT16_BE (of_nat v)) (r - 2)"
  using emits_store [of "winpr_Data_Write_UINT16_BE (of_nat v)" r]
  by (simp add: Stream_Write_UINT16_BE_def)

lemma emits_Write_UINT32:
  "v \<le> 0xFFFFFFFF \<Longrightarrow> 4 \<le> r \<Longrightarrow>
     emits r (\<lambda>s. Stream_Write_UINT32 s v) (winpr_Data_Write_UINT32 (of_nat v)) (r - 4)"
  using emits_store [of "winpr_Data_Write_UINT32 (of_nat v)" r]
  by (simp add: Stream_Write_UINT32_def)

lemma emits_Write_UINT32_BE:
  "v \<le> 0xFFFFFFFF \<Longrightarrow> 4 \<le> r \<Longrightarrow>
     emits r (\<lambda>s. Stream_Write_UINT32_BE s v) (winpr_Data_Write_UINT32_BE (of_nat v)) (r - 4)"
  using emits_store [of "winpr_Data_Write_UINT32_BE (of_nat v)" r]
  by (simp add: Stream_Write_UINT32_BE_def)

lemma emits_Write: "length bs \<le> r \<Longrightarrow> emits r (\<lambda>s. Stream_Write s bs) bs (r - length bs)"
proof (rule emits_put)
  fix s assume "wf_stream s" "room (length bs) s"
  then show "Stream_Write s bs = Done () (put bs s)"
    by (cases "bs = []") (simp_all add: Stream_Write_def remaining_capacity room_diff [symmetric]
        mem_write_put seek_put put_Nil)
qed

lemma emits_Zero: "n \<le> r \<Longrightarrow> emits r (\<lambda>s. Stream_Zero s n) (replicate n 0) (r - n)"
proof -
  assume "n \<le> r"
  have "emits r (\<lambda>s. Stream_Zero s n) (replicate n 0) (r - length (replicate n (0 :: byte)))"
  proof (rule emits_put)
    fix s assume s: "wf_stream s" "room (length (replicate n (0 :: byte))) s"
    then show "Stream_Zero s n = Done () (put (replicate n 0) s)"
      using seek_put [OF s]
      by (simp add: Stream_Zero_def Stream_Fill_def remaining_capacity room_diff [symmetric]
          mem_write_put)
  qed (use \<open>n \<le> r\<close> in simp)
  then show ?thesis by simp
qed

lemma emits_seq:
  assumes "emits r w as r1" "emits r1 v bs r2"
  shows "emits r (\<lambda>s. run_bind (w s) (\<lambda>_ s. v s)) (as @ bs) r2"
proof (rule emitsI)
  fix s assume s: "wf_stream s" "room r s"
  show "safe_run wf_stream (\<lambda>_ t. written t = written s @ as @ bs \<and> room r2 t)
      (run_bind (w s) (\<lambda>_ s. v s))"
  proof (rule safe_run_bind)
    show "safe_run wf_stream (\<lambda>_ t. written t = written s @ as \<and> room r1 t) (w s)"
      using assms(1) s by (simp add: emits_def)
  next
    fix a t assume "wf_stream t" "written t = written s @ as \<and> room r1 t"
    then show "safe_run wf_stream (\<lambda>_ t. written t = written s @ as @ bs \<and> room r2 t) (v t)"
      using assms(2) by (auto simp: emits_def elim!: safe_run_mono)
  qed
qed

lemma emits_done: "emits r (\<lambda>s. Done () s) [] r"
  by (simp add: emits_def)

lemma emits_fail: "emits r (\<lambda>s. Fail s) bs r'"
  by (simp add: emits_def)

lemma emits_if:
  "(b \<Longrightarrow> emits r w bs r') \<Longrightarrow> (\<not> b \<Longrightarrow> emits r v bs r') \<Longrightarrow>
     emits r (\<lambda>s. if b then w s else v s) bs r'"
  by (cases b) simp_all

lemma emits_weaken: "emits r w bs r1 \<Longrightarrow> r \<le> r0 \<Longrightarrow> r2 \<le> r1 \<Longrightarrow> emits r0 w bs r2"
  by (auto simp: emits_def elim!: safe_run_mono dest: room_mono)

section \<open>Growth\<close>

lemma EnsureCapacity_spec:
  assumes s: "wf_stream s"
  shows "safe_run wf_stream
    (\<lambda>_ t. written t = written s \<and> pointer t = pointer s \<and> sz \<le> capacity t \<and> capacity s \<le> capacity t)
    (Stream_EnsureCapacity A s sz)"
proof -
  define new where "new = sz + 128 - sz mod 128"
  have grow: "safe_run wf_stream
      (\<lambda>_ t. written t = written s \<and> pointer t = pointer s \<and> sz \<le> capacity t \<and> capacity s \<le> capacity t)
      (case mem_write b (capacity s) (replicate (new - capacity s) 0) of
         None \<Rightarrow> Abort
       | Some b \<Rightarrow> Stream_SetPosition (s'\<lparr>buffer := b, capacity := new, slength := new\<rparr>) (pointer s))"
    if "capacity s < sz" "length b = new" "new \<le> PTRDIFF_MAX" "take (capacity s) b = buffer s"
    for b and s' :: wStream
  proof -
    have "sz < new" by (simp add: new_def)
    moreover have "take (pointer s) b = take (pointer s) (buffer s)"
      using that(4) s by (metis min.absorb1 take_take wf_stream_def)
    ultimately show ?thesis
      using that s
      by (auto simp: mem_simps Stream_SetPosition_def wf_stream_def written_def)
  qed
  have copy: "mem_read (buffer s) 0 (capacity s) = Some (buffer s)"
    using s by (simp add: mem_read_def wf_stream_def)
  have fit: "capacity s < sz \<Longrightarrow> capacity s \<le> new"
    by (simp add: new_def)
  have put0: "mem_write b 0 (buffer s) = Some (buffer s @ drop (capacity s) b)"
    if "length b = new" "capacity s < sz" for b
    using that fit s by (simp add: mem_write_def wf_stream_def)
  show ?thesis
  proof (cases "sz \<le> capacity s \<or> sz > SIZE_MAX - 128")
    case True
    then show ?thesis
      using s by (auto simp: Stream_EnsureCapacity_def)
  next
    case False
    then have lt: "capacity s < sz" by simp
    show ?thesis
    proof (cases "isOwner s")
      case True
      show ?thesis
      proof (cases "c_realloc A (buffer s) new")
        case None
        then show ?thesis
          using s False \<open>isOwner s\<close> by (simp add: Stream_EnsureCapacity_def Let_def flip: new_def)
      next
        case (Some b)
        then have "length b = new" "new \<le> PTRDIFF_MAX"
          by (auto dest: c_realloc_length)
        moreover have "take (capacity s) b = buffer s"
          using c_realloc_take [OF Some] fit lt s by (simp add: wf_stream_def)
        ultimately show ?thesis
          using grow [of b s] lt False Some True
          by (simp add: Stream_EnsureCapacity_def Let_def Stream_GetPosition_def flip: new_def)
      qed
    next
      case not_owner: False
      show ?thesis
      proof (cases "c_malloc A new")
        case None
        then show ?thesis
          using s False not_owner by (simp add: Stream_EnsureCapacity_def Let_def flip: new_def)
      next
        case (Some b)
        then have b: "length b = new" "new \<le> PTRDIFF_MAX"
          by (auto dest: c_malloc_length)
        then have "length (buffer s @ drop (capacity s) b) = new"
          using fit [OF lt] s by (simp add: wf_stream_def)
        moreover have "take (capacity s) (buffer s @ drop (capacity s) b) = buffer s"
          using s by (simp add: wf_stream_def)
        ultimately show ?thesis
          using grow [of "buffer s @ drop (capacity s) b" "s\<lparr>isOwner := True\<rparr>"] lt False Some not_owner
            copy put0 [OF b(1) lt] b
          by (simp add: Stream_EnsureCapacity_def Let_def Stream_GetPosition_def flip: new_def)
      qed
    qed
  qed
qed

lemma EnsureRemainingCapacity_spec:
  assumes "wf_stream s" "n \<le> PTRDIFF_MAX" "room r s"
  shows "safe_run wf_stream (\<lambda>_ t. written t = written s \<and> room (max r n) t)
    (Stream_EnsureRemainingCapacity A s n)"
proof -
  have b: "pointer s + n < 2 ^ 64" "capacity s + n < 2 ^ 64" "\<not> SIZE_MAX - n < pointer s"
    using assms by (auto simp: wf_stream_def PTRDIFF_MAX_def SIZE_MAX_def)
  show ?thesis
  proof (cases "capacity s < pointer s + n")
    case True
    have "safe_run wf_stream (\<lambda>_ t. written t = written s \<and> room (max r n) t)
        (Stream_EnsureCapacity A s (capacity s + n))"
      using EnsureCapacity_spec [OF assms(1), of "capacity s + n" A]
      by (rule safe_run_mono) (use assms in \<open>auto simp: room_def wf_stream_def\<close>)
    then show ?thesis
      using True b by (simp add: Stream_EnsureRemainingCapacity_def Stream_GetPosition_def)
  next
    case False
    then show ?thesis
      using b assms
      by (simp add: Stream_EnsureRemainingCapacity_def Stream_GetPosition_def room_def)
  qed
qed

lemma emits_ensure:
  "n \<le> PTRDIFF_MAX \<Longrightarrow> emits r (\<lambda>s. Stream_EnsureRemainingCapacity A s n) [] (max r n)"
  by (simp add: emits_def EnsureRemainingCapacity_spec)

lemma ensure_room:
  assumes "wf_stream s" "room n s"
  shows "Stream_EnsureRemainingCapacity A s n = Done () s"
  using assms
  by (auto simp: Stream_EnsureRemainingCapacity_def Stream_GetPosition_def room_def wf_stream_def
      PTRDIFF_MAX_def SIZE_MAX_def Let_def)

lemma put_put:
  assumes "wf_stream s"
  shows "put bs (put as s) = put (as @ bs) s"
  using assms by (simp add: put_def wf_stream_def add.commute add.left_commute)

text \<open>What a writer of known bytes does when the room is there: the exact state.\<close>

definition writes :: "(wStream \<Rightarrow> (unit, wStream) outcome) \<Rightarrow> byte list \<Rightarrow> bool" where
  "writes w bs \<longleftrightarrow> (\<forall>s. wf_stream s \<and> room (length bs) s \<longrightarrow> w s = Done () (put bs s))"

lemma writes_seq:
  assumes "writes w as" "writes v bs"
  shows "writes (\<lambda>s. run_bind (w s) (\<lambda>_ s. v s)) (as @ bs)"
  unfolding writes_def
proof (intro allI impI)
  fix s assume s: "wf_stream s \<and> room (length (as @ bs)) s"
  then have "room (length as) s" by (auto intro: room_mono)
  then have "w s = Done () (put as s)" "wf_stream (put as s)" "room (length bs) (put as s)"
    using assms(1) s by (auto simp: writes_def wf_put)
  then show "run_bind (w s) (\<lambda>_ s. v s) = Done () (put (as @ bs) s)"
    using assms(2) s by (simp add: writes_def put_put)
qed

lemma writes_ensure:
  assumes "writes v bs" "n \<le> length bs"
  shows "writes (\<lambda>s. run_bind (Stream_EnsureRemainingCapacity A s n) (\<lambda>_ s. v s)) bs"
  unfolding writes_def
proof (intro allI impI)
  fix s assume s: "wf_stream s \<and> room (length bs) s"
  then have "room n s" using assms(2) by (auto intro: room_mono)
  then show "run_bind (Stream_EnsureRemainingCapacity A s n) (\<lambda>_ s. v s) = Done () (put bs s)"
    using s assms(1) by (simp add: ensure_room writes_def)
qed

lemma writes_done: "writes (\<lambda>s. Done () s) []"
  by (simp add: writes_def put_Nil)

lemma writes_if:
  "(b \<Longrightarrow> writes w bs) \<Longrightarrow> (\<not> b \<Longrightarrow> writes v bs) \<Longrightarrow> writes (\<lambda>s. if b then w s else v s) bs"
  by (cases b) simp_all

lemma writes_store: "writes (\<lambda>s. stream_store s bs) bs"
  by (simp add: writes_def stream_store_put)

lemma writes_Write: "writes (\<lambda>s. Stream_Write s bs) bs"
proof -
  have "Stream_Write s bs = Done () (put bs s)" if "wf_stream s" "room (length bs) s" for s
    using that by (cases "bs = []") (simp_all add: Stream_Write_def remaining_capacity
        room_diff [symmetric] mem_write_put seek_put put_Nil)
  then show ?thesis by (simp add: writes_def)
qed

lemma writes_UINT8: "v \<le> 0xFF \<Longrightarrow> writes (\<lambda>s. Stream_Write_UINT8 s v) [of_nat v]"
  using writes_store [of "winpr_Data_Write_UINT8 (of_nat v)"]
  by (simp add: Stream_Write_UINT8_def winpr_Data_Write_UINT8_def)

lemma writes_UINT16_BE:
  "v \<le> 0xFFFF \<Longrightarrow> writes (\<lambda>s. Stream_Write_UINT16_BE s v) (winpr_Data_Write_UINT16_BE (of_nat v))"
  using writes_store by (simp add: Stream_Write_UINT16_BE_def)

lemma writes_UINT16:
  "v \<le> 0xFFFF \<Longrightarrow> writes (\<lambda>s. Stream_Write_UINT16 s v) (winpr_Data_Write_UINT16 (of_nat v))"
  using writes_store by (simp add: Stream_Write_UINT16_def)

lemma writes_UINT32_BE:
  "v \<le> 0xFFFFFFFF \<Longrightarrow> writes (\<lambda>s. Stream_Write_UINT32_BE s v) (winpr_Data_Write_UINT32_BE (of_nat v))"
  using writes_store by (simp add: Stream_Write_UINT32_BE_def)

lemma writes_UINT32:
  "v \<le> 0xFFFFFFFF \<Longrightarrow> writes (\<lambda>s. Stream_Write_UINT32 s v) (winpr_Data_Write_UINT32 (of_nat v))"
  using writes_store by (simp add: Stream_Write_UINT32_def)

lemma writes_Zero: "writes (\<lambda>s. Stream_Zero s n) (replicate n 0)"
proof -
  have "Stream_Zero s n = Done () (put (replicate n 0) s)" if "wf_stream s" "room n s" for s
    using that seek_put [of s "replicate n 0"]
    by (simp add: Stream_Zero_def Stream_Fill_def remaining_capacity room_diff [symmetric]
        mem_write_put)
  then show ?thesis by (simp add: writes_def)
qed

section \<open>Readers: safety on every input\<close>

text \<open>
  \<open>consumes r rd P r'\<close>: on a readable stream with at least \<open>r\<close> bytes left, the reader \<open>rd\<close> does not
  abort, moves the position forward only and never past the stream's length, touches nothing else,
  and on success its result satisfies \<open>P\<close> with at least \<open>r'\<close> bytes left. A parser that is safe on
  every input, however short or malformed, is one with \<open>consumes 0 rd P 0\<close>.
\<close>

definition reads_from :: "wStream \<Rightarrow> wStream \<Rightarrow> bool" where
  "reads_from s t \<longleftrightarrow> t = s\<lparr>pointer := pointer t\<rparr> \<and> pointer s \<le> pointer t \<and> pointer t \<le> slength s"

definition consumes ::
    "nat \<Rightarrow> (wStream \<Rightarrow> ('a, wStream) outcome) \<Rightarrow> ('a \<Rightarrow> bool) \<Rightarrow> nat \<Rightarrow> bool" where
  "consumes r rd P r' \<longleftrightarrow> (\<forall>s. readable s \<and> r \<le> length (rest s) \<longrightarrow>
     safe_run (reads_from s) (\<lambda>a t. P a \<and> r' \<le> length (rest t)) (rd s))"

lemma reads_from_refl: "readable s \<Longrightarrow> reads_from s s"
  by (simp add: reads_from_def readable_def)

lemma reads_from_trans: "reads_from s t \<Longrightarrow> reads_from t u \<Longrightarrow> reads_from s u"
  unfolding reads_from_def by (metis (no_types, lifting) le_trans
      wStream.surjective wStream.update_convs(2) wStream.select_convs(3))

lemma reads_from_readable: "readable s \<Longrightarrow> reads_from s t \<Longrightarrow> readable t"
proof -
  assume s: "readable s" and t: "reads_from s t"
  obtain p where "t = s\<lparr>pointer := p\<rparr>" "p \<le> slength s"
    using t by (auto simp: reads_from_def)
  then show "readable t"
    using s by (auto simp: readable_def wf_stream_def)
qed

lemma reads_from_advance: "readable s \<Longrightarrow> n \<le> length (rest s) \<Longrightarrow> reads_from s (advance n s)"
  by (auto simp: length_rest) (auto simp: reads_from_def readable_def advance_def)

lemma consumesI:
  "(\<And>s. readable s \<Longrightarrow> r \<le> length (rest s) \<Longrightarrow>
      safe_run (reads_from s) (\<lambda>a t. P a \<and> r' \<le> length (rest t)) (rd s)) \<Longrightarrow> consumes r rd P r'"
  by (simp add: consumes_def)

lemma consumes_bind [safe_intros]:
  assumes "consumes r m P r1" "\<And>a. P a \<Longrightarrow> consumes r1 (f a) Q r2"
  shows "consumes r (\<lambda>s. run_bind (m s) (\<lambda>a s. f a s)) Q r2"
proof (rule consumesI)
  fix s assume s: "readable s" "r \<le> length (rest s)"
  show "safe_run (reads_from s) (\<lambda>a t. Q a \<and> r2 \<le> length (rest t)) (run_bind (m s) (\<lambda>a s. f a s))"
  proof (rule safe_run_bind)
    show "safe_run (reads_from s) (\<lambda>a t. P a \<and> r1 \<le> length (rest t)) (m s)"
      using assms(1) s by (simp add: consumes_def)
  next
    fix a t assume t: "reads_from s t" "P a \<and> r1 \<le> length (rest t)"
    then have "safe_run (reads_from t) (\<lambda>a t. Q a \<and> r2 \<le> length (rest t)) (f a t)"
      using assms(2) [of a] s reads_from_readable by (auto simp: consumes_def)
    then show "safe_run (reads_from s) (\<lambda>a t. Q a \<and> r2 \<le> length (rest t)) (f a t)"
      using t(1) by (cases "f a t") (auto dest: reads_from_trans)
  qed
qed

lemma consumes_if [safe_intros]:
  "(b \<Longrightarrow> consumes r m P r') \<Longrightarrow> (\<not> b \<Longrightarrow> consumes r n P r') \<Longrightarrow>
     consumes r (\<lambda>s. if b then m s else n s) P r'"
  by (cases b) simp_all

lemma consumes_done [safe_intros]: "P a \<Longrightarrow> r' \<le> r \<Longrightarrow> consumes r (\<lambda>s. Done a s) P r'"
  by (auto simp: consumes_def reads_from_refl)

lemma consumes_fail [safe_intros]: "consumes r (\<lambda>s. Fail s) P r'"
  by (auto simp: consumes_def reads_from_refl)

lemma consumes_guard [safe_intros]: "consumes r (\<lambda>s. run_guard b s) (\<lambda>_. b) r"
  by (cases b) (auto simp: consumes_def reads_from_refl)

lemma consumes_assert [safe_intros]: "b \<Longrightarrow> consumes r (\<lambda>s. run_assert b s) (\<lambda>_. True) r"
  by (simp add: consumes_def reads_from_refl)

lemma consumes_check [safe_intros]:
  "consumes r (\<lambda>s. Stream_CheckAndLogRequiredLength s n) (\<lambda>_. True) (max r n)"
  by (auto simp: consumes_def reads_from_refl run_guard_def)

lemma consumes_read:
  assumes "n \<le> r"
  shows "consumes r (\<lambda>s. stream_read n get s True) (\<lambda>_. True) (r - n)"
proof (rule consumesI)
  fix s assume s: "readable s" "r \<le> length (rest s)"
  then have "n \<le> length (rest s)" using assms by simp
  then show "safe_run (reads_from s) (\<lambda>a t. True \<and> r - n \<le> length (rest t)) (stream_read n get s True)"
    using s by (simp add: stream_read_rest reads_from_advance diff_le_mono)
qed

lemma consumes_seek [safe_intros]: "n \<le> r \<Longrightarrow> consumes r (\<lambda>s. Stream_Seek s n) (\<lambda>_. True) (r - n)"
  by (rule consumesI) (simp add: reads_from_advance diff_le_mono)

lemma consumes_Read [safe_intros]:
  "n \<le> r \<Longrightarrow> consumes r (\<lambda>s. Stream_Read s n) (\<lambda>bs. length bs = n) (r - n)"
  by (rule consumesI) (simp add: reads_from_advance diff_le_mono)

lemma consumes_weaken:
  "consumes r m P r1 \<Longrightarrow> r \<le> r0 \<Longrightarrow> r2 \<le> r1 \<Longrightarrow> (\<And>a. P a \<Longrightarrow> Q a) \<Longrightarrow> consumes r0 m Q r2"
  by (fastforce simp: consumes_def elim!: safe_run_mono)

lemma consumes_u8 [safe_intros]:
    "1 \<le> r \<Longrightarrow> consumes r (\<lambda>s. stream_read_u8 s True) (\<lambda>_. True) (r - 1)"
  and consumes_u16_be [safe_intros]:
    "2 \<le> r \<Longrightarrow> consumes r (\<lambda>s. stream_read_u16_be s True) (\<lambda>_. True) (r - 2)"
  and consumes_u16_le [safe_intros]:
    "2 \<le> r \<Longrightarrow> consumes r (\<lambda>s. stream_read_u16_le s True) (\<lambda>_. True) (r - 2)"
  and consumes_u32_be [safe_intros]:
    "4 \<le> r \<Longrightarrow> consumes r (\<lambda>s. stream_read_u32_be s True) (\<lambda>_. True) (r - 4)"
  and consumes_u32_le [safe_intros]:
    "4 \<le> r \<Longrightarrow> consumes r (\<lambda>s. stream_read_u32_le s True) (\<lambda>_. True) (r - 4)"
  unfolding stream_reads by (erule consumes_read)+

text \<open>Forms for the last call of a reader, where the result and the bytes left are given.\<close>

lemma consumes_ends:
  "(b \<Longrightarrow> Q ()) \<Longrightarrow> consumes r (\<lambda>s. run_guard b s) Q 0"
  "n \<le> r \<Longrightarrow> Q () \<Longrightarrow> consumes r (\<lambda>s. Stream_Seek s n) Q 0"
  "1 \<le> r \<Longrightarrow> (\<And>a. P a) \<Longrightarrow> consumes r (\<lambda>s. stream_read_u8 s True) P 0"
proof -
  show "(b \<Longrightarrow> Q ()) \<Longrightarrow> consumes r (\<lambda>s. run_guard b s) Q 0"
    by (rule consumes_weaken [OF consumes_guard order_refl]) auto
  show "n \<le> r \<Longrightarrow> Q () \<Longrightarrow> consumes r (\<lambda>s. Stream_Seek s n) Q 0"
    by (rule consumes_weaken [OF consumes_seek order_refl]) auto
  show "1 \<le> r \<Longrightarrow> (\<And>a. P a) \<Longrightarrow> consumes r (\<lambda>s. stream_read_u8 s True) P 0"
    by (rule consumes_weaken [OF consumes_u8 order_refl]) auto
qed

text \<open>A reader that is safe on every input never aborts and leaves a readable stream.\<close>

lemma consumes_safe:
  assumes "consumes 0 rd P r'" "readable s"
  shows "rd s \<noteq> Abort"
    and "rd s = Done a t \<Longrightarrow> P a \<and> reads_from s t"
    and "rd s = Fail t \<Longrightarrow> reads_from s t"
  using assms by (auto simp: consumes_def safe_run_def split: outcome.splits)

lemma consumes_run:
  "consumes 0 rd P r' \<Longrightarrow> readable s \<Longrightarrow> safe_run (reads_from s) (\<lambda>a _. P a) (rd s)"
  by (auto simp: consumes_def elim: safe_run_mono)
lemma consumes_option [safe_intros]:
  "(x = None \<Longrightarrow> consumes r f P r') \<Longrightarrow> (\<And>y. x = Some y \<Longrightarrow> consumes r (g y) P r') \<Longrightarrow>
    consumes r (\<lambda>s. case x of None \<Rightarrow> f s | Some y \<Rightarrow> g y s) P r'"
  by (cases x) simp_all

lemma consumes_Peek [safe_intros]:
  "n \<le> r \<Longrightarrow> consumes r (\<lambda>s. Stream_Peek s n) (\<lambda>d. length d = n) r"
  by (auto simp: consumes_def Stream_Peek_rest reads_from_refl)

lemma consumes_read_ends [safe_intros]:
  "n \<le> r \<Longrightarrow> (\<And>d. length d = n \<Longrightarrow> P d) \<Longrightarrow> consumes r (\<lambda>s. Stream_Read s n) P 0"
  "4 \<le> r \<Longrightarrow> (\<And>a. Q a) \<Longrightarrow> consumes r (\<lambda>s. stream_read_u32_be s True) Q 0"
proof -
  show "n \<le> r \<Longrightarrow> (\<And>d. length d = n \<Longrightarrow> P d) \<Longrightarrow> consumes r (\<lambda>s. Stream_Read s n) P 0"
    by (rule consumes_weaken [OF consumes_Read order_refl]) auto
  show "4 \<le> r \<Longrightarrow> (\<And>a. Q a) \<Longrightarrow> consumes r (\<lambda>s. stream_read_u32_be s True) Q 0"
    by (rule consumes_weaken [OF _ order_refl], rule safe_intros) auto
qed

lemma read_u8_peek: "readable s \<Longrightarrow> rest s = b # bs \<Longrightarrow> stream_read_u8 s False = Done b s"
  by (simp add: stream_read_u8_def stream_read_rest winpr_Data_Get_UINT8_def)

lemma read_u16_be_rest:
  "readable s \<Longrightarrow> 2 \<le> length (rest s) \<Longrightarrow>
    stream_read_u16_be s True = Done (winpr_Data_Get_UINT16_BE (take 2 (rest s))) (advance 2 s)"
  by (simp add: stream_read_u16_be_def stream_read_rest)

lemma consumes_peek_u8 [safe_intros]: "1 \<le> r \<Longrightarrow> consumes r (\<lambda>s. stream_read_u8 s False) (\<lambda>_. True) r"
  by (auto simp: consumes_def stream_read_u8_def stream_read_rest reads_from_refl)

lemma consumes_case_prod [safe_intros]:
  "(\<And>a b. x = (a, b) \<Longrightarrow> consumes r (f a b) P r') \<Longrightarrow> consumes r (\<lambda>s. case x of (a, b) \<Rightarrow> f a b s) P r'"
  by (cases x) simp

lemma check_at:
  "readable s \<Longrightarrow> Stream_CheckAndLogRequiredLength s n = (if n \<le> length (rest s) then Done () s else Fail s)"
  by (simp add: run_guard_def)

section \<open>Loops over streams\<close>

primrec write_each ::
    "('a \<Rightarrow> wStream \<Rightarrow> (unit, wStream) outcome) \<Rightarrow> 'a list \<Rightarrow> wStream \<Rightarrow> (unit, wStream) outcome" where
  "write_each wr [] s = Done () s"
| "write_each wr (x # xs) s = run_bind (wr x s) (\<lambda>_ s. write_each wr xs s)"

primrec read_each ::
    "(wStream \<Rightarrow> ('a, wStream) outcome) \<Rightarrow> nat \<Rightarrow> wStream \<Rightarrow> ('a list, wStream) outcome" where
  "read_each rd 0 s = Done [] s"
| "read_each rd (Suc n) s =
     run_bind (rd s) (\<lambda>x s. run_bind (read_each rd n s) (\<lambda>xs s. Done (x # xs) s))"

definition Stream_Write_UTF16_String :: "wStream \<Rightarrow> u16 list \<Rightarrow> (unit, wStream) outcome" where
  "Stream_Write_UTF16_String s src =
     run_bind (Stream_CheckAndLogRequiredCapacityOfSize s (length src) 2) (\<lambda>_ s.
       write_each (\<lambda>c s. Stream_Write_UINT16 s (unat c)) src s)"

definition Stream_Read_UTF16_String :: "wStream \<Rightarrow> nat \<Rightarrow> (u16 list, wStream) outcome" where
  "Stream_Read_UTF16_String s n =
     run_bind (Stream_CheckAndLogRequiredLengthOfSize s n 2) (\<lambda>_ s.
       read_each (\<lambda>s. stream_read_u16_le s True) n s)"

lemma write_each_writes:
  assumes "\<And>x. x \<in> set xs \<Longrightarrow> writes (wr x) (enc x)"
  shows "writes (write_each wr xs) (concat (map enc xs))"
  using assms
proof (induction xs)
  case Nil
  then show ?case using writes_done by simp
next
  case (Cons x xs)
  then have "writes (\<lambda>s. run_bind (wr x s) (\<lambda>_ s. write_each wr xs s)) (enc x @ concat (map enc xs))"
    by (intro writes_seq) auto
  moreover have "write_each wr (x # xs) = (\<lambda>s. run_bind (wr x s) (\<lambda>_ s. write_each wr xs s))"
    by (simp add: fun_eq_iff)
  ultimately show ?case by simp
qed

lemma consumes_each:
  assumes "\<And>r. k \<le> r \<Longrightarrow> consumes r rd (\<lambda>_. True) (r - k)"
  shows "n * k \<le> r \<Longrightarrow> consumes r (read_each rd n) (\<lambda>xs. length xs = n) (r - n * k)"
proof (induction n arbitrary: r)
  case 0
  have "read_each rd 0 = (\<lambda>s. Done [] s)" by (simp add: fun_eq_iff)
  then show ?case by (simp add: consumes_done)
next
  case (Suc n)
  have "read_each rd (Suc n) =
      (\<lambda>s. run_bind (rd s) (\<lambda>x s. run_bind (read_each rd n s) (\<lambda>xs s. Done (x # xs) s)))"
    by (simp add: fun_eq_iff)
  moreover have "consumes r \<dots> (\<lambda>xs. length xs = Suc n) (r - Suc n * k)"
  proof (rule consumes_bind)
    show "consumes r rd (\<lambda>_. True) (r - k)"
      using Suc.prems by (intro assms) simp
    show "consumes (r - k) (\<lambda>s. run_bind (read_each rd n s) (\<lambda>xs s. Done (x # xs) s))
        (\<lambda>xs. length xs = Suc n) (r - Suc n * k)" for x
    proof (rule consumes_bind)
      have "r - k - n * k = r - Suc n * k" by simp
      then show "consumes (r - k) (read_each rd n) (\<lambda>xs. length xs = n) (r - Suc n * k)"
        using Suc.IH [of "r - k"] Suc.prems by (simp add: add_le_imp_le_diff)
    qed (simp add: consumes_done)
  qed
  ultimately show ?case by simp
qed

lemma emits_ensure_seq:
  assumes "n \<le> PTRDIFF_MAX" "emits (max r n) w bs r'"
  shows "emits r (\<lambda>s. run_bind (Stream_EnsureRemainingCapacity A s n) (\<lambda>_ s. w s)) bs r'"
  using emits_seq [OF emits_ensure [OF assms(1)] assms(2)] by simp

lemma emits_end: "emits r w bs r' \<Longrightarrow> emits r w bs 0"
  by (erule emits_weaken) simp_all

lemma ptrdiff_numerals [simp]: "1 \<le> PTRDIFF_MAX" "Suc 0 \<le> PTRDIFF_MAX" "2 \<le> PTRDIFF_MAX" "4 \<le> PTRDIFF_MAX"
  "6 \<le> PTRDIFF_MAX"  "unat (len :: u16) \<le> PTRDIFF_MAX"
  using unat_u16_le [of len] by (simp_all add: PTRDIFF_MAX_def)

lemma word_of_nat_unat: "(of_nat (unat n) :: 'a :: len word) = ucast n"
  by (rule bit_word_eqI) (simp add: bit_simps)

lemma unat_ucast_small:
  "n \<le> (0xFF :: u32) \<Longrightarrow> unat (ucast n :: byte) = unat n"
  "n \<le> (0xFFFF :: u32) \<Longrightarrow> unat (ucast n :: u16) = unat n"
  by (simp_all add: word_le_nat_alt unsigned_ucast_eq take_bit_nat_eq_self_iff)

lemma writes_byte: "writes (\<lambda>s. Stream_Write_UINT8 s (unat (b :: byte))) [b]"
  using writes_UINT8 [of "unat b"] by (simp add: unat_bounds)

lemma emits_byte: "1 \<le> r \<Longrightarrow> emits r (\<lambda>s. Stream_Write_UINT8 s (unat (b :: byte))) [b] (r - 1)"
  using emits_Write_UINT8 [of "unat b" r] by (simp add: unat_bounds)

text \<open>Writers that return a value, with the capacity asserted first.\<close>

definition assert_capacity :: "nat \<Rightarrow> wStream \<Rightarrow> (unit, wStream) outcome" where
  "assert_capacity n s = run_bind (Stream_GetRemainingCapacity s) (\<lambda>c s. run_assert (n \<le> c) s)"

definition writes_as :: "'a \<Rightarrow> (wStream \<Rightarrow> ('a, wStream) outcome) \<Rightarrow> byte list \<Rightarrow> bool" where
  "writes_as v w bs \<longleftrightarrow> (\<forall>s. wf_stream s \<and> room (length bs) s \<longrightarrow> w s = Done v (put bs s))"

lemma writes_as_unit: "writes_as () w bs \<longleftrightarrow> writes w bs"
  by (simp add: writes_as_def writes_def)

lemma writes_as_seq:
  assumes "writes_as a w as" "writes_as b (v a) bs" "cs = as @ bs"
  shows "writes_as b (\<lambda>s. run_bind (w s) (\<lambda>x s. v x s)) cs"
  unfolding writes_as_def
proof (intro allI impI)
  fix s assume s: "wf_stream s \<and> room (length cs) s"
  then have "room (length as) s" "room (length bs) (put as s)"
    using assms(3) by (auto intro: room_mono)
  moreover from this have "wf_stream (put as s)" using s by (auto intro: wf_put)
  ultimately show "run_bind (w s) (\<lambda>x s. v x s) = Done b (put cs s)"
    using assms s by (simp add: writes_as_def put_put)
qed

lemma writes_as_done: "writes_as v (\<lambda>s. Done v s) []"
  by (simp add: writes_as_def put_Nil)

lemma writes_as_assert:
  assumes "writes_as v w bs" "P"
  shows "writes_as v (\<lambda>s. run_bind (run_assert P s) (\<lambda>_ s. w s)) bs"
  using assms by (simp add: writes_as_def)

lemma writes_as_capacity:
  assumes "writes_as v w bs" "n \<le> length bs"
  shows "writes_as v (\<lambda>s. run_bind (assert_capacity n s) (\<lambda>_ s. w s)) bs"
proof -
  have "assert_capacity n s = Done () s" if "wf_stream s" "room (length bs) s" for s
    using that assms(2) remaining_capacity [OF that(1)] by (auto simp: assert_capacity_def room_diff)
  then show ?thesis using assms(1) by (simp add: writes_as_def)
qed

lemma writes_as_byte:
  "writes_as () (\<lambda>s. Stream_Write_UINT8 s (unat (b :: byte))) [b]"
  using writes_UINT8 [of "unat b"] by (simp add: writes_as_unit unat_bounds)

lemma writes_as_UINT8: "v \<le> 0xFF \<Longrightarrow> writes_as () (\<lambda>s. Stream_Write_UINT8 s v) [of_nat v]"
  by (simp add: writes_as_unit writes_UINT8)

lemma writes_as_UINT16_BE:
  "v \<le> 0xFFFF \<Longrightarrow> writes_as () (\<lambda>s. Stream_Write_UINT16_BE s v) (winpr_Data_Write_UINT16_BE (of_nat v))"
  by (simp add: writes_as_unit writes_UINT16_BE)

lemma writes_as_UINT32_BE:
  "writes_as () (\<lambda>s. Stream_Write_UINT32_BE s (unat v)) (winpr_Data_Write_UINT32_BE v)"
  using writes_UINT32_BE [of "unat v"] by (simp add: writes_as_unit unat_bounds)

lemma writes_as_require:
  assumes "writes_as v w bs" "n \<le> length bs"
  shows "writes_as v (\<lambda>s. run_bind (Stream_CheckAndLogRequiredCapacityOfSize s n 1) (\<lambda>_ s. w s)) bs"
proof -
  have "Stream_CheckAndLogRequiredCapacityOfSize s n 1 = Done () s" if "wf_stream s" "room (length bs) s" for s
    using that assms(2) remaining_capacity [OF that(1)]
    by (auto simp: Stream_CheckAndLogRequiredCapacityOfSize_def room_diff)
  then show ?thesis using assms(1) by (simp add: writes_as_def)
qed

lemma writes_as_UINT16:
  "v \<le> 0xFFFF \<Longrightarrow> writes_as () (\<lambda>s. Stream_Write_UINT16 s v) (winpr_Data_Write_UINT16 (of_nat v))"
  by (simp add: writes_as_unit writes_UINT16)

lemma writes_as_Write: "writes_as () (\<lambda>s. Stream_Write s bs) bs"
  by (simp add: writes_as_unit writes_Write)

section \<open>The interface of an encoding\<close>

text \<open>
  Writing is followed by reading the usual way: the length is sealed at the end of what was written,
  the position set back to where the writing began, and the reader run there.
\<close>

definition reread :: "nat \<Rightarrow> (wStream \<Rightarrow> ('a, wStream) outcome) \<Rightarrow> wStream \<Rightarrow> ('a, wStream) outcome" where
  "reread pos rd t =
     run_bind (Stream_SealLength t) (\<lambda>_ t. run_bind (Stream_SetPosition t pos) (\<lambda>_ t. rd t))"

definition rewound :: "nat \<Rightarrow> wStream \<Rightarrow> wStream" where
  "rewound pos t = t\<lparr>slength := pointer t, pointer := pos\<rparr>"

lemma advance_rewound: "pos + n = pointer t \<Longrightarrow> advance n (rewound pos t) = t\<lparr>slength := pointer t\<rparr>"
  by (cases t) (simp add: advance_def rewound_def)

lemma reread_eq:
  assumes "wf_stream t" "written t = pre @ bs"
  shows "reread (length pre) rd t = rd (rewound (length pre) t)"
    and "readable (rewound (length pre) t)" "rest (rewound (length pre) t) = bs"
    and "length pre + length bs = pointer t"
proof -
  show len: "length pre + length bs = pointer t"
    using arg_cong [OF assms(2), of length] assms(1) by (simp add: written_def wf_stream_def)
  show "readable (rewound (length pre) t)" "rest (rewound (length pre) t) = bs"
    using assms len
    by (simp_all add: rewound_def readable_def wf_stream_def rest_def written_def)
  show "reread (length pre) rd t = rd (rewound (length pre) t)"
    using assms(1) len
    by (simp add: reread_def rewound_def Stream_SealLength_def Stream_SetPosition_def wf_stream_def)
qed

lemma emits_reread:
  assumes "emits 0 w bs 0" "wf_stream s" "w s = Done () t"
  shows "reread (pointer s) rd t = rd (rewound (pointer s) t)"
    and "readable (rewound (pointer s) t)" "rest (rewound (pointer s) t) = bs"
    and "pointer t = pointer s + length bs"
proof -
  have "room 0 s" using assms(2) by (simp add: room_def wf_stream_def)
  then have "wf_stream t" "written t = written s @ bs"
    using assms by (auto simp: emits_def)
  moreover have "length (written s) = pointer s"
    using assms(2) by (simp add: written_def wf_stream_def)
  ultimately show "reread (pointer s) rd t = rd (rewound (pointer s) t)"
    "readable (rewound (pointer s) t)" "rest (rewound (pointer s) t) = bs"
    "pointer t = pointer s + length bs"
    using reread_eq by metis+
qed

text \<open>
  A wire encoding is a writer and a reader that agree on the bytes of every value in its domain:
  with enough room the writer puts exactly those bytes, and where they lie ahead the reader returns
  the value and moves past them. A growing encoding also makes its own room.
\<close>

locale wire_codec =
  fixes wr :: "'a \<Rightarrow> wStream \<Rightarrow> (unit, wStream) outcome"
    and rd :: "wStream \<Rightarrow> ('a, wStream) outcome"
    and enc :: "'a \<Rightarrow> byte list"
    and ok :: "'a \<Rightarrow> bool"
  assumes wr_writes: "ok x \<Longrightarrow> writes (wr x) (enc x)"
    and rd_enc: "ok x \<Longrightarrow> readable s \<Longrightarrow> rest s = enc x @ bs \<Longrightarrow>
      rd s = Done x (advance (length (enc x)) s)"
begin

lemma reread_enc:
  assumes "ok x" "wf_stream t" "written t = pre @ enc x"
  shows "reread (length pre) rd t = Done x (t\<lparr>slength := pointer t\<rparr>)"
  using reread_eq(1) [OF assms(2,3), of rd] reread_eq(2-4) [OF assms(2,3)]
    rd_enc [OF assms(1), of "rewound (length pre) t" "[]"]
  by (simp add: advance_rewound)

lemma round_trip:
  assumes "ok x" "wf_stream s" "room (length (enc x)) s"
  shows "run_bind (wr x s) (\<lambda>_ t. reread (pointer s) rd t) =
    Done x ((put (enc x) s)\<lparr>slength := pointer s + length (enc x)\<rparr>)"
proof -
  have "wr x s = Done () (put (enc x) s)"
    using wr_writes [OF assms(1)] assms by (simp add: writes_def)
  moreover have "length (written s) = pointer s" "pointer (put (enc x) s) = pointer s + length (enc x)"
    using assms(2) by (simp_all add: written_def wf_stream_def put_def)
  ultimately show ?thesis
    using reread_enc [OF assms(1) wf_put [OF assms(2,3)] written_put [OF assms(2)]] by simp
qed

lemma each_codec:
  "wire_codec (write_each wr) (read_each rd n) (\<lambda>xs. concat (map enc xs))
     (\<lambda>xs. length xs = n \<and> list_all ok xs)"
proof (rule wire_codec.intro)
  fix xs assume "length xs = n \<and> list_all ok xs"
  then show "writes (write_each wr xs) (concat (map enc xs))"
    by (intro write_each_writes wr_writes) (auto simp: list_all_iff)
next
  fix xs s bs
  assume "length xs = n \<and> list_all ok xs" "readable s" "rest s = concat (map enc xs) @ bs"
  then show "read_each rd n s = Done xs (advance (length (concat (map enc xs))) s)"
  proof (induction xs arbitrary: n s)
    case Nil
    then show ?case by simp
  next
    case (Cons x xs)
    then obtain m where m: "n = Suc m" "length xs = m" by (cases n) auto
    have hd: "rd s = Done x (advance (length (enc x)) s)"
      using Cons.prems by (intro rd_enc) auto
    have "readable (advance (length (enc x)) s)"
      using Cons.prems by simp
    then have "read_each rd m (advance (length (enc x)) s) =
        Done xs (advance (length (concat (map enc xs))) (advance (length (enc x)) s))"
      using Cons.prems m by (intro Cons.IH) auto
    then show ?case using hd m by simp
  qed
qed

end

locale growing_codec = wire_codec +
  assumes wr_grows: "ok x \<Longrightarrow> emits 0 (wr x) (enc x) 0"
begin

text \<open>From any well-formed stream, whatever the allocator does: no abort, and a success re-reads.\<close>

lemma growing_round_trip:
  assumes "ok x" "wf_stream s" "wr x s = Done () t"
  shows "reread (pointer s) rd t = Done x (t\<lparr>slength := pointer t\<rparr>)"
  using emits_reread(1) [OF wr_grows [OF assms(1)] assms(2,3), of rd]
    emits_reread(2-4) [OF wr_grows [OF assms(1)] assms(2,3)]
    rd_enc [OF assms(1), of "rewound (pointer s) t" "[]"]
    advance_rewound [of "pointer s" "length (enc x)" t]
  by simp

lemma growing_no_abort:
  assumes "ok x" "wf_stream s"
  shows "wr x s \<noteq> Abort"
proof -
  have "room 0 s" using assms(2) by (simp add: room_def wf_stream_def)
  then show ?thesis
    using wr_grows [OF assms(1)] assms(2) by (auto simp: emits_def dest: safe_run_not_Abort)
qed

end

interpretation wchar: wire_codec "\<lambda>c s. Stream_Write_UINT16 s (unat c)"
    "\<lambda>s. stream_read_u16_le s True" winpr_Data_Write_UINT16 "\<lambda>_. True"
proof
  fix c :: u16
  show "writes (\<lambda>s. Stream_Write_UINT16 s (unat c)) (winpr_Data_Write_UINT16 c)"
    using writes_UINT16 [of "unat c"] by (simp add: unat_bounds)
qed (simp add: read_u16_le_append)

interpretation u32_le: wire_codec "\<lambda>c s. Stream_Write_UINT32 s (unat c)"
    "\<lambda>s. stream_read_u32_le s True" winpr_Data_Write_UINT32 "\<lambda>_. True"
proof
  fix c :: u32
  show "writes (\<lambda>s. Stream_Write_UINT32 s (unat c)) (winpr_Data_Write_UINT32 c)"
    using writes_UINT32 [of "unat c"] by (simp add: unat_bounds)
qed (simp add: read_u32_le_append)

end
