(* ===== verification/Ber.thy ===== *)
theory Ber
  imports Wire_Codec
begin

text \<open>
  The BER subset of ASN.1 of \<open>libfreerdp/crypto/ber.c\<close>, on which the MCS connection PDUs and the
  certificate parser rest. The readers check the length before every access; the writers assert the
  capacity and return the number of bytes they wrote. The theory shows the readers safe on every
  input, gives the bytes every writer produces, relates the \<open>sizeof\<close> functions to them, and shows
  that values are read back. A read whose destination pointer may be null takes a flag that says
  whether the value is wanted.
\<close>

unbundle bit_operations_syntax

section \<open>The operations\<close>

definition BER_PC :: "bool \<Rightarrow> byte" where
  "BER_PC pc = (if pc then 0x20 else 0x00)"

definition ber_read_length :: "wStream \<Rightarrow> (nat, wStream) outcome" where
  "ber_read_length s =
     run_bind (Stream_CheckAndLogRequiredLength s 1) (\<lambda>_ s.
     run_bind (stream_read_u8 s True) (\<lambda>byte s.
       if byte AND 0x80 \<noteq> 0 then
         let byte = byte AND NOT 0x80 in
         run_bind (Stream_CheckAndLogRequiredLength s (unat byte)) (\<lambda>_ s.
           if byte = 1 then run_bind (stream_read_u8 s True) (\<lambda>v s. Done (unat v) s)
           else if byte = 2 then run_bind (stream_read_u16_be s True) (\<lambda>v s. Done (unat v) s)
           else Fail s)
       else Done (unat byte) s))"

definition ber_write_length :: "nat \<Rightarrow> wStream \<Rightarrow> (nat, wStream) outcome" where
  "ber_write_length len s =
     (if len > 0xFF then
        run_bind (run_assert (len \<le> 0xFFFF) s) (\<lambda>_ s.
        run_bind (assert_capacity 3 s) (\<lambda>_ s.
        run_bind (Stream_Write_UINT8 s (unat (0x80 XOR 2 :: byte))) (\<lambda>_ s.
        run_bind (Stream_Write_UINT16_BE s len) (\<lambda>_ s. Done 3 s))))
      else
        run_bind (run_assert (len \<le> 0xFF) s) (\<lambda>_ s.
          if len > 0x7F then
            run_bind (assert_capacity 2 s) (\<lambda>_ s.
            run_bind (Stream_Write_UINT8 s (unat (0x80 XOR 1 :: byte))) (\<lambda>_ s.
            run_bind (Stream_Write_UINT8 s len) (\<lambda>_ s. Done 2 s)))
          else
            run_bind (assert_capacity 1 s) (\<lambda>_ s.
            run_bind (Stream_Write_UINT8 s len) (\<lambda>_ s. Done 1 s))))"

definition ber_sizeof_length :: "nat \<Rightarrow> nat" where
  "ber_sizeof_length len = (if len > 0xFF then 3 else if len > 0x7F then 2 else 1)"

definition ber_universal :: "byte \<Rightarrow> bool \<Rightarrow> byte" where
  "ber_universal tag pc = 0x00 OR BER_PC pc OR (0x1F AND tag)"

definition ber_read_universal_tag :: "byte \<Rightarrow> bool \<Rightarrow> wStream \<Rightarrow> (unit, wStream) outcome" where
  "ber_read_universal_tag tag pc s =
     run_bind (Stream_CheckAndLogRequiredLength s 1) (\<lambda>_ s.
     run_bind (stream_read_u8 s True) (\<lambda>byte s.
       if byte \<noteq> ber_universal tag pc then Fail s else Done () s))"

definition ber_write_universal_tag :: "byte \<Rightarrow> bool \<Rightarrow> wStream \<Rightarrow> (nat, wStream) outcome" where
  "ber_write_universal_tag tag pc s =
     run_bind (Stream_Write_UINT8 s (unat (ber_universal tag pc))) (\<lambda>_ s. Done 1 s)"

definition ber_read_application_tag :: "byte \<Rightarrow> wStream \<Rightarrow> (nat, wStream) outcome" where
  "ber_read_application_tag tag s =
     (if tag > 30 then
        run_bind (Stream_CheckAndLogRequiredLength s 2) (\<lambda>_ s.
        run_bind (stream_read_u8 s True) (\<lambda>byte s.
          if byte \<noteq> (0x40 OR 0x20) OR 0x1F then Fail s
          else
            run_bind (stream_read_u8 s True) (\<lambda>byte s.
              if byte \<noteq> tag then Fail s else ber_read_length s)))
      else
        run_bind (Stream_CheckAndLogRequiredLength s 1) (\<lambda>_ s.
        run_bind (stream_read_u8 s True) (\<lambda>byte s.
          if byte \<noteq> (0x40 OR 0x20) OR (0x1F AND tag) then Fail s else ber_read_length s)))"

definition ber_write_application_tag :: "byte \<Rightarrow> nat \<Rightarrow> wStream \<Rightarrow> (unit, wStream) outcome" where
  "ber_write_application_tag tag len s =
     (if tag > 30 then
        run_bind (assert_capacity 2 s) (\<lambda>_ s.
        run_bind (Stream_Write_UINT8 s (unat ((0x40 OR 0x20) OR 0x1F :: byte))) (\<lambda>_ s.
        run_bind (Stream_Write_UINT8 s (unat tag)) (\<lambda>_ s.
        run_bind (ber_write_length len s) (\<lambda>_ s. Done () s))))
      else
        run_bind (assert_capacity 1 s) (\<lambda>_ s.
        run_bind (Stream_Write_UINT8 s (unat ((0x40 OR 0x20) OR (0x1F AND tag)))) (\<lambda>_ s.
        run_bind (ber_write_length len s) (\<lambda>_ s. Done () s))))"

definition ber_contextual :: "byte \<Rightarrow> bool \<Rightarrow> byte" where
  "ber_contextual tag pc = (0x80 OR BER_PC pc) OR (0x1F AND tag)"

definition ber_read_contextual_tag :: "byte \<Rightarrow> bool \<Rightarrow> wStream \<Rightarrow> (nat, wStream) outcome" where
  "ber_read_contextual_tag tag pc s =
     run_bind (Stream_GetRemainingLength s) (\<lambda>left s.
       if left < 1 then Fail s
       else
         run_bind (stream_read_u8 s True) (\<lambda>byte s.
           if byte \<noteq> ber_contextual tag pc then run_bind (Stream_Rewind s 1) (\<lambda>_ s. Fail s)
           else ber_read_length s))"

definition ber_write_contextual_tag :: "byte \<Rightarrow> nat \<Rightarrow> bool \<Rightarrow> wStream \<Rightarrow> (nat, wStream) outcome" where
  "ber_write_contextual_tag tag len pc s =
     run_bind (assert_capacity 1 s) (\<lambda>_ s.
     run_bind (Stream_Write_UINT8 s (unat (ber_contextual tag pc))) (\<lambda>_ s.
     run_bind (ber_write_length len s) (\<lambda>n s. Done (1 + n) s)))"

definition ber_sizeof_contextual_tag :: "nat \<Rightarrow> nat" where
  "ber_sizeof_contextual_tag len = 1 + ber_sizeof_length len"

definition ber_read_sequence_tag :: "wStream \<Rightarrow> (nat, wStream) outcome" where
  "ber_read_sequence_tag s =
     run_bind (Stream_CheckAndLogRequiredLength s 1) (\<lambda>_ s.
     run_bind (stream_read_u8 s True) (\<lambda>byte s.
       if byte \<noteq> (0x00 OR 0x20) OR 0x10 then Fail s else ber_read_length s))"

definition ber_write_sequence_tag :: "nat \<Rightarrow> wStream \<Rightarrow> (nat, wStream) outcome" where
  "ber_write_sequence_tag len s =
     run_bind (Stream_Write_UINT8 s (unat ((0x00 OR 0x20) OR (0x1F AND 0x10) :: byte))) (\<lambda>_ s.
     run_bind (ber_write_length len s) (\<lambda>n s. Done (1 + n) s))"

definition ber_sizeof_sequence :: "nat \<Rightarrow> nat" where
  "ber_sizeof_sequence len = size_add (1 + ber_sizeof_length len) len"

definition ber_sizeof_sequence_tag :: "nat \<Rightarrow> nat" where
  "ber_sizeof_sequence_tag len = 1 + ber_sizeof_length len"

definition ber_read_enumerated :: "byte \<Rightarrow> wStream \<Rightarrow> (byte, wStream) outcome" where
  "ber_read_enumerated cnt s =
     run_bind (ber_read_universal_tag 0x0A False s) (\<lambda>_ s.
     run_bind (ber_read_length s) (\<lambda>len s.
       if len \<noteq> 1 then Fail s
       else
         run_bind (Stream_CheckAndLogRequiredLength s 1) (\<lambda>_ s.
         run_bind (stream_read_u8 s True) (\<lambda>enumerated s.
           if unat enumerated + 1 > unat cnt then Fail s else Done enumerated s))))"

definition ber_write_enumerated :: "byte \<Rightarrow> wStream \<Rightarrow> (unit, wStream) outcome" where
  "ber_write_enumerated enumerated s =
     run_bind (ber_write_universal_tag 0x0A False s) (\<lambda>_ s.
     run_bind (ber_write_length 1 s) (\<lambda>_ s.
       Stream_Write_UINT8 s (unat enumerated)))"

definition ber_read_bit_string :: "wStream \<Rightarrow> (nat \<times> byte, wStream) outcome" where
  "ber_read_bit_string s =
     run_bind (ber_read_universal_tag 0x03 False s) (\<lambda>_ s.
     run_bind (ber_read_length s) (\<lambda>len s.
     run_bind (Stream_CheckAndLogRequiredLength s 1) (\<lambda>_ s.
     run_bind (stream_read_u8 s True) (\<lambda>padding s. Done (len, padding) s))))"

definition ber_write_octet_string :: "byte list \<Rightarrow> wStream \<Rightarrow> (nat, wStream) outcome" where
  "ber_write_octet_string oct_str s =
     run_bind (ber_write_universal_tag 0x04 False s) (\<lambda>n s.
     run_bind (ber_write_length (length oct_str) s) (\<lambda>k s.
     run_bind (Stream_Write s oct_str) (\<lambda>_ s. Done (size_add (n + k) (length oct_str)) s)))"

definition ber_sizeof_octet_string :: "nat \<Rightarrow> nat" where
  "ber_sizeof_octet_string len = size_add (1 + ber_sizeof_length len) len"

definition ber_write_contextual_octet_string ::
    "byte \<Rightarrow> byte list \<Rightarrow> wStream \<Rightarrow> (nat, wStream) outcome" where
  "ber_write_contextual_octet_string tag oct_str s =
     run_bind (ber_write_contextual_tag tag (ber_sizeof_octet_string (length oct_str)) True s) (\<lambda>ret s.
       if ret = 0 then Done 0 s
       else
         run_bind (ber_write_octet_string oct_str s) (\<lambda>r s.
           if r = 0 then Done 0 s else Done (size_add ret r) s))"

definition ber_read_octet_string_tag :: "wStream \<Rightarrow> (nat, wStream) outcome" where
  "ber_read_octet_string_tag s =
     run_bind (ber_read_universal_tag 0x04 False s) (\<lambda>_ s. ber_read_length s)"

text \<open>The block is allocated with two bytes more than the string, and terminated at \<open>length / 2\<close>.\<close>

definition ber_read_unicode_octet_string :: "allocator \<Rightarrow> wStream \<Rightarrow> (byte list, wStream) outcome" where
  "ber_read_unicode_octet_string A s =
     run_bind (ber_read_octet_string_tag s) (\<lambda>len s.
     run_bind (Stream_CheckAndLogRequiredLength s len) (\<lambda>_ s.
       case c_calloc A (size_add len 2) of
         None \<Rightarrow> Fail s
       | Some ret \<Rightarrow>
           run_bind (Stream_Peek s len) (\<lambda>d s.
             case Option.bind (mem_write ret 0 d) (\<lambda>ret. mem_write ret (len div 2 * 2) [0, 0]) of
               None \<Rightarrow> Abort
             | Some ret \<Rightarrow> run_bind (Stream_Seek s len) (\<lambda>_ s. Done ret s))))"

definition ber_read_octet_string :: "allocator \<Rightarrow> wStream \<Rightarrow> (byte list, wStream) outcome" where
  "ber_read_octet_string A s =
     run_bind (ber_read_octet_string_tag s) (\<lambda>len s.
     run_bind (Stream_CheckAndLogRequiredLength s len) (\<lambda>_ s.
       case c_malloc A len of
         None \<Rightarrow> Fail s
       | Some ret \<Rightarrow>
           run_bind (Stream_Read s len) (\<lambda>d s.
             case mem_write ret 0 d of None \<Rightarrow> Abort | Some ret \<Rightarrow> Done ret s)))"

definition ber_write_octet_string_tag :: "nat \<Rightarrow> wStream \<Rightarrow> (nat, wStream) outcome" where
  "ber_write_octet_string_tag len s =
     run_bind (ber_write_universal_tag 0x04 False s) (\<lambda>n s.
       if n = 0 then Done 0 s
       else
         run_bind (ber_write_length len s) (\<lambda>n s.
           if n = 0 then Done 0 s else Done (1 + ber_sizeof_length len) s))"

definition ber_sizeof_contextual_octet_string :: "nat \<Rightarrow> nat" where
  "ber_sizeof_contextual_octet_string len =
     (let ret = ber_sizeof_octet_string len in size_add (ber_sizeof_contextual_tag ret) ret)"

definition ber_read_BOOL :: "wStream \<Rightarrow> (bool, wStream) outcome" where
  "ber_read_BOOL s =
     run_bind (ber_read_universal_tag 0x01 False s) (\<lambda>_ s.
     run_bind (ber_read_length s) (\<lambda>len s.
       if len \<noteq> 1 then Fail s
       else
         run_bind (Stream_CheckAndLogRequiredLength s 1) (\<lambda>_ s.
         run_bind (stream_read_u8 s True) (\<lambda>v s. Done (v \<noteq> 0) s))))"

text \<open>
  A \<open>BOOL\<close> is taken to be \<open>TRUE\<close> or \<open>FALSE\<close>; the writer compares with \<open>TRUE\<close>, so another non-zero
  integer would be written as false.
\<close>

definition ber_write_BOOL :: "bool \<Rightarrow> wStream \<Rightarrow> (unit, wStream) outcome" where
  "ber_write_BOOL v s =
     run_bind (ber_write_universal_tag 0x01 False s) (\<lambda>_ s.
     run_bind (ber_write_length 1 s) (\<lambda>_ s.
       Stream_Write_UINT8 s (if v then 0xFF else 0)))"

definition ber_read_integer :: "bool \<Rightarrow> wStream \<Rightarrow> (u32, wStream) outcome" where
  "ber_read_integer want s =
     run_bind (ber_read_universal_tag 0x02 False s) (\<lambda>_ s.
     run_bind (ber_read_length s) (\<lambda>len s.
     run_bind (Stream_CheckAndLogRequiredLength s len) (\<lambda>_ s.
       if \<not> want then run_bind (Stream_SafeSeek s len) (\<lambda>_ s. Done 0 s)
       else if len = 1 then run_bind (stream_read_u8 s True) (\<lambda>v s. Done (ucast v) s)
       else if len = 2 then run_bind (stream_read_u16_be s True) (\<lambda>v s. Done (ucast v) s)
       else if len = 3 then
         run_bind (stream_read_u8 s True) (\<lambda>byte s.
         run_bind (stream_read_u16_be s True) (\<lambda>v s.
           Done (ucast v + (push_bit 16 (ucast byte) AND 0xFF0000)) s))
       else if len = 4 then stream_read_u32_be s True
       else Fail s)))"

text \<open>The tag and length in front of an integer; each of the two writes could report no bytes.\<close>

definition ber_write_integer_head :: "nat \<Rightarrow> nat \<Rightarrow> (wStream \<Rightarrow> (unit, wStream) outcome) \<Rightarrow>
    wStream \<Rightarrow> (nat, wStream) outcome" where
  "ber_write_integer_head len ret body s =
     run_bind (ber_write_universal_tag 0x02 False s) (\<lambda>n s.
       if n = 0 then Done 0 s
       else
         run_bind (ber_write_length len s) (\<lambda>n s.
           if n = 0 then Done 0 s else run_bind (body s) (\<lambda>_ s. Done ret s)))"

definition ber_write_integer :: "u32 \<Rightarrow> wStream \<Rightarrow> (nat, wStream) outcome" where
  "ber_write_integer v s =
     (if v < 0x80 then
        ber_write_integer_head 1 3 (\<lambda>s.
          run_bind (run_assert (unat v \<le> 0xFF) s) (\<lambda>_ s. Stream_Write_UINT8 s (unat v))) s
      else if v < 0x8000 then
        ber_write_integer_head 2 4 (\<lambda>s.
          run_bind (run_assert (unat v \<le> 0xFFFF) s) (\<lambda>_ s. Stream_Write_UINT16_BE s (unat v))) s
      else if v < 0x800000 then
        ber_write_integer_head 3 5 (\<lambda>s.
          run_bind (run_assert (unat (drop_bit 16 v) \<le> 0xFF) s) (\<lambda>_ s.
          run_bind (Stream_Write_UINT8 s (unat (drop_bit 16 v))) (\<lambda>_ s.
          run_bind (run_assert (unat v \<le> 0xFFFF) s) (\<lambda>_ s.
            Stream_Write_UINT16_BE s (unat v))))) s
      else if v < 0x80000000 then
        ber_write_integer_head 4 6 (\<lambda>s. Stream_Write_UINT32_BE s (unat v)) s
      else
        ber_write_integer_head 4 6 (\<lambda>s. Stream_Write_UINT32_BE s (unat v)) s)"

definition ber_sizeof_integer :: "u32 \<Rightarrow> nat" where
  "ber_sizeof_integer v =
     (if v < 0x80 then 3 else if v < 0x8000 then 4 else if v < 0x800000 then 5
      else if v < 0x80000000 then 6 else 6)"

text \<open>The capacity is made inside an assertion: a stream that cannot grow aborts.\<close>

definition ber_write_contextual_integer ::
    "allocator \<Rightarrow> byte \<Rightarrow> u32 \<Rightarrow> wStream \<Rightarrow> (nat, wStream) outcome" where
  "ber_write_contextual_integer A tag v s =
     (let len = ber_sizeof_integer v in
      run_bind (case Stream_EnsureRemainingCapacity A s (len + 5) of Fail t \<Rightarrow> Abort | r \<Rightarrow> r) (\<lambda>_ s.
      run_bind (ber_write_contextual_tag tag len True s) (\<lambda>n s.
      run_bind (ber_write_integer v s) (\<lambda>r s. if r = 0 then Done 0 s else Done (len + n) s))))"

definition ber_sizeof_contextual_integer :: "u32 \<Rightarrow> nat" where
  "ber_sizeof_contextual_integer v =
     (let intSize = ber_sizeof_integer v in ber_sizeof_contextual_tag intSize + intSize)"

definition ber_read_integer_length :: "wStream \<Rightarrow> (nat, wStream) outcome" where
  "ber_read_integer_length s =
     run_bind (ber_read_universal_tag 0x02 False s) (\<lambda>_ s. ber_read_length s)"

section \<open>Safety of the readers\<close>

lemma ber_read_length_consumes [safe_intros]: "consumes r ber_read_length (\<lambda>len. len \<le> 0xFFFF) 0"
  unfolding ber_read_length_def [abs_def] Let_def
  by (rule safe_intros | (simp; fail) | (rule le_trans [OF unat_u8_le]; simp; fail) | (simp add: unat_bounds; fail))+

lemma ber_read_universal_tag_consumes [safe_intros]:
  "consumes r (ber_read_universal_tag tag pc) (\<lambda>_. True) (r - 1)"
  unfolding ber_read_universal_tag_def [abs_def]
  by (rule safe_intros consumes_ends | (simp; fail))+

lemma ber_read_application_tag_consumes [safe_intros]:
  "consumes r (ber_read_application_tag tag) (\<lambda>len. len \<le> 0xFFFF) 0"
  unfolding ber_read_application_tag_def [abs_def]
  by (rule safe_intros consumes_ends | (simp; fail))+

lemma ber_read_sequence_tag_consumes [safe_intros]:
  "consumes r ber_read_sequence_tag (\<lambda>len. len \<le> 0xFFFF) 0"
  unfolding ber_read_sequence_tag_def [abs_def]
  by (rule safe_intros consumes_ends | (simp; fail))+

lemma ber_read_octet_string_tag_consumes [safe_intros]:
  "consumes r ber_read_octet_string_tag (\<lambda>len. len \<le> 0xFFFF) 0"
  unfolding ber_read_octet_string_tag_def [abs_def]
  by (rule safe_intros consumes_ends | (simp; fail))+

lemma ber_read_integer_length_consumes [safe_intros]:
  "consumes r ber_read_integer_length (\<lambda>len. len \<le> 0xFFFF) 0"
  unfolding ber_read_integer_length_def [abs_def]
  by (rule safe_intros consumes_ends | (simp; fail))+

lemma ber_read_enumerated_consumes [safe_intros]:
  "consumes r (ber_read_enumerated cnt) (\<lambda>e. e < cnt) 0"
  unfolding ber_read_enumerated_def [abs_def]
  by (rule safe_intros consumes_ends | (simp add: word_less_nat_alt; fail))+

lemma ber_read_bit_string_consumes [safe_intros]:
  "consumes r ber_read_bit_string (\<lambda>(len, _). len \<le> 0xFFFF) 0"
  unfolding ber_read_bit_string_def [abs_def]
  by (rule safe_intros consumes_ends | (simp; fail))+

lemma ber_read_BOOL_consumes [safe_intros]: "consumes r ber_read_BOOL (\<lambda>_. True) 0"
  unfolding ber_read_BOOL_def [abs_def]
  by (rule safe_intros consumes_ends | (simp; fail))+

lemma ber_read_integer_consumes [safe_intros]: "consumes r (ber_read_integer want) (\<lambda>_. True) 0"
  unfolding ber_read_integer_def [abs_def] Stream_SafeSeek_def
  by (rule safe_intros consumes_ends | (simp; fail))+

text \<open>A block of the length asked for takes the bytes read, and holds nothing else.\<close>

lemma mem_write_whole: "length d = length ret \<Longrightarrow> mem_write ret 0 d = Some d"
  by (simp add: mem_write_def)

lemma consumes_Read_into:
  assumes "length ret = n" "n \<le> r" "\<And>d. length d = n \<Longrightarrow> P d"
  shows "consumes r (\<lambda>s. run_bind (Stream_Read s n) (\<lambda>d s.
    case mem_write ret 0 d of None \<Rightarrow> Abort | Some ret \<Rightarrow> Done ret s)) P 0"
  by (rule consumes_bind [OF consumes_Read [OF assms(2)]])
    (simp add: mem_write_whole assms(1,3) consumes_done)

lemma ber_read_octet_string_consumes [safe_intros]:
  "consumes r (ber_read_octet_string A) (\<lambda>d. length d \<le> 0xFFFF) 0"
  unfolding ber_read_octet_string_def [abs_def]
  by (rule consumes_Read_into safe_intros | (simp; fail) | (drule c_malloc_length; simp; fail))+

lemma terminate_fits:
  assumes "length ret = len + 2" "length d = len"
  shows "\<exists>r1 r2. mem_write ret 0 d = Some r1 \<and> mem_write r1 (len div 2 * 2) [0, 0] = Some r2 \<and> length r2 = len + 2"
proof -
  have "len div 2 * 2 \<le> len" by simp
  then show ?thesis using assms by (simp add: mem_write_def)
qed

lemma ber_read_unicode_octet_string_consumes [safe_intros]:
  "consumes r (ber_read_unicode_octet_string A) (\<lambda>d. length d \<le> 0xFFFF + 2) 0"
  unfolding ber_read_unicode_octet_string_def [abs_def]
proof (rule consumes_bind [OF ber_read_octet_string_tag_consumes], rule consumes_bind [OF consumes_check],
    rule consumes_option)
  fix len ret assume len: "len \<le> 0xFFFF" and ret: "c_calloc A (size_add len 2) = Some ret"
  have "length ret = len + 2"
    using c_calloc_length [OF ret] len by simp
  then show "consumes (max 0 len) (\<lambda>s. run_bind (Stream_Peek s len) (\<lambda>d s.
      case Option.bind (mem_write ret 0 d) (\<lambda>ret. mem_write ret (len div 2 * 2) [0, 0]) of
        None \<Rightarrow> Abort
      | Some ret \<Rightarrow> run_bind (Stream_Seek s len) (\<lambda>_ s. Done ret s))) (\<lambda>d. length d \<le> 0xFFFF + 2) 0"
  proof (intro consumes_bind [OF consumes_Peek])
    fix d :: "byte list" assume "length d = len"
    with terminate_fits [OF \<open>length ret = len + 2\<close> this] len
    show "consumes (max 0 len) (\<lambda>s.
      case Option.bind (mem_write ret 0 d) (\<lambda>ret. mem_write ret (len div 2 * 2) [0, 0]) of
        None \<Rightarrow> Abort
      | Some ret \<Rightarrow> run_bind (Stream_Seek s len) (\<lambda>_ s. Done ret s)) (\<lambda>d. length d \<le> 0xFFFF + 2) 0"
      by (elim exE conjE) (simp only: bind.bind_lunit option.case,
        (rule safe_intros consumes_ends | (simp; fail))+)
  qed simp
qed (rule safe_intros)

lemma ber_read_contextual_tag_consumes [safe_intros]:
  "consumes r (ber_read_contextual_tag tag pc) (\<lambda>len. len \<le> 0xFFFF) 0"
proof (rule consumesI)
  fix s assume s: "readable s" "r \<le> length (rest s)"
  have len: "Stream_GetRemainingLength s = Done (length (rest s)) s"
    using s(1) by simp
  show "safe_run (reads_from s) (\<lambda>a t. a \<le> 0xFFFF \<and> 0 \<le> length (rest t)) (ber_read_contextual_tag tag pc s)"
  proof (cases "rest s")
    case Nil
    then show ?thesis using s len by (simp add: ber_read_contextual_tag_def reads_from_refl)
  next
    case (Cons b bs)
    have rd: "stream_read_u8 s True = Done b (advance 1 s)" using s(1) Cons by simp
    show ?thesis
    proof (cases "b = ber_contextual tag pc")
      case False
      have "Stream_Rewind (advance 1 s) 1 = Done () s"
        by (simp add: Stream_Rewind_def advance_def)
      then show ?thesis
        using False len rd Cons s(1) by (simp add: ber_read_contextual_tag_def reads_from_refl)
    next
      case True
      have from1: "readable (advance 1 s)" "reads_from s (advance 1 s)"
        using s(1) Cons by (simp_all add: reads_from_advance)
      have "safe_run (reads_from (advance 1 s)) (\<lambda>a _. a \<le> 0xFFFF) (ber_read_length (advance 1 s))"
        by (rule consumes_run [OF ber_read_length_consumes from1(1)])
      then have "safe_run (reads_from s) (\<lambda>a _. a \<le> 0xFFFF) (ber_read_length (advance 1 s))"
        by (auto simp: safe_run_def split: outcome.splits intro: reads_from_trans [OF from1(2)])
      then show ?thesis
        using True len rd Cons by (simp add: ber_read_contextual_tag_def)
    qed
  qed
qed

section \<open>The bytes written\<close>

definition ber_length_bytes :: "nat \<Rightarrow> byte list" where
  "ber_length_bytes len =
     (if len > 0xFF then 0x82 # winpr_Data_Write_UINT16_BE (of_nat len)
      else if len > 0x7F then [0x81, of_nat len]
      else [of_nat len])"

lemma length_ber_length_bytes: "length (ber_length_bytes len) = ber_sizeof_length len"
  by (simp add: ber_length_bytes_def ber_sizeof_length_def)

lemma ber_write_length_writes:
  assumes "len \<le> 0xFFFF"
  shows "writes_as (ber_sizeof_length len) (ber_write_length len) (ber_length_bytes len)"
proof -
  have [simp]: "(0x80 XOR 2 :: byte) = 0x82" "(0x80 XOR 1 :: byte) = 0x81" by simp_all
  note rules = writes_as_assert writes_as_capacity writes_as_seq [OF writes_as_byte] writes_as_done
    writes_as_seq [OF writes_as_UINT16_BE] writes_as_seq [OF writes_as_UINT8]
  consider "len > 0xFF" | "\<not> len > 0xFF" "len > 0x7F" | "\<not> len > 0xFF" "\<not> len > 0x7F" by linarith
  then show ?thesis
  proof cases
    case 1
    then show ?thesis
      using assms unfolding ber_write_length_def [abs_def] ber_length_bytes_def ber_sizeof_length_def
      by (simp only: if_True) (rule rules | (simp; fail))+
  next
    case 2
    then show ?thesis
      unfolding ber_write_length_def [abs_def] ber_length_bytes_def ber_sizeof_length_def
      by (simp only: if_True if_False) (rule rules | (simp; fail))+
  next
    case 3
    then show ?thesis
      unfolding ber_write_length_def [abs_def] ber_length_bytes_def ber_sizeof_length_def
      by (simp only: if_True if_False) (rule rules | (simp; fail))+
  qed
qed

lemmas ber_writes = writes_as_assert writes_as_capacity writes_as_seq [OF writes_as_byte]
  writes_as_seq [OF writes_as_UINT16_BE] writes_as_seq [OF writes_as_UINT8]
  writes_as_seq [OF writes_as_UINT32_BE] writes_as_seq [OF writes_as_Write]
  writes_as_byte writes_as_done

lemma ber_write_universal_tag_writes:
  "writes_as 1 (ber_write_universal_tag tag pc) [ber_universal tag pc]"
  unfolding ber_write_universal_tag_def [abs_def] by (rule ber_writes | (simp; fail))+

definition ber_application :: "byte \<Rightarrow> byte list" where
  "ber_application tag =
     (if tag > 30 then [0x7F, tag] else [(0x40 OR 0x20) OR (0x1F AND tag)])"

lemma ber_write_application_tag_writes:
  assumes "len \<le> 0xFFFF"
  shows "writes_as () (ber_write_application_tag tag len) (ber_application tag @ ber_length_bytes len)"
proof -
  have "((0x40 OR 0x20) OR 0x1F :: byte) = 0x7F" by simp
  then show ?thesis
    unfolding ber_write_application_tag_def [abs_def] ber_application_def
    by (cases "tag > 30"; simp only: if_True if_False)
      (rule ber_writes writes_as_seq [OF ber_write_length_writes [OF assms]] | (simp; fail))+
qed

lemma ber_write_contextual_tag_writes:
  assumes "len \<le> 0xFFFF"
  shows "writes_as (ber_sizeof_contextual_tag len) (ber_write_contextual_tag tag len pc)
    (ber_contextual tag pc # ber_length_bytes len)"
  unfolding ber_write_contextual_tag_def [abs_def] ber_sizeof_contextual_tag_def
  by (rule ber_writes writes_as_seq [OF ber_write_length_writes [OF assms]] | (simp; fail))+

lemma ber_write_sequence_tag_writes:
  assumes "len \<le> 0xFFFF"
  shows "writes_as (ber_sizeof_sequence_tag len) (ber_write_sequence_tag len) (0x30 # ber_length_bytes len)"
proof -
  have "((0x00 OR 0x20) OR (0x1F AND 0x10) :: byte) = 0x30" by simp
  then show ?thesis
    unfolding ber_write_sequence_tag_def [abs_def] ber_sizeof_sequence_tag_def
    by (simp only:) (rule ber_writes writes_as_seq [OF ber_write_length_writes [OF assms]] | (simp; fail))+
qed

lemma ber_write_enumerated_writes:
  "writes_as () (ber_write_enumerated e) (ber_universal 0x0A False # 1 # [e])"
proof -
  have "ber_length_bytes 1 = [1]" by (simp add: ber_length_bytes_def)
  then show ?thesis
    unfolding ber_write_enumerated_def [abs_def]
    by - (rule ber_writes writes_as_seq [OF ber_write_universal_tag_writes]
        writes_as_seq [OF ber_write_length_writes] | (simp; fail))+
qed

lemma ber_write_BOOL_writes:
  "writes_as () (ber_write_BOOL v) (ber_universal 0x01 False # 1 # [if v then 0xFF else 0])"
proof -
  have "ber_length_bytes 1 = [1]" by (simp add: ber_length_bytes_def)
  moreover have "writes_as () (\<lambda>s. Stream_Write_UINT8 s (if v then 0xFF else 0)) [if v then 0xFF else 0]"
    using writes_as_byte [of "if v then 0xFF else 0"] by (cases v) simp_all
  ultimately show ?thesis
    unfolding ber_write_BOOL_def [abs_def]
    by - (rule writes_as_seq [OF ber_write_universal_tag_writes]
        writes_as_seq [OF ber_write_length_writes] | assumption | (simp; fail))+
qed

definition ber_octet_bytes :: "byte list \<Rightarrow> byte list" where
  "ber_octet_bytes bs = ber_universal 0x04 False # ber_length_bytes (length bs) @ bs"

lemma length_ber_octet_bytes:
  "length bs \<le> 0xFFFF \<Longrightarrow> length (ber_octet_bytes bs) = ber_sizeof_octet_string (length bs)"
  by (simp add: ber_octet_bytes_def length_ber_length_bytes ber_sizeof_octet_string_def ber_sizeof_length_def)

lemma ber_write_octet_string_writes:
  assumes "length bs \<le> 0xFFFF"
  shows "writes_as (ber_sizeof_octet_string (length bs)) (ber_write_octet_string bs) (ber_octet_bytes bs)"
  unfolding ber_write_octet_string_def [abs_def] ber_octet_bytes_def ber_sizeof_octet_string_def
  by (rule ber_writes writes_as_seq [OF ber_write_universal_tag_writes]
      writes_as_seq [OF ber_write_length_writes [OF assms]] | (simp; fail))+

lemma ber_write_octet_string_tag_writes:
  assumes "len \<le> 0xFFFF"
  shows "writes_as (1 + ber_sizeof_length len) (ber_write_octet_string_tag len)
    (ber_universal 0x04 False # ber_length_bytes len)"
proof -
  have nz: "ber_sizeof_length len \<noteq> 0" "(1 :: nat) \<noteq> 0" by (simp_all add: ber_sizeof_length_def)
  show ?thesis
    unfolding ber_write_octet_string_tag_def [abs_def]
    by (rule writes_as_seq [OF ber_write_universal_tag_writes], simp only: nz if_False,
        rule writes_as_seq [OF ber_write_length_writes [OF assms]], simp only: nz if_False,
        rule writes_as_done) simp_all
qed

lemma ber_write_contextual_octet_string_writes:
  assumes "length bs + 4 \<le> 0xFFFF"
  shows "writes_as (ber_sizeof_contextual_octet_string (length bs)) (ber_write_contextual_octet_string tag bs)
    (ber_contextual tag True # ber_length_bytes (length (ber_octet_bytes bs)) @ ber_octet_bytes bs)"
proof -
  have len: "ber_sizeof_octet_string (length bs) \<le> 0xFFFF" "length bs \<le> 0xFFFF"
    using assms by (simp_all add: ber_sizeof_octet_string_def ber_sizeof_length_def)
  have nz: "ber_sizeof_contextual_tag n \<noteq> 0" "ber_sizeof_octet_string (length bs) \<noteq> 0" for n
    using assms by (simp_all add: ber_sizeof_contextual_tag_def ber_sizeof_octet_string_def ber_sizeof_length_def)
  note oct = ber_write_octet_string_writes [OF len(2)]
  show ?thesis
    unfolding ber_write_contextual_octet_string_def [abs_def] length_ber_octet_bytes [OF len(2)]
      ber_sizeof_contextual_octet_string_def Let_def
    by (rule writes_as_seq [OF ber_write_contextual_tag_writes [OF len(1)]], simp only: nz if_False,
        rule writes_as_seq [OF oct], simp only: nz if_False, rule writes_as_done) simp_all
qed

text \<open>
  The bytes of an integer. Between 65536 and 8388607 the value is cast to \<open>UINT16\<close> under an
  assertion that it fits, so nothing is written.
\<close>

definition ber_integer_fits :: "u32 \<Rightarrow> bool" where
  "ber_integer_fits v \<longleftrightarrow> v \<le> 0xFFFF \<or> v \<ge> 0x800000"

definition ber_integer_bytes :: "u32 \<Rightarrow> byte list" where
  "ber_integer_bytes v = ber_universal 0x02 False #
     (if v < 0x80 then [1, ucast v]
      else if v < 0x8000 then 2 # winpr_Data_Write_UINT16_BE (ucast v)
      else if v < 0x800000 then 3 # 0 # winpr_Data_Write_UINT16_BE (ucast v)
      else 4 # winpr_Data_Write_UINT32_BE v)"

lemma ber_write_integer_head_writes:
  assumes "writes_as () body bs" "len \<le> 0x7F"
  shows "writes_as ret (ber_write_integer_head len ret body) (ber_universal 0x02 False # of_nat len # bs)"
proof -
  have len: "ber_length_bytes len = [of_nat len]" "ber_sizeof_length len = 1"
    using assms(2) by (simp_all add: ber_length_bytes_def ber_sizeof_length_def)
  show ?thesis
    unfolding ber_write_integer_head_def [abs_def]
    by (rule writes_as_seq [OF ber_write_universal_tag_writes], simp,
        rule writes_as_seq [OF ber_write_length_writes], use assms(2) in simp, simp add: len,
        rule writes_as_seq [OF assms(1)], rule writes_as_done) (simp_all add: len)
qed

lemma ber_write_integer_writes:
  assumes "ber_integer_fits v"
  shows "writes_as (ber_sizeof_integer v) (ber_write_integer v) (ber_integer_bytes v)"
proof -
  have b16: "writes_as () (\<lambda>s. run_bind (run_assert (unat v \<le> 0xFFFF) s) (\<lambda>_ s. Stream_Write_UINT16_BE s (unat v)))
      (winpr_Data_Write_UINT16_BE (ucast v))" if "v \<le> 0xFFFF"
    using writes_as_UINT16_BE [of "unat v"] that
    by (intro writes_as_assert) (simp_all add: word_le_nat_alt word_of_nat_unat)
  have b8: "writes_as () (\<lambda>s. run_bind (run_assert (unat v \<le> 0xFF) s) (\<lambda>_ s. Stream_Write_UINT8 s (unat v)))
      [ucast v]" if "v < 0x80"
    using writes_as_UINT8 [of "unat v"] that
    by (intro writes_as_assert) (simp_all add: word_less_nat_alt word_of_nat_unat)
  have b24: "writes_as () (\<lambda>s. run_bind (run_assert (unat (drop_bit 16 v) \<le> 0xFF) s) (\<lambda>_ s.
      run_bind (Stream_Write_UINT8 s (unat (drop_bit 16 v))) (\<lambda>_ s.
      run_bind (run_assert (unat v \<le> 0xFFFF) s) (\<lambda>_ s. Stream_Write_UINT16_BE s (unat v)))))
      (0 # winpr_Data_Write_UINT16_BE (ucast v))" if "v \<le> 0xFFFF"
  proof -
    have "unat (drop_bit 16 v) = 0"
      using that by (simp add: drop_bit_eq_div unat_div word_le_nat_alt)
    then show ?thesis
      using writes_as_seq [OF writes_as_UINT8 [of 0] b16 [OF that]]
      by (intro writes_as_assert) simp_all
  qed
  show ?thesis
    using assms ber_write_integer_head_writes [OF b8, of 1 3] ber_write_integer_head_writes [OF b16, of 2 4]
      ber_write_integer_head_writes [OF b24, of 3 5] ber_write_integer_head_writes [OF writes_as_UINT32_BE, of 4 6 v]
    by (auto simp: ber_write_integer_def [abs_def] ber_integer_bytes_def ber_sizeof_integer_def ber_integer_fits_def
        word_less_nat_alt word_le_nat_alt)
qed

lemma stream_write_not_Fail: "Stream_Write_UINT8 s v \<noteq> Fail t"
  by (auto simp: Stream_Write_UINT8_def stream_store_def Stream_GetRemainingCapacity_def run_bind_eq_Fail
      run_assert_def split: option.splits if_splits)

lemma ber_head_results:
  "ber_write_universal_tag tag pc s = Done n t \<Longrightarrow> n = 1"
  "ber_write_universal_tag tag pc s \<noteq> Fail t"
  "len \<le> 0x7F \<Longrightarrow> ber_write_length len s = Done n t \<Longrightarrow> n = 1"
  "len \<le> 0x7F \<Longrightarrow> ber_write_length len s \<noteq> Fail t"
  by (auto simp: ber_write_universal_tag_def ber_write_length_def run_bind_eq_Done run_bind_eq_Fail
      stream_write_not_Fail assert_capacity_def run_assert_def Stream_GetRemainingCapacity_def split: if_splits)

lemma ber_write_integer_aborts:
  assumes "0xFFFF < v" "v < 0x800000"
  shows "ber_write_integer v s = Abort"
proof -
  have v: "\<not> v < 0x80" "\<not> v < 0x8000" "\<not> unat v \<le> 0xFFFF"
    using assms(1) by (simp_all add: word_less_nat_alt)
  define body where "body = (\<lambda>s. run_bind (run_assert (unat (drop_bit 16 v) \<le> 0xFF) s) (\<lambda>_ s.
          run_bind (Stream_Write_UINT8 s (unat (drop_bit 16 v))) (\<lambda>_ s.
          run_bind (run_assert (unat v \<le> 0xFFFF) s) (\<lambda>_ s. Stream_Write_UINT16_BE s (unat v)))))"
  have "body s \<noteq> Done u t" "body s \<noteq> Fail t" for s u t
    using v(3) unfolding body_def
    by (auto simp: run_bind_eq_Done run_bind_eq_Fail run_assert_def stream_write_not_Fail split: if_splits)
  then have body: "body s = Abort" for s by (cases "body s") blast+
  have "ber_write_integer v s = ber_write_integer_head 3 5 body s"
    using v(1,2) assms(2) by (simp add: ber_write_integer_def body_def)
  also have "\<dots> = Abort"
  proof (cases "ber_write_universal_tag 0x02 False s")
    case tag: (Done n s1)
    show ?thesis
    proof (cases "ber_write_length 3 s1")
      case (Done k s2)
      then show ?thesis
        using tag ber_head_results(1) [OF tag] ber_head_results(3) [OF _ Done] body
        by (simp add: ber_write_integer_head_def)
    qed (use tag ber_head_results(1) [OF tag] ber_head_results(4) [of 3 s1] in
        \<open>simp_all add: ber_write_integer_head_def\<close>)
  qed (use ber_head_results(2) in \<open>simp_all add: ber_write_integer_head_def\<close>)
  finally show ?thesis .
qed

section \<open>Reading back\<close>

lemma writes_as_void: "writes_as v w bs \<Longrightarrow> writes (\<lambda>s. run_bind (w s) (\<lambda>_ s. Done () s)) bs"
  by (simp add: writes_as_def writes_def)

lemma ber_read_length_bytes:
  assumes "len \<le> 0xFFFF" "readable s" "rest s = ber_length_bytes len @ bs"
  shows "ber_read_length s = Done len (advance (length (ber_length_bytes len)) s)"
proof -
  consider "len > 0xFF" | "\<not> len > 0xFF" "len > 0x7F" | "\<not> len > 0xFF" "\<not> len > 0x7F" by linarith
  then show ?thesis
  proof cases
    case 1
    then have "rest s = 0x82 # winpr_Data_Write_UINT16_BE (of_nat len) @ bs" "unat (of_nat len :: u16) = len"
      using assms by (simp_all add: ber_length_bytes_def unat_of_nat take_bit_nat_eq_self)
    then show ?thesis
      using 1 assms(2)
      by (simp add: ber_read_length_def read_u16_be_append ber_length_bytes_def numeral_3_eq_3)
  next
    case 2
    then have "rest s = 0x81 # of_nat len # bs" "unat (of_nat len :: byte) = len"
      using assms by (simp_all add: ber_length_bytes_def unat_of_nat take_bit_nat_eq_self)
    then show ?thesis
      using 2 assms(2) by (simp add: ber_read_length_def ber_length_bytes_def)
  next
    case 3
    then have r: "rest s = of_nat len # bs" "unat (of_nat len :: byte) = len"
      using assms by (simp_all add: ber_length_bytes_def unat_of_nat take_bit_nat_eq_self)
    then have "(of_nat len :: byte) AND 0x80 = 0"
      using 3 by (simp add: and_80_zero bit7_ge)
    then show ?thesis
      using 3 assms(2) r by (simp add: ber_read_length_def ber_length_bytes_def)
  qed
qed

lemma ber_read_universal_tag_bytes:
  "readable s \<Longrightarrow> rest s = ber_universal tag pc # bs \<Longrightarrow> ber_read_universal_tag tag pc s = Done () (advance 1 s)"
  by (simp add: ber_read_universal_tag_def)

interpretation ber_len: wire_codec "\<lambda>len s. run_bind (ber_write_length len s) (\<lambda>_ s. Done () s)"
    ber_read_length ber_length_bytes "\<lambda>len. len \<le> 0xFFFF"
  by unfold_locales (rule writes_as_void [OF ber_write_length_writes] ber_read_length_bytes; assumption)+

interpretation ber_app: wire_codec "\<lambda>len s. ber_write_application_tag tag len s" "ber_read_application_tag tag"
    "\<lambda>len. ber_application tag @ ber_length_bytes len" "\<lambda>len. len \<le> 0xFFFF" for tag
proof
  fix len :: nat assume len: "len \<le> 0xFFFF"
  then show "writes (ber_write_application_tag tag len) (ber_application tag @ ber_length_bytes len)"
    using ber_write_application_tag_writes by (simp add: writes_as_unit)
  fix s bs
  assume s: "readable s" "rest s = (ber_application tag @ ber_length_bytes len) @ bs"
  then have "ber_read_length (advance (length (ber_application tag)) s) =
      Done len (advance (length (ber_length_bytes len)) (advance (length (ber_application tag)) s))"
    using len by (intro ber_read_length_bytes) simp_all
  then show "ber_read_application_tag tag s =
      Done len (advance (length (ber_application tag @ ber_length_bytes len)) s)"
    using s by (simp add: ber_read_application_tag_def ber_application_def numeral_2_eq_2 split: if_splits)
qed

interpretation ber_seq: wire_codec "\<lambda>len s. run_bind (ber_write_sequence_tag len s) (\<lambda>_ s. Done () s)"
    ber_read_sequence_tag "\<lambda>len. 0x30 # ber_length_bytes len" "\<lambda>len. len \<le> 0xFFFF"
proof
  fix len :: nat assume len: "len \<le> 0xFFFF"
  then show "writes (\<lambda>s. run_bind (ber_write_sequence_tag len s) (\<lambda>_ s. Done () s)) (0x30 # ber_length_bytes len)"
    by (intro writes_as_void [OF ber_write_sequence_tag_writes])
  fix s bs
  assume s: "readable s" "rest s = (0x30 # ber_length_bytes len) @ bs"
  then have "ber_read_length (advance 1 s) = Done len (advance (length (ber_length_bytes len)) (advance 1 s))"
    using len by (intro ber_read_length_bytes) simp_all
  then show "ber_read_sequence_tag s = Done len (advance (length (0x30 # ber_length_bytes len)) s)"
    using s by (simp add: ber_read_sequence_tag_def)
qed

interpretation ber_ctx: wire_codec
    "\<lambda>len s. run_bind (ber_write_contextual_tag tag len pc s) (\<lambda>_ s. Done () s)"
    "ber_read_contextual_tag tag pc" "\<lambda>len. ber_contextual tag pc # ber_length_bytes len" "\<lambda>len. len \<le> 0xFFFF"
  for tag pc
proof
  fix len :: nat assume len: "len \<le> 0xFFFF"
  then show "writes (\<lambda>s. run_bind (ber_write_contextual_tag tag len pc s) (\<lambda>_ s. Done () s))
      (ber_contextual tag pc # ber_length_bytes len)"
    by (intro writes_as_void [OF ber_write_contextual_tag_writes])
  fix s bs
  assume s: "readable s" "rest s = (ber_contextual tag pc # ber_length_bytes len) @ bs"
  then have "ber_read_length (advance 1 s) = Done len (advance (length (ber_length_bytes len)) (advance 1 s))"
    using len by (intro ber_read_length_bytes) simp_all
  then show "ber_read_contextual_tag tag pc s =
      Done len (advance (length (ber_contextual tag pc # ber_length_bytes len)) s)"
    using s by (simp add: ber_read_contextual_tag_def)
qed

lemma ber_length_1: "ber_length_bytes 1 = [1]"
  by (simp add: ber_length_bytes_def)

lemma ber_head_bytes:
  assumes "readable s" "rest s = ber_universal tag False # of_nat len # bs" "len \<le> 0x7F"
  shows "ber_read_universal_tag tag False s = Done () (advance 1 s)"
    "ber_read_length (advance 1 s) = Done len (advance 1 (advance 1 s))"
proof -
  have "ber_length_bytes len = [of_nat len]" using assms(3) by (simp add: ber_length_bytes_def)
  then show "ber_read_length (advance 1 s) = Done len (advance 1 (advance 1 s))"
    using ber_read_length_bytes [of len "advance 1 s" bs] assms by simp
  show "ber_read_universal_tag tag False s = Done () (advance 1 s)"
    using ber_read_universal_tag_bytes [OF assms(1,2)] by simp
qed

interpretation ber_bool: wire_codec ber_write_BOOL ber_read_BOOL
    "\<lambda>v. ber_universal 0x01 False # 1 # [if v then 0xFF else 0]" "\<lambda>_. True"
proof
  fix v
  show "writes (ber_write_BOOL v) (ber_universal 0x01 False # 1 # [if v then 0xFF else 0])"
    using ber_write_BOOL_writes by (simp add: writes_as_unit)
  fix s bs
  assume s: "readable s" "rest s = (ber_universal 0x01 False # 1 # [if v then 0xFF else 0]) @ bs"
  then show "ber_read_BOOL s = Done v (advance (length (ber_universal 0x01 False # 1 # [if v then 0xFF else 0])) s)"
    using ber_head_bytes [of s "0x01" 1 "(if v then 0xFF else 0) # bs"]
    by (cases v) (simp_all add: ber_read_BOOL_def)
qed

interpretation ber_enum: wire_codec ber_write_enumerated "ber_read_enumerated cnt"
    "\<lambda>e. ber_universal 0x0A False # 1 # [e]" "\<lambda>e. e < cnt" for cnt
proof
  fix e assume e: "e < cnt"
  show "writes (ber_write_enumerated e) (ber_universal 0x0A False # 1 # [e])"
    using ber_write_enumerated_writes by (simp add: writes_as_unit)
  fix s bs
  assume s: "readable s" "rest s = (ber_universal 0x0A False # 1 # [e]) @ bs"
  then show "ber_read_enumerated cnt s = Done e (advance (length (ber_universal 0x0A False # 1 # [e])) s)"
    using ber_head_bytes [of s "0x0A" 1 "e # bs"] e
    by (simp add: ber_read_enumerated_def word_less_nat_alt)
qed

interpretation ber_int: wire_codec "\<lambda>v s. run_bind (ber_write_integer v s) (\<lambda>_ s. Done () s)"
    "ber_read_integer True" ber_integer_bytes ber_integer_fits
proof
  fix v assume v: "ber_integer_fits v"
  then show "writes (\<lambda>s. run_bind (ber_write_integer v s) (\<lambda>_ s. Done () s)) (ber_integer_bytes v)"
    by (intro writes_as_void [OF ber_write_integer_writes])
  fix s bs
  assume s: "readable s" "rest s = ber_integer_bytes v @ bs"
  have cast: "v \<le> 0xFF \<Longrightarrow> ucast (ucast v :: byte) = v" "v \<le> 0xFFFF \<Longrightarrow> ucast (ucast v :: u16) = v"
    using unat_ucast_small [of v] by (simp_all add: word_unat_eq_iff)
  consider "v < 0x80" | "\<not> v < 0x80" "v < 0x8000" | "\<not> v < 0x80" "\<not> v < 0x8000" "v < 0x800000" "v \<le> 0xFFFF"
    | "\<not> v < 0x80" "\<not> v < 0x8000" "\<not> v < 0x800000"
    using v by (auto simp: ber_integer_fits_def word_less_nat_alt word_le_nat_alt)
  then show "ber_read_integer True s = Done v (advance (length (ber_integer_bytes v)) s)"
  proof cases
    case 1
    then have "ucast (ucast v :: byte) = v" by (intro cast) (simp add: word_less_nat_alt word_le_nat_alt)
    then show ?thesis
      using s 1 ber_head_bytes [of s "0x02" 1 "ucast v # bs"]
      by (simp add: ber_read_integer_def ber_integer_bytes_def)
  next
    case 2
    then have "ucast (ucast v :: u16) = v" by (intro cast) (simp add: word_less_nat_alt word_le_nat_alt)
    then show ?thesis
      using s 2 ber_head_bytes [of s "0x02" 2 "winpr_Data_Write_UINT16_BE (ucast v) @ bs"]
      by (simp add: ber_read_integer_def ber_integer_bytes_def read_u16_be_append)
        (simp add: eval_nat_numeral)
  next
    case 3
    then have "ucast (ucast v :: u16) = v" by (intro cast) simp
    then show ?thesis
      using s 3 ber_head_bytes [of s "0x02" 3 "0 # winpr_Data_Write_UINT16_BE (ucast v) @ bs"]
      by (simp add: ber_read_integer_def ber_integer_bytes_def read_u16_be_append)
        (simp add: eval_nat_numeral)
  next
    case 4
    then show ?thesis
      using s ber_head_bytes [of s "0x02" 4 "winpr_Data_Write_UINT32_BE v @ bs"]
      by (simp add: ber_read_integer_def ber_integer_bytes_def read_u32_be_append)
  qed
qed

lemma ber_octet_string_bytes:
  assumes "length bs \<le> 0xFFFF" "readable s" "rest s = ber_octet_bytes bs @ cs"
  shows "ber_read_octet_string A s =
    (if c_malloc A (length bs) = None then Fail (advance (length (ber_octet_bytes bs) - length bs) s)
     else Done bs (advance (length (ber_octet_bytes bs)) s))"
proof -
  let ?lb = "ber_length_bytes (length bs)"
  have "ber_read_universal_tag 0x04 False s = Done () (advance 1 s)"
    using assms(2,3) by (simp add: ber_read_universal_tag_bytes ber_octet_bytes_def)
  moreover have "ber_read_length (advance 1 s) = Done (length bs) (advance (length ?lb) (advance 1 s))"
    using assms by (intro ber_read_length_bytes [of _ _ "bs @ cs"]) (simp_all add: ber_octet_bytes_def)
  ultimately show ?thesis
    using assms(2,3) c_malloc_length [of A "length bs"]
    by (cases "c_malloc A (length bs)")
      (simp_all add: ber_read_octet_string_def ber_read_octet_string_tag_def ber_octet_bytes_def mem_write_whole)
qed

section \<open>Properties\<close>

text \<open>C7. Every BER reader is memory safe on every input: on any readable stream it does not abort and
  moves the position only forward within the stream's length, also where it fails. Lengths it
  returns have at most 16 bits, an enumerated value is below its count, and a string block is no
  longer than its length field allows.\<close>

theorem ber_readers_safe:
  assumes "readable s"
  shows "safe_run (reads_from s) (\<lambda>len _. len \<le> 0xFFFF) (ber_read_length s)
    \<and> safe_run (reads_from s) (\<lambda>_ _. True) (ber_read_universal_tag tag pc s)
    \<and> safe_run (reads_from s) (\<lambda>len _. len \<le> 0xFFFF) (ber_read_application_tag tag s)
    \<and> safe_run (reads_from s) (\<lambda>len _. len \<le> 0xFFFF) (ber_read_contextual_tag tag pc s)
    \<and> safe_run (reads_from s) (\<lambda>len _. len \<le> 0xFFFF) (ber_read_sequence_tag s)
    \<and> safe_run (reads_from s) (\<lambda>e _. e < cnt) (ber_read_enumerated cnt s)
    \<and> safe_run (reads_from s) (\<lambda>(len, _) _. len \<le> 0xFFFF) (ber_read_bit_string s)
    \<and> safe_run (reads_from s) (\<lambda>_ _. True) (ber_read_BOOL s)
    \<and> safe_run (reads_from s) (\<lambda>_ _. True) (ber_read_integer want s)
    \<and> safe_run (reads_from s) (\<lambda>len _. len \<le> 0xFFFF) (ber_read_integer_length s)
    \<and> safe_run (reads_from s) (\<lambda>d _. length d \<le> 0xFFFF) (ber_read_octet_string A s)
    \<and> safe_run (reads_from s) (\<lambda>d _. length d \<le> 0xFFFF + 2) (ber_read_unicode_octet_string A s)"
proof -
  have "(\<lambda>(len, _) _. len \<le> 0xFFFF) = (\<lambda>x _ :: wStream. (\<lambda>(len, _ :: byte). len \<le> (0xFFFF :: nat)) x)"
    by (simp add: fun_eq_iff split: prod.splits)
  then show ?thesis
    by (simp only:) (intro conjI; rule consumes_run [OF _ assms]; rule safe_intros)
qed

theorem ber_readers_safe_witness:
  "readable (Stream_StaticInit [0x0A, 1, 7] 3) \<and>
   safe_run (reads_from (Stream_StaticInit [0x0A, 1, 7] 3)) (\<lambda>e _. e < 5)
     (ber_read_enumerated 5 (Stream_StaticInit [0x0A, 1, 7] 3))"
proof -
  have "readable (Stream_StaticInit [0x0A, 1, 7] 3)"
    by (simp add: readable_def Stream_StaticInit_def wf_stream_def PTRDIFF_MAX_def)
  with ber_readers_safe [of "Stream_StaticInit [0x0A, 1, 7] 3"] show ?thesis by blast
qed

text \<open>C8. The BER encodings round-trip. With room for the encoding, writing a length, an application,
  contextual or sequence header, a boolean, an enumerated value or an integer and then reading from
  the old position gives the value back and ends exactly behind it.\<close>

theorem ber_round_trip:
  assumes "wf_stream s" "room 9 s" "len \<le> 0xFFFF" "e < cnt" "ber_integer_fits v"
  shows "(\<exists>t. run_bind (ber_write_length len s) (\<lambda>_ t. reread (pointer s) ber_read_length t) = Done len t
        \<and> pointer t = slength t)
    \<and> (\<exists>t. run_bind (ber_write_application_tag tag len s)
          (\<lambda>_ t. reread (pointer s) (ber_read_application_tag tag) t) = Done len t \<and> pointer t = slength t)
    \<and> (\<exists>t. run_bind (ber_write_contextual_tag tag len pc s)
          (\<lambda>_ t. reread (pointer s) (ber_read_contextual_tag tag pc) t) = Done len t \<and> pointer t = slength t)
    \<and> (\<exists>t. run_bind (ber_write_sequence_tag len s)
          (\<lambda>_ t. reread (pointer s) ber_read_sequence_tag t) = Done len t \<and> pointer t = slength t)
    \<and> (\<exists>t. run_bind (ber_write_BOOL b s) (\<lambda>_ t. reread (pointer s) ber_read_BOOL t) = Done b t
        \<and> pointer t = slength t)
    \<and> (\<exists>t. run_bind (ber_write_enumerated e s)
          (\<lambda>_ t. reread (pointer s) (ber_read_enumerated cnt) t) = Done e t \<and> pointer t = slength t)
    \<and> (\<exists>t. run_bind (ber_write_integer v s) (\<lambda>_ t. reread (pointer s) (ber_read_integer True) t) = Done v t
        \<and> pointer t = slength t)"
proof -
  have len: "length (ber_length_bytes len) \<le> 3"
    by (simp add: length_ber_length_bytes ber_sizeof_length_def)
  have app: "length (ber_application tag) \<le> 2" by (simp add: ber_application_def)
  have int: "length (ber_integer_bytes v) \<le> 6" by (simp add: ber_integer_bytes_def)
  have room: "n \<le> 9 \<Longrightarrow> room n s" for n using assms(2) by (rule room_mono)
  have ptr: "pointer (put bs s) = pointer s + length bs" for bs by (simp add: put_def)
  show ?thesis
    using ber_len.round_trip [OF assms(3,1) room] ber_app.round_trip [OF assms(3,1) room, of tag]
      ber_ctx.round_trip [OF assms(3,1) room, of tag pc] ber_seq.round_trip [OF assms(3,1) room]
      ber_bool.round_trip [OF _ assms(1) room, of b] ber_enum.round_trip [OF assms(4,1) room]
      ber_int.round_trip [OF assms(5,1) room] len app int ptr
    by (simp add: run_bind_assoc)
qed

theorem ber_round_trip_witness:
  "\<exists>t. run_bind (ber_write_integer 40000 (Stream_StaticInit (replicate 9 0) 9))
       (\<lambda>_ t. reread 0 (ber_read_integer True) t) = Done 40000 t \<and> pointer t = slength t"
proof -
  let ?s = "Stream_StaticInit (replicate 9 0) 9"
  have "wf_stream ?s" "room 9 ?s" "(0 :: nat) \<le> 0xFFFF" "(0 :: byte) < 1" "ber_integer_fits 40000" "pointer ?s = 0"
    by (simp_all add: Stream_StaticInit_def wf_stream_def PTRDIFF_MAX_def room_def ber_integer_fits_def)
  from ber_round_trip [OF this(1-5)] this(6) show ?thesis by simp
qed

text \<open>C26. The size functions are exact and the writers report them. With room for the encoding, every
  BER writer that returns a size puts exactly that many bytes, and it is the number the matching
  \<open>sizeof\<close> function announced.\<close>

theorem ber_sizeof_exact:
  assumes "wf_stream s" "room (length bs + 8) s" "len \<le> 0xFFFF" "length bs + 4 \<le> 0xFFFF" "ber_integer_fits v"
  shows "(\<exists>t. ber_write_length len s = Done (ber_sizeof_length len) t
        \<and> pointer t = pointer s + ber_sizeof_length len)
    \<and> (\<exists>t. ber_write_contextual_tag tag len pc s = Done (ber_sizeof_contextual_tag len) t
        \<and> pointer t = pointer s + ber_sizeof_contextual_tag len)
    \<and> (\<exists>t. ber_write_sequence_tag len s = Done (ber_sizeof_sequence_tag len) t
        \<and> pointer t = pointer s + ber_sizeof_sequence_tag len)
    \<and> (\<exists>t. ber_write_octet_string bs s = Done (ber_sizeof_octet_string (length bs)) t
        \<and> pointer t = pointer s + ber_sizeof_octet_string (length bs))
    \<and> (\<exists>t. ber_write_contextual_octet_string tag bs s = Done (ber_sizeof_contextual_octet_string (length bs)) t
        \<and> pointer t = pointer s + ber_sizeof_contextual_octet_string (length bs))
    \<and> (\<exists>t. ber_write_integer v s = Done (ber_sizeof_integer v) t
        \<and> pointer t = pointer s + ber_sizeof_integer v)"
proof -
  have done_at: "\<exists>t. w s = Done n t \<and> pointer t = pointer s + n"
    if "writes_as n w cs" "length cs = n" "n \<le> length bs + 8" for n w cs
    using that assms(1) room_mono [OF assms(2) that(3)] by (simp add: writes_as_def put_def)
  have bs: "length bs \<le> 0xFFFF" "length (ber_octet_bytes bs) = ber_sizeof_octet_string (length bs)"
    "ber_sizeof_octet_string (length bs) \<le> length bs + 4"
    using assms(4)
    by (simp_all add: length_ber_octet_bytes ber_sizeof_octet_string_def ber_sizeof_length_def)
  have ctx: "length (ber_contextual tag True # ber_length_bytes (length (ber_octet_bytes bs)) @ ber_octet_bytes bs)
      = ber_sizeof_contextual_octet_string (length bs)" "ber_sizeof_contextual_octet_string (length bs) \<le> length bs + 8"
    using bs assms(4)
    by (simp_all add: length_ber_length_bytes ber_sizeof_contextual_octet_string_def Let_def
        ber_sizeof_contextual_tag_def ber_sizeof_length_def)
  have int: "length (ber_integer_bytes v) = ber_sizeof_integer v" "ber_sizeof_integer v \<le> length bs + 8"
    by (simp_all add: ber_integer_bytes_def ber_sizeof_integer_def)
  note len = length_ber_length_bytes [of len]
  have sz: "ber_sizeof_length len \<le> 3" by (simp add: ber_sizeof_length_def)
  show ?thesis
    by (intro conjI done_at [OF ber_write_length_writes [OF assms(3)]]
        done_at [OF ber_write_contextual_tag_writes [OF assms(3)]]
        done_at [OF ber_write_sequence_tag_writes [OF assms(3)]]
        done_at [OF ber_write_octet_string_writes [OF bs(1)]]
        done_at [OF ber_write_contextual_octet_string_writes [OF assms(4)]]
        done_at [OF ber_write_integer_writes [OF assms(5)]] ctx int bs(2))
      (use len sz bs(3) in \<open>simp_all add: ber_sizeof_contextual_tag_def ber_sizeof_sequence_tag_def\<close>)
qed

theorem ber_sizeof_exact_witness:
  "\<exists>t. ber_write_octet_string [1, 2, 3] (Stream_StaticInit (replicate 11 0) 11) =
     Done (ber_sizeof_octet_string 3) t \<and> pointer t = 5"
proof -
  let ?s = "Stream_StaticInit (replicate 11 0) 11"
  have "wf_stream ?s" "room (length [1, 2, 3 :: byte] + 8) ?s" "(0 :: nat) \<le> 0xFFFF"
    "length [1, 2, 3 :: byte] + 4 \<le> 0xFFFF" "ber_integer_fits 0"
    by (simp_all add: Stream_StaticInit_def wf_stream_def PTRDIFF_MAX_def room_def ber_integer_fits_def)
  from ber_sizeof_exact [OF this] have "\<exists>t. ber_write_octet_string [1, 2, 3] ?s =
      Done (ber_sizeof_octet_string (length [1, 2, 3 :: byte])) t \<and>
      pointer t = pointer ?s + ber_sizeof_octet_string (length [1, 2, 3 :: byte])" by blast
  moreover have "length [1, 2, 3 :: byte] = 3" "pointer ?s = 0" "ber_sizeof_octet_string 3 = 5"
    by (simp_all add: Stream_StaticInit_def ber_sizeof_octet_string_def ber_sizeof_length_def)
  ultimately show ?thesis by (simp only: add_0)
qed

text \<open>C28. \<open>ber_write_integer\<close> cannot write 65536 to 8388607. Its three-byte form passes the whole value
  through a cast to \<open>UINT16\<close> that asserts the value fits, so on any stream the assertion fires,
  although the reader accepts the three-byte form.\<close>

theorem ber_write_integer_24_aborts:
  assumes "0xFFFF < v" "v < 0x800000"
  shows "ber_write_integer v s = Abort"
  by (rule ber_write_integer_aborts [OF assms])

theorem ber_write_integer_24_aborts_witness:
  "(0xFFFF :: u32) < 65536 \<and> ber_write_integer 65536 (Stream_StaticInit (replicate 16 0) 16) = Abort"
  using ber_write_integer_24_aborts [of 65536] by simp

text \<open>C27. An octet string is read back whole. With room for the encoding, writing the string and reading
  from the old position returns the same bytes unless the allocation of the copy fails, in which
  case the reader fails without an abort.\<close>

theorem ber_octet_string_round_trip:
  assumes "wf_stream s" "room (length (ber_octet_bytes bs)) s" "length bs \<le> 0xFFFF"
  shows "\<exists>t. run_bind (ber_write_octet_string bs s) (\<lambda>_ t. reread (pointer s) (ber_read_octet_string A) t) =
    (if c_malloc A (length bs) = None then Fail t else Done bs t)"
proof -
  let ?t = "put (ber_octet_bytes bs) s"
  have w: "ber_write_octet_string bs s = Done (ber_sizeof_octet_string (length bs)) ?t"
    using ber_write_octet_string_writes [OF assms(3)] assms(1,2) by (simp add: writes_as_def)
  have "wf_stream ?t" "written ?t = written s @ ber_octet_bytes bs" "length (written s) = pointer s"
    using assms(1,2) by (simp_all add: wf_put written_def [of s] wf_stream_def [of s])
  from reread_eq(1) [OF this(1,2), of "ber_read_octet_string A"] reread_eq(2,3) [OF this(1,2)] this(3)
  show ?thesis
    using ber_octet_string_bytes [OF assms(3), of "rewound (pointer s) ?t" "[]" A] w by auto
qed

theorem ber_octet_string_round_trip_witness:
  "\<exists>t. run_bind (ber_write_octet_string [5, 6] (Stream_StaticInit (replicate 4 0) 4))
     (\<lambda>_ t. reread 0 (ber_read_octet_string plain_allocator) t) = Done [5, 6] t"
proof -
  let ?s = "Stream_StaticInit (replicate 4 0) 4"
  have "wf_stream ?s" "room (length (ber_octet_bytes [5, 6])) ?s" "length [5, 6 :: byte] \<le> 0xFFFF" "pointer ?s = 0"
    "c_malloc plain_allocator (length [5, 6 :: byte]) \<noteq> None"
    by (simp_all add: Stream_StaticInit_def wf_stream_def PTRDIFF_MAX_def room_def ber_octet_bytes_def
        ber_length_bytes_def c_malloc_def plain_allocator_def)
  from ber_octet_string_round_trip [OF this(1-3), of plain_allocator] this(4,5) show ?thesis by auto
qed

end
