(* ===== verification/Per.thy ===== *)
theory Per
  imports Wire_Codec
begin

text \<open>
  ASN.1 packed encoding rules (\<open>libfreerdp/crypto/per.c\<close>), which the GCC conference messages and
  the MCS domain PDUs are built with. Each \<open>per_read_x\<close> and \<open>per_write_x\<close> of the source is one
  definition. Every reader is proved safe on arbitrary input; the encodings are instances of the
  codec interface and inherit its round trips, with the exact ranges in which they hold.
\<close>

section \<open>Operations\<close>

definition per_read_length :: "wStream \<Rightarrow> (u16, wStream) outcome" where
  "per_read_length s =
     run_bind (Stream_CheckAndLogRequiredLength s 1) (\<lambda>_ s.
       run_bind (stream_read_u8 s True) (\<lambda>b s.
         if b AND 0x80 \<noteq> 0 then
           run_bind (Stream_CheckAndLogRequiredLength s 1) (\<lambda>_ s.
             run_bind (run_assert (unat (b AND NOT 0x80) * 256 \<le> 0xFFFF) s) (\<lambda>_ s.
               run_bind (stream_read_u8 s True) (\<lambda>b' s.
                 Done (push_bit 8 (ucast (b AND NOT 0x80)) + ucast b') s)))
         else Done (ucast b) s))"

definition per_write_length :: "allocator \<Rightarrow> u16 \<Rightarrow> wStream \<Rightarrow> (unit, wStream) outcome" where
  "per_write_length A len s =
     (if len > 0x7F then
        run_bind (Stream_EnsureRemainingCapacity A s 2) (\<lambda>_ s.
          Stream_Write_UINT16_BE s (unat (len OR 0x8000)))
      else
        run_bind (Stream_EnsureRemainingCapacity A s 1) (\<lambda>_ s.
          Stream_Write_UINT8 s (unat (ucast len :: byte))))"

text \<open>
  \<open>per_read_choice\<close>, \<open>per_read_selection\<close> and \<open>per_read_number_of_sets\<close> have the same body, and
  so have their writers.
\<close>

definition per_read_choice :: "wStream \<Rightarrow> (byte, wStream) outcome" where
  "per_read_choice s =
     run_bind (Stream_CheckAndLogRequiredLength s 1) (\<lambda>_ s. stream_read_u8 s True)"

definition per_write_choice :: "allocator \<Rightarrow> byte \<Rightarrow> wStream \<Rightarrow> (unit, wStream) outcome" where
  "per_write_choice A choice s =
     run_bind (Stream_EnsureRemainingCapacity A s 1) (\<lambda>_ s. Stream_Write_UINT8 s (unat choice))"

definition per_read_selection :: "wStream \<Rightarrow> (byte, wStream) outcome" where
  "per_read_selection s =
     run_bind (Stream_CheckAndLogRequiredLength s 1) (\<lambda>_ s. stream_read_u8 s True)"

definition per_write_selection :: "allocator \<Rightarrow> byte \<Rightarrow> wStream \<Rightarrow> (unit, wStream) outcome" where
  "per_write_selection A selection s =
     run_bind (Stream_EnsureRemainingCapacity A s 1) (\<lambda>_ s. Stream_Write_UINT8 s (unat selection))"

definition per_read_number_of_sets :: "wStream \<Rightarrow> (byte, wStream) outcome" where
  "per_read_number_of_sets s =
     run_bind (Stream_CheckAndLogRequiredLength s 1) (\<lambda>_ s. stream_read_u8 s True)"

definition per_write_number_of_sets :: "allocator \<Rightarrow> byte \<Rightarrow> wStream \<Rightarrow> (unit, wStream) outcome" where
  "per_write_number_of_sets A number s =
     run_bind (Stream_EnsureRemainingCapacity A s 1) (\<lambda>_ s. Stream_Write_UINT8 s (unat number))"

definition per_read_padding :: "u16 \<Rightarrow> wStream \<Rightarrow> (unit, wStream) outcome" where
  "per_read_padding len s =
     run_bind (Stream_CheckAndLogRequiredLength s (unat len)) (\<lambda>_ s. Stream_Seek s (unat len))"

definition per_write_padding :: "allocator \<Rightarrow> u16 \<Rightarrow> wStream \<Rightarrow> (unit, wStream) outcome" where
  "per_write_padding A len s =
     run_bind (Stream_EnsureRemainingCapacity A s (unat len)) (\<lambda>_ s. Stream_Zero s (unat len))"

definition per_read_integer :: "wStream \<Rightarrow> (u32, wStream) outcome" where
  "per_read_integer s =
     run_bind (per_read_length s) (\<lambda>len s.
       run_bind (Stream_CheckAndLogRequiredLength s (unat len)) (\<lambda>_ s.
         if len = 0 then Done 0 s
         else if len = 1 then run_bind (stream_read_u8 s True) (\<lambda>v s. Done (ucast v) s)
         else if len = 2 then run_bind (stream_read_u16_be s True) (\<lambda>v s. Done (ucast v) s)
         else Fail s))"

definition per_write_integer :: "allocator \<Rightarrow> u32 \<Rightarrow> wStream \<Rightarrow> (unit, wStream) outcome" where
  "per_write_integer A n s =
     (if n \<le> 0xFF then
        run_bind (per_write_length A 1 s) (\<lambda>_ s.
          run_bind (Stream_EnsureRemainingCapacity A s 1) (\<lambda>_ s. Stream_Write_UINT8 s (unat n)))
      else if n \<le> 0xFFFF then
        run_bind (per_write_length A 2 s) (\<lambda>_ s.
          run_bind (Stream_EnsureRemainingCapacity A s 2) (\<lambda>_ s. Stream_Write_UINT16_BE s (unat n)))
      else
        run_bind (per_write_length A 4 s) (\<lambda>_ s.
          run_bind (Stream_EnsureRemainingCapacity A s 4) (\<lambda>_ s. Stream_Write_UINT32_BE s (unat n))))"

definition per_read_integer16 :: "u16 \<Rightarrow> wStream \<Rightarrow> (u16, wStream) outcome" where
  "per_read_integer16 mn s =
     run_bind (Stream_CheckAndLogRequiredLength s 2) (\<lambda>_ s.
       run_bind (stream_read_u16_be s True) (\<lambda>v s.
         if unat v > 0xFFFF - unat mn then Fail s else Done (v + mn) s))"

definition per_write_integer16 :: "allocator \<Rightarrow> u16 \<Rightarrow> u16 \<Rightarrow> wStream \<Rightarrow> (unit, wStream) outcome" where
  "per_write_integer16 A mn v s =
     (if mn > v then Fail s
      else run_bind (Stream_EnsureRemainingCapacity A s 2) (\<lambda>_ s.
             Stream_Write_UINT16_BE s (unat v - unat mn)))"

definition per_read_enumerated :: "byte \<Rightarrow> wStream \<Rightarrow> (byte, wStream) outcome" where
  "per_read_enumerated cnt s =
     run_bind (Stream_CheckAndLogRequiredLength s 1) (\<lambda>_ s.
       run_bind (stream_read_u8 s True) (\<lambda>e s.
         if unat e + 1 > unat cnt then Fail s else Done e s))"

definition per_write_enumerated :: "allocator \<Rightarrow> byte \<Rightarrow> byte \<Rightarrow> wStream \<Rightarrow> (unit, wStream) outcome" where
  "per_write_enumerated A cnt e s =
     run_bind (Stream_EnsureRemainingCapacity A s 1) (\<lambda>_ s. Stream_Write_UINT8 s (unat e))"

text \<open>
  The comparison reads \<open>len\<close> bytes of both blocks, also when they differ, for the message; \<open>None\<close> is a
  block that is too short for that.
\<close>

definition per_check_oid_and_log_mismatch :: "byte list \<Rightarrow> byte list \<Rightarrow> nat \<Rightarrow> bool option" where
  "per_check_oid_and_log_mismatch got expect len =
     (case (mem_read got 0 len, mem_read expect 0 len) of
        (Some g, Some e) \<Rightarrow> Some (g = e)
      | _ \<Rightarrow> None)"

definition per_read_object_identifier :: "byte list \<Rightarrow> wStream \<Rightarrow> (unit, wStream) outcome" where
  "per_read_object_identifier oid s =
     run_bind (per_read_length s) (\<lambda>len s.
       if len \<noteq> 5 then Fail s
       else run_bind (Stream_CheckAndLogRequiredLength s (unat len)) (\<lambda>_ s.
         run_bind (stream_read_u8 s True) (\<lambda>t12 s.
         run_bind (stream_read_u8 s True) (\<lambda>o2 s.
         run_bind (stream_read_u8 s True) (\<lambda>o3 s.
         run_bind (stream_read_u8 s True) (\<lambda>o4 s.
         run_bind (stream_read_u8 s True) (\<lambda>o5 s.
           case per_check_oid_and_log_mismatch [t12 div 40, t12 mod 40, o2, o3, o4, o5] oid 6 of
             None \<Rightarrow> Abort
           | Some same \<Rightarrow> run_guard same s)))))))"

definition per_write_object_identifier ::
    "allocator \<Rightarrow> byte list \<Rightarrow> wStream \<Rightarrow> (unit, wStream) outcome" where
  "per_write_object_identifier A oid s =
     (if length oid < 2 then Abort
      else
        let t12 = oid ! 0 * 40 + oid ! 1 in
        run_bind (Stream_EnsureRemainingCapacity A s 6) (\<lambda>_ s.
          if length oid < 6 then Abort
          else
            run_bind (Stream_Write_UINT8 s 5) (\<lambda>_ s.
            run_bind (Stream_Write_UINT8 s (unat t12)) (\<lambda>_ s.
            run_bind (Stream_Write_UINT8 s (unat (oid ! 2))) (\<lambda>_ s.
            run_bind (Stream_Write_UINT8 s (unat (oid ! 3))) (\<lambda>_ s.
            run_bind (Stream_Write_UINT8 s (unat (oid ! 4))) (\<lambda>_ s.
              Stream_Write_UINT8 s (unat (oid ! 5)))))))))"

definition per_read_octet_string :: "byte list \<Rightarrow> u16 \<Rightarrow> u16 \<Rightarrow> wStream \<Rightarrow> (unit, wStream) outcome" where
  "per_read_octet_string oct_str len mn s =
     run_bind (per_read_length s) (\<lambda>mlength s.
       if unat mlength + unat mn \<noteq> unat len then Fail s
       else run_bind (Stream_CheckAndLogRequiredLength s (unat len)) (\<lambda>_ s.
         run_bind (Stream_Read s (unat len)) (\<lambda>a_oct_str s.
           case per_check_oid_and_log_mismatch a_oct_str oct_str (unat len) of
             None \<Rightarrow> Abort
           | Some same \<Rightarrow> run_guard same s)))"

definition per_write_octet_string ::
    "allocator \<Rightarrow> byte list \<Rightarrow> u16 \<Rightarrow> u16 \<Rightarrow> wStream \<Rightarrow> (unit, wStream) outcome" where
  "per_write_octet_string A oct_str len mn s =
     (let mlength = (if len \<ge> mn then len - mn else mn) in
      run_bind (per_write_length A mlength s) (\<lambda>_ s.
        run_bind (Stream_EnsureRemainingCapacity A s (unat len)) (\<lambda>_ s.
          case mem_read oct_str 0 (unat len) of
            None \<Rightarrow> Abort
          | Some d \<Rightarrow> write_each (\<lambda>b s. Stream_Write_UINT8 s (unat b)) d s)))"

definition per_read_numeric_string :: "u16 \<Rightarrow> wStream \<Rightarrow> (unit, wStream) outcome" where
  "per_read_numeric_string mn s =
     run_bind (per_read_length s) (\<lambda>mlength s.
       let len = (unat mlength + unat mn + 1) div 2 in
       run_bind (Stream_CheckAndLogRequiredLength s len) (\<lambda>_ s. Stream_Seek s len))"

text \<open>
  The loop of \<open>per_write_numeric_string\<close>: its counter is a \<open>UINT16\<close> stepped by two, so it wraps.
  Each round stores a byte, so the loop ends at the latest when the stream's capacity is used up.
\<close>

lemma Write_UINT8_progress:
  assumes "Stream_Write_UINT8 s v = Done u t"
  shows "capacity t - pointer t < capacity s - pointer s"
  using assms
  by (auto simp: Stream_Write_UINT8_def stream_store_def Stream_GetRemainingCapacity_def
      winpr_Data_Write_UINT8_def run_assert_def split: if_splits option.splits)

function per_numeric_loop :: "byte list \<Rightarrow> u16 \<Rightarrow> u16 \<Rightarrow> wStream \<Rightarrow> (unit, wStream) outcome" where
  "per_numeric_loop num_str len i s =
     (if i < len then
        (if length num_str \<le> unat i \<or> (unat i + 1 < unat len \<and> length num_str \<le> unat i + 1) then Abort
         else
           let c1 = num_str ! unat i;
               c2 = (if unat i + 1 < unat len then num_str ! (unat i + 1) else 0x30)
           in
           if c1 < 0x30 \<or> c2 < 0x30 then Fail s
           else
             let d1 = (unat c1 - 0x30) mod 10;
                 d2 = (unat c2 - 0x30) mod 10
             in
             run_bind (Stream_Write_UINT8 s (d1 * 16 + d2)) (\<lambda>_ s.
               per_numeric_loop num_str len (i + 2) s))
      else Done () s)"
  by pat_completeness auto
termination
  by (relation "measure (\<lambda>(num_str, len, i, s). capacity s - pointer s)")
     (auto dest: Write_UINT8_progress)

declare per_numeric_loop.simps [simp del]

definition per_write_numeric_string ::
    "allocator \<Rightarrow> byte list \<Rightarrow> u16 \<Rightarrow> u16 \<Rightarrow> wStream \<Rightarrow> (unit, wStream) outcome" where
  "per_write_numeric_string A num_str len mn s =
     (let mlength = (if len \<ge> mn then len - mn else mn) in
      run_bind (per_write_length A mlength s) (\<lambda>_ s.
        run_bind (Stream_EnsureRemainingCapacity A s (unat len)) (\<lambda>_ s.
          per_numeric_loop num_str len 0 s)))"

section \<open>Safety of the readers\<close>

lemma unat_and_7F: "unat (b AND NOT 0x80 :: byte) = unat b mod 0x80"
  unfolding and_not_80 by (simp add: unat_mod take_bit_eq_mod)

lemma per_length_bounds:
  fixes b c :: byte
  shows "unat b mod 0x80 * 256 + unat c \<le> 0x7FFF" "unat b mod 0x80 * 256 \<le> 0xFFFF"
    "unat (ucast b :: u16) \<le> 0x7FFF"
proof -
  have "unat b mod 0x80 < 0x80" "unat c \<le> 0xFF" "unat b \<le> 0xFF"
    by (simp, rule unat_u8_le, rule unat_u8_le)
  then show "unat b mod 0x80 * 256 + unat c \<le> 0x7FFF" "unat b mod 0x80 * 256 \<le> 0xFFFF"
    "unat (ucast b :: u16) \<le> 0x7FFF"
    by simp_all
qed

lemma per_read_length_consumes [safe_intros]:
  "consumes r per_read_length (\<lambda>len. unat len \<le> 0x7FFF) 0"
  unfolding per_read_length_def [abs_def]
  by (rule safe_intros | (simp only: unat_join8 unat_and_7F per_length_bounds; fail) | (simp; fail))+

lemma per_read_byte_consumes [safe_intros]:
  "consumes r per_read_choice (\<lambda>_. True) (max r 1 - 1)"
  "consumes r per_read_selection (\<lambda>_. True) (max r 1 - 1)"
  "consumes r per_read_number_of_sets (\<lambda>_. True) (max r 1 - 1)"
  unfolding per_read_choice_def [abs_def] per_read_selection_def [abs_def]
    per_read_number_of_sets_def [abs_def]
  by (rule safe_intros | (simp; fail))+

lemma per_read_padding_consumes [safe_intros]:
  "consumes r (per_read_padding len) (\<lambda>_. True) (max r (unat len) - unat len)"
  unfolding per_read_padding_def [abs_def] by (rule safe_intros | (simp; fail))+

lemma per_read_integer_consumes [safe_intros]:
  "consumes r per_read_integer (\<lambda>n. unat n \<le> 0xFFFF) 0"
  unfolding per_read_integer_def [abs_def]
  by (rule safe_intros | (simp; fail) | (rule le_trans [OF unat_u8_le]; simp; fail)
      | (simp add: unat_bounds; fail) | (rule order_trans, simp, rule unat_u8_le, simp; fail))+

lemma add_no_wrap: "\<not> unat (v :: u16) > 0xFFFF - unat mn \<Longrightarrow> unat (v + mn) = unat v + unat mn"
  using unat_u16_le [of mn] by (simp add: unat_word_ariths)

lemma add_no_wrap_le: "\<not> unat (v :: u16) > 0xFFFF - unat mn \<Longrightarrow> mn \<le> v + mn"
  by (simp add: word_le_nat_alt add_no_wrap)

lemma per_read_integer16_consumes [safe_intros]:
  "consumes r (per_read_integer16 mn) (\<lambda>v. mn \<le> v) 0"
  unfolding per_read_integer16_def [abs_def]
  by (rule safe_intros | (erule add_no_wrap_le; fail) | (simp; fail))+

lemma per_read_enumerated_consumes [safe_intros]:
  "consumes r (per_read_enumerated cnt) (\<lambda>e. e < cnt) 0"
  unfolding per_read_enumerated_def [abs_def]
  by (rule safe_intros | (simp add: word_less_nat_alt; fail))+

lemma per_check_Some:
  "len \<le> length got \<Longrightarrow> len \<le> length expect \<Longrightarrow>
    per_check_oid_and_log_mismatch got expect len = Some (take len got = take len expect)"
  by (simp add: per_check_oid_and_log_mismatch_def mem_read_def)

lemma consumes_compare:
  assumes "len \<le> length got" "len \<le> length expect"
  shows "consumes r (\<lambda>s. case per_check_oid_and_log_mismatch got expect len of None \<Rightarrow> Abort
    | Some same \<Rightarrow> run_guard same s) (\<lambda>_. True) 0"
  unfolding per_check_Some [OF assms] option.case by (rule consumes_ends) simp

lemma per_read_object_identifier_consumes [safe_intros]:
  "6 \<le> length oid \<Longrightarrow> consumes r (per_read_object_identifier oid) (\<lambda>_. True) 0"
  unfolding per_read_object_identifier_def [abs_def]
  by (rule consumes_compare safe_intros | (simp; fail))+

lemma per_read_octet_string_consumes [safe_intros]:
  "unat len \<le> length oct_str \<Longrightarrow> consumes r (per_read_octet_string oct_str len mn) (\<lambda>_. True) 0"
  unfolding per_read_octet_string_def [abs_def]
  by (rule consumes_compare safe_intros | (simp; fail))+

lemma per_read_numeric_string_consumes [safe_intros]:
  "consumes r (per_read_numeric_string mn) (\<lambda>_. True) 0"
  unfolding per_read_numeric_string_def [abs_def] Let_def
  by (rule safe_intros consumes_ends | (simp; fail))+
section \<open>The encodings\<close>

definition per_length_bytes :: "u16 \<Rightarrow> byte list" where
  "per_length_bytes len =
     (if len > 0x7F then winpr_Data_Write_UINT16_BE (len OR 0x8000) else [ucast len])"

lemma length_per_length_bytes: "length (per_length_bytes len) \<le> 2" "1 \<le> length (per_length_bytes len)"
  by (simp_all add: per_length_bytes_def)

lemma per_write_length_writes: "writes (per_write_length A len) (per_length_bytes len)"
proof -
  have "writes (\<lambda>s. Stream_Write_UINT16_BE s (unat (len OR 0x8000)))
      (winpr_Data_Write_UINT16_BE (len OR 0x8000))"
    using writes_UINT16_BE [of "unat (len OR 0x8000)"] by (simp add: unat_bounds)
  moreover have "writes (\<lambda>s. Stream_Write_UINT8 s (unat (ucast len :: byte))) [ucast len]"
    using writes_UINT8 [of "unat (ucast len :: byte)"] by (simp add: unat_bounds)
  ultimately show ?thesis
    unfolding per_write_length_def [abs_def] per_length_bytes_def
    by (cases "len > 0x7F") (auto intro!: writes_ensure)
qed

lemma per_write_length_emits: "emits r (per_write_length A len) (per_length_bytes len) 0"
proof (cases "len > 0x7F")
  case True
  have "emits (max r 2) (\<lambda>s. Stream_Write_UINT16_BE s (unat (len OR 0x8000)))
      (winpr_Data_Write_UINT16_BE (len OR 0x8000)) (max r 2 - 2)"
    using emits_Write_UINT16_BE [of "unat (len OR 0x8000)" "max r 2"] by (simp add: unat_bounds)
  then show ?thesis
    using True unfolding per_write_length_def [abs_def] per_length_bytes_def
    by (simp add: emits_ensure_seq emits_end)
next
  case False
  have "emits (max r 1) (\<lambda>s. Stream_Write_UINT8 s (unat (ucast len :: byte))) [ucast len] (max r 1 - 1)"
    using emits_Write_UINT8 [of "unat (ucast len :: byte)" "max r 1"] by (simp add: unat_bounds)
  then show ?thesis
    using False unfolding per_write_length_def [abs_def] per_length_bytes_def
    by (simp add: emits_ensure_seq emits_end)
qed

lemma per_length_split:
  fixes len k :: u16
  assumes k: "\<And>n. bit k n \<longleftrightarrow> n = 15"
  defines "hi \<equiv> ucast (drop_bit 8 (len OR k) AND 0xFF) :: byte"
  shows "bit hi 7"
    and "push_bit 8 (ucast (hi AND NOT 0x80)) + ucast (ucast ((len OR k) AND 0xFF) :: byte) = len AND 0x7FFF"
proof -
  show "bit hi 7"
    unfolding hi_def and_masks by (simp add: bit_simps k)
next
  define lo :: u16 where "lo = ucast (ucast ((len OR k) AND 0xFF) :: byte)"
  define h :: u16 where "h = push_bit 8 (ucast (hi AND NOT 0x80))"
  have m: "(0x7FFF :: u16) = mask 15" by (simp add: mask_eq_exp_minus_1)
  have "h AND lo = 0"
    unfolding h_def lo_def and_masks by (rule bit_word_eqI) (auto simp: bit_simps)
  then have "h + lo = h OR lo" by (rule disjunctive_add_eq_or)
  also have "\<dots> = len AND 0x7FFF"
    unfolding h_def lo_def hi_def and_not_80 and_masks m 
    by (rule bit_word_eqI) (auto simp: bit_simps k)
  finally show "push_bit 8 (ucast (hi AND NOT 0x80)) + ucast (ucast ((len OR k) AND 0xFF) :: byte) = len AND 0x7FFF"
    by (simp add: h_def lo_def)
qed

lemma bit_8000: "bit (0x8000 :: u16) n \<longleftrightarrow> n = 15"
  using bit_two_power [of 15 n, where 'a = 16] by simp

lemma per_length_short:
  assumes "\<not> len > (0x7F :: u16)"
  shows "unat (ucast len :: byte) = unat len" "unat len \<le> 0x7F"
    "ucast (ucast len :: byte) = len" "len AND 0x7FFF = len"
proof -
  show le: "unat len \<le> 0x7F"
    using assms by (simp add: word_less_nat_alt)
  then show *: "unat (ucast len :: byte) = unat len"
    by (simp add: unsigned_ucast_eq take_bit_nat_eq_self_iff)
  then show "ucast (ucast len :: byte) = len"
    by (simp add: word_unat_eq_iff)
  have "(0x7FFF :: u16) = mask 15" by (simp add: mask_eq_exp_minus_1)
  then show "len AND 0x7FFF = len"
    using le by (simp only: take_bit_eq_mask [symmetric])
      (simp add: word_unat_eq_iff unsigned_take_bit_eq take_bit_nat_eq_self_iff)
qed

lemma per_read_length_bytes:
  assumes "readable s" "rest s = per_length_bytes len @ bs"
  shows "per_read_length s = Done (len AND 0x7FFF) (advance (length (per_length_bytes len)) s)"
proof (cases "len > 0x7F")
  case True
  define hi :: byte where "hi = ucast (drop_bit 8 (len OR 0x8000) AND 0xFF)"
  define lo :: byte where "lo = ucast ((len OR 0x8000) AND 0xFF)"
  have r: "rest s = hi # lo # bs" "length (per_length_bytes len) = 2"
    using assms(2) True by (simp_all add: per_length_bytes_def winpr_Data_Write_UINT16_BE_def hi_def lo_def)
  have "hi AND 0x80 \<noteq> 0"
    using per_length_split(1) [OF bit_8000, of len] by (simp only: and_80_zero hi_def) simp
  moreover have "push_bit 8 (ucast (hi AND NOT 0x80)) + ucast lo = len AND 0x7FFF"
    using per_length_split(2) [OF bit_8000, of len] by (simp only: hi_def lo_def)
  moreover have "unat (hi AND NOT 0x80) * 256 \<le> 0xFFFF"
    by (simp only: unat_and_7F per_length_bounds)
  ultimately show ?thesis
    using assms(1) r by (simp add: per_read_length_def numeral_2_eq_2)
next
  case False
  then have "rest s = ucast len # bs" "length (per_length_bytes len) = 1"
    using assms(2) by (simp_all add: per_length_bytes_def)
  moreover have "(ucast len :: byte) AND 0x80 = 0"
    using per_length_short [OF False] by (simp add: and_80_zero bit7_ge)
  ultimately show ?thesis
    using assms(1) per_length_short [OF False] by (simp add: per_read_length_def)
qed
lemma and_7FFF: "len \<le> (0x7FFF :: u16) \<Longrightarrow> len AND 0x7FFF = len"
proof -
  assume "len \<le> 0x7FFF"
  then have "unat len < 2 ^ 15" by (simp add: word_le_nat_alt)
  moreover have "(0x7FFF :: u16) = mask 15" by (simp add: mask_eq_exp_minus_1)
  ultimately show ?thesis
    by (simp only: take_bit_eq_mask [symmetric])
      (simp add: word_unat_eq_iff unsigned_take_bit_eq take_bit_nat_eq_self_iff)
qed

interpretation per_len: growing_codec "per_write_length A" per_read_length per_length_bytes
    "\<lambda>len. len \<le> 0x7FFF" for A
  by unfold_locales (simp_all add: per_write_length_writes per_read_length_bytes
      per_write_length_emits and_7FFF)

text \<open>A single byte behind a length check, and behind room for one byte.\<close>

lemma per_write_byte:
  "writes (\<lambda>s. run_bind (Stream_EnsureRemainingCapacity A s 1) (\<lambda>_ s. Stream_Write_UINT8 s (unat b))) [b]"
  "emits r (\<lambda>s. run_bind (Stream_EnsureRemainingCapacity A s 1) (\<lambda>_ s. Stream_Write_UINT8 s (unat b))) [b] 0"
proof -
  have "writes (\<lambda>s. Stream_Write_UINT8 s (unat b)) [b]"
    using writes_UINT8 [of "unat b"] by (simp add: unat_bounds)
  then show "writes (\<lambda>s. run_bind (Stream_EnsureRemainingCapacity A s 1)
      (\<lambda>_ s. Stream_Write_UINT8 s (unat b))) [b]"
    by (rule writes_ensure) simp
  have "emits (max r 1) (\<lambda>s. Stream_Write_UINT8 s (unat b)) [b] (max r 1 - 1)"
    using emits_Write_UINT8 [of "unat b" "max r 1"] by (simp add: unat_bounds)
  then show "emits r (\<lambda>s. run_bind (Stream_EnsureRemainingCapacity A s 1)
      (\<lambda>_ s. Stream_Write_UINT8 s (unat b))) [b] 0"
    by (intro emits_ensure_seq emits_end) simp_all
qed

lemmas per_byte_writers = per_write_choice_def [abs_def] per_write_selection_def [abs_def]
  per_write_number_of_sets_def [abs_def] per_write_enumerated_def [abs_def]

lemmas per_byte_readers = per_read_choice_def per_read_selection_def per_read_number_of_sets_def
  per_read_enumerated_def

interpretation per_choice: growing_codec "per_write_choice A" per_read_choice "\<lambda>b. [b]" "\<lambda>_. True" for A
  by unfold_locales (simp_all add: per_byte_writers per_byte_readers per_write_byte [simplified])

interpretation per_selection: growing_codec "per_write_selection A" per_read_selection "\<lambda>b. [b]"
    "\<lambda>_. True" for A
  by unfold_locales (simp_all add: per_byte_writers per_byte_readers per_write_byte [simplified])

interpretation per_number_of_sets: growing_codec "per_write_number_of_sets A" per_read_number_of_sets
    "\<lambda>b. [b]" "\<lambda>_. True" for A
  by unfold_locales (simp_all add: per_byte_writers per_byte_readers per_write_byte [simplified])

interpretation per_enumerated: growing_codec "per_write_enumerated A cnt" "per_read_enumerated cnt"
    "\<lambda>b. [b]" "\<lambda>e. e < cnt" for A cnt
  by unfold_locales (simp_all add: per_byte_writers per_byte_readers per_write_byte [simplified] word_less_nat_alt)

interpretation per_integer16: growing_codec "per_write_integer16 A mn" "per_read_integer16 mn"
    "\<lambda>v. winpr_Data_Write_UINT16_BE (v - mn)" "\<lambda>v. mn \<le> v" for A mn
proof
  fix v assume v: "mn \<le> v"
  then have le: "\<not> v < mn" "unat (v - mn) = unat v - unat mn" "unat v - unat mn \<le> 0xFFFF"
    using unat_u16_le [of v] by (auto simp: unat_sub simp flip: word_le_nat_alt)
  have w: "writes (\<lambda>s. Stream_Write_UINT16_BE s (unat v - unat mn)) (winpr_Data_Write_UINT16_BE (v - mn))"
    using writes_UINT16_BE [OF le(3)] by (simp flip: le(2))
  then show "writes (per_write_integer16 A mn v) (winpr_Data_Write_UINT16_BE (v - mn))"
    using le by (simp add: per_write_integer16_def [abs_def] writes_ensure)
  have "emits (max 0 2) (\<lambda>s. Stream_Write_UINT16_BE s (unat v - unat mn))
      (winpr_Data_Write_UINT16_BE (v - mn)) (max 0 2 - 2)"
    using emits_Write_UINT16_BE [OF le(3), of "max 0 2"] by (simp flip: le(2))
  then show "emits 0 (per_write_integer16 A mn v) (winpr_Data_Write_UINT16_BE (v - mn)) 0"
    using le by (simp add: per_write_integer16_def [abs_def] emits_ensure_seq emits_end)
  fix s bs
  assume "readable s" "rest s = winpr_Data_Write_UINT16_BE (v - mn) @ bs"
  then show "per_read_integer16 mn s = Done v (advance (length (winpr_Data_Write_UINT16_BE (v - mn))) s)"
    using le unat_u16_le [of v]
    by (simp add: per_read_integer16_def read_u16_be_append)
qed

definition per_integer_bytes :: "u32 \<Rightarrow> byte list" where
  "per_integer_bytes n =
     (if n \<le> 0xFF then [1, ucast n]
      else if n \<le> 0xFFFF then 2 # winpr_Data_Write_UINT16_BE (ucast n)
      else 4 # winpr_Data_Write_UINT32_BE n)"

lemma per_write_tagged:
  assumes "writes w bs" "emits (length bs) w bs 0" "length bs \<le> 4" "len \<le> 0x7F" "n = length bs"
  shows "writes (\<lambda>s. run_bind (per_write_length A len s) (\<lambda>_ s.
      run_bind (Stream_EnsureRemainingCapacity A s n) (\<lambda>_ s. w s))) (ucast len # bs)"
    and "emits r (\<lambda>s. run_bind (per_write_length A len s) (\<lambda>_ s.
      run_bind (Stream_EnsureRemainingCapacity A s n) (\<lambda>_ s. w s))) (ucast len # bs) 0"
proof -
  have len: "per_length_bytes len = [ucast len]"
    using assms(4) by (simp add: per_length_bytes_def leD)
  show "writes (\<lambda>s. run_bind (per_write_length A len s) (\<lambda>_ s.
      run_bind (Stream_EnsureRemainingCapacity A s n) (\<lambda>_ s. w s))) (ucast len # bs)"
    using writes_seq [OF per_write_length_writes [of A len] writes_ensure [OF assms(1), of n A]] assms(5) len
    by simp
  have "n \<le> PTRDIFF_MAX" using assms(3,5) by (simp add: PTRDIFF_MAX_def)
  then have "emits 0 (\<lambda>s. run_bind (Stream_EnsureRemainingCapacity A s n) (\<lambda>_ s. w s)) bs 0"
    using assms(2,5) by (simp add: emits_ensure_seq)
  then show "emits r (\<lambda>s. run_bind (per_write_length A len s) (\<lambda>_ s.
      run_bind (Stream_EnsureRemainingCapacity A s n) (\<lambda>_ s. w s))) (ucast len # bs) 0"
    using emits_seq [OF per_write_length_emits] len by (metis append_Cons append_Nil)
qed

lemma per_write_integer_bytes:
  "writes (per_write_integer A n) (per_integer_bytes n)"
  "emits r (per_write_integer A n) (per_integer_bytes n) 0"
proof -
  have 1: "writes (\<lambda>s. Stream_Write_UINT8 s (unat n)) [ucast n]"
      "emits (length [ucast n :: byte]) (\<lambda>s. Stream_Write_UINT8 s (unat n)) [ucast n] 0" if "n \<le> 0xFF"
    using writes_UINT8 [of "unat n"] emits_Write_UINT8 [of "unat n" 1] that
    by (simp_all add: word_le_nat_alt word_of_nat_unat)
  have 2: "writes (\<lambda>s. Stream_Write_UINT16_BE s (unat n)) (winpr_Data_Write_UINT16_BE (ucast n))"
      "emits 2 (\<lambda>s. Stream_Write_UINT16_BE s (unat n)) (winpr_Data_Write_UINT16_BE (ucast n)) 0"
    if "n \<le> 0xFFFF"
    using writes_UINT16_BE [of "unat n"] emits_Write_UINT16_BE [of "unat n" 2] that
    by (simp_all add: word_le_nat_alt word_of_nat_unat)
  have 4: "writes (\<lambda>s. Stream_Write_UINT32_BE s (unat n)) (winpr_Data_Write_UINT32_BE n)"
      "emits 4 (\<lambda>s. Stream_Write_UINT32_BE s (unat n)) (winpr_Data_Write_UINT32_BE n) 0"
    using writes_UINT32_BE [of "unat n"] emits_Write_UINT32_BE [of "unat n" 4]
    by (simp_all add: unat_bounds)
  show "writes (per_write_integer A n) (per_integer_bytes n)"
    "emits r (per_write_integer A n) (per_integer_bytes n) 0"
    unfolding per_write_integer_def [abs_def] per_integer_bytes_def
    using per_write_tagged [OF 1, of 1] per_write_tagged [OF 2(1) _ _, of 2]
      per_write_tagged [OF 4(1) _ _, of 4] 1 2 4
    by auto
qed

interpretation per_integer: growing_codec "per_write_integer A" per_read_integer per_integer_bytes
    "\<lambda>n. n \<le> 0xFFFF" for A
proof
  fix n :: u32 assume n: "n \<le> 0xFFFF"
  show "writes (per_write_integer A n) (per_integer_bytes n)"
    "emits 0 (per_write_integer A n) (per_integer_bytes n) 0"
    by (rule per_write_integer_bytes)+
  fix s bs
  assume s: "readable s" "rest s = per_integer_bytes n @ bs"
  have len: "per_length_bytes 1 = [1]" "per_length_bytes 2 = [2]"
    by (simp_all add: per_length_bytes_def)
  have "ucast (ucast n :: byte) = n" if "n \<le> 0xFF"
    using unat_ucast_small(1) [OF that] by (simp add: word_unat_eq_iff)
  moreover have "ucast (ucast n :: u16) = n"
    using unat_ucast_small(2) [OF n] by (simp add: word_unat_eq_iff)
  ultimately show "per_read_integer s = Done n (advance (length (per_integer_bytes n)) s)"
    using s n per_read_length_bytes [of s 1] per_read_length_bytes [of s 2]
    by (auto simp: per_integer_bytes_def per_read_integer_def len read_u16_be_append
        split: if_splits) (simp add: numeral_3_eq_3)
qed

lemma per_read_wide_integer:
  assumes "0xFFFF < n" "readable s" "rest s = per_integer_bytes n @ bs"
  shows "\<exists>t. per_read_integer s = Fail t"
proof -
  have "\<not> n \<le> 0xFF" "\<not> n \<le> 0xFFFF"
    using assms(1) by (simp_all add: word_le_nat_alt word_less_nat_alt)
  then have "rest s = per_length_bytes 4 @ winpr_Data_Write_UINT32_BE n @ bs"
    using assms(3) by (simp add: per_integer_bytes_def per_length_bytes_def)
  then show ?thesis
    using assms(2) per_read_length_bytes [of s 4]
    by (simp add: per_read_integer_def per_length_bytes_def)
qed

section \<open>Object identifiers\<close>

definition per_oid_bytes :: "byte list \<Rightarrow> byte list" where
  "per_oid_bytes oid = [5, oid ! 0 * 40 + oid ! 1, oid ! 2, oid ! 3, oid ! 4, oid ! 5]"

lemma per_write_object_identifier_emits:
  assumes "length oid = 6"
  shows "emits r (per_write_object_identifier A oid) (per_oid_bytes oid) 0"
proof -
  have seq: "emits r (\<lambda>s. run_bind (Stream_Write_UINT8 s (unat b)) (\<lambda>_ s. w s)) (b # bs) 0"
    if "1 \<le> r" "emits (r - 1) w bs 0" for r b w bs
    using emits_seq [OF emits_byte [OF that(1), of b] that(2)] by simp
  have seq5: "emits r (\<lambda>s. run_bind (Stream_Write_UINT8 s 5) (\<lambda>_ s. w s)) (5 # bs) 0"
    if "1 \<le> r" "emits (r - 1) w bs 0" for r w bs
    using seq [OF that, of 5] by simp
  have last: "emits r (\<lambda>s. Stream_Write_UINT8 s (unat b)) [b] 0" if "1 \<le> r" for r b
    using emits_byte [OF that] by (rule emits_end)
  show ?thesis
    unfolding per_write_object_identifier_def [abs_def] per_oid_bytes_def Let_def assms
    by (simp del: One_nat_def, intro emits_ensure_seq seq5 seq last; simp)
qed

lemma per_read_oid_bytes:
  assumes "unat (oid ! 1) < 40" "unat (oid ! 0) * 40 + unat (oid ! 1) \<le> 0xFF" "length oid = 6"
    and "readable s" "rest s = per_oid_bytes oid @ bs" "length oid' = 6"
  shows "per_read_object_identifier oid' s = (if oid' = oid then Done () else Fail) (advance 6 s)"
proof -
  have "rest s = per_length_bytes 5 @ tl (per_oid_bytes oid) @ bs"
    using assms(5) by (simp add: per_oid_bytes_def per_length_bytes_def)
  then have len: "per_read_length s = Done 5 (advance 1 s)"
    using assms(4) per_read_length_bytes [of s 5] by (simp add: per_length_bytes_def)
  have "unat (oid ! 0 * 40 + oid ! 1) = unat (oid ! 0) * 40 + unat (oid ! 1)"
    using assms(2) by (simp add: unat_word_ariths)
  then have t12: "(oid ! 0 * 40 + oid ! 1) div 40 = oid ! 0" "(oid ! 0 * 40 + oid ! 1) mod 40 = oid ! 1"
    using assms(1) by (simp_all add: word_unat_eq_iff unat_div unat_mod)
  have "oid = [oid ! 0, oid ! 1, oid ! 2, oid ! 3, oid ! 4, oid ! 5]"
    using assms(3) by (auto simp: eval_nat_numeral length_Suc_conv)
  then show ?thesis
    using assms(4,5) t12 len
    by (auto simp: per_read_object_identifier_def per_oid_bytes_def per_check_Some assms(6)
        run_guard_def) (simp_all add: eval_nat_numeral)
qed

section \<open>Octet and numeric strings\<close>

lemma write_bytes_emits:
  "length bs \<le> r \<Longrightarrow> emits r (write_each (\<lambda>b s. Stream_Write_UINT8 s (unat b)) bs) bs (r - length bs)"
proof (induction bs arbitrary: r)
  case Nil
  then show ?case using emits_done by (simp add: fun_eq_iff [symmetric])
next
  case (Cons b bs)
  then have "emits (r - 1) (write_each (\<lambda>b s. Stream_Write_UINT8 s (unat b)) bs) bs (r - 1 - length bs)"
    by (intro Cons.IH) simp
  moreover have "1 \<le> r" using Cons.prems by simp
  ultimately have "emits r (\<lambda>s. run_bind (Stream_Write_UINT8 s (unat b))
      (\<lambda>_ s. write_each (\<lambda>b s. Stream_Write_UINT8 s (unat b)) bs s)) ([b] @ bs) (r - 1 - length bs)"
    by (intro emits_seq [OF emits_byte])
  then show ?case by simp
qed

lemma per_write_octet_string_emits:
  assumes "mn \<le> len" "length oct_str = unat len"
  shows "emits r (per_write_octet_string A oct_str len mn) (per_length_bytes (len - mn) @ oct_str) 0"
proof -
  have "emits (max 0 (unat len)) (write_each (\<lambda>b s. Stream_Write_UINT8 s (unat b)) oct_str) oct_str 0"
    using assms(2) by (intro emits_end [OF write_bytes_emits]) simp
  then have "emits 0 (\<lambda>s. run_bind (Stream_EnsureRemainingCapacity A s (unat len))
      (\<lambda>_ s. write_each (\<lambda>b s. Stream_Write_UINT8 s (unat b)) oct_str s)) oct_str 0"
    by (intro emits_ensure_seq) simp_all
  from emits_seq [OF per_write_length_emits this] show ?thesis
    using assms by (simp add: per_write_octet_string_def [abs_def] mem_read_def)
qed

lemma per_read_octet_bytes:
  assumes "mn \<le> len" "len - mn \<le> 0x7FFF" "length oct_str = unat len"
    and "readable s" "rest s = per_length_bytes (len - mn) @ oct_str @ bs" "length oct_str' = unat len"
  shows "per_read_octet_string oct_str' len mn s =
    (if oct_str' = oct_str then Done () else Fail)
      (advance (length (per_length_bytes (len - mn)) + unat len) s)"
proof -
  have "unat (len - mn) + unat mn = unat len"
    using assms(1) by (simp add: unat_sub word_le_nat_alt)
  then show ?thesis
    using assms per_read_length_bytes [of s "len - mn" "oct_str @ bs"] and_7FFF [of "len - mn"]
    by (auto simp: per_read_octet_string_def per_check_Some run_guard_def)
qed

fun per_digits :: "byte list \<Rightarrow> byte list" where
  "per_digits [] = []"
| "per_digits [c] = [of_nat ((unat c - 0x30) mod 10 * 16)]"
| "per_digits (c1 # c2 # cs) =
     of_nat ((unat c1 - 0x30) mod 10 * 16 + (unat c2 - 0x30) mod 10) # per_digits cs"

lemma length_per_digits: "length (per_digits cs) = (length cs + 1) div 2"
  by (induction cs rule: per_digits.induct) auto

lemma per_digits_drop:
  "i < length cs \<Longrightarrow> per_digits (drop i cs) =
     of_nat ((unat (cs ! i) - 0x30) mod 10 * 16 +
       (if i + 1 < length cs then (unat (cs ! (i + 1)) - 0x30) mod 10 else 0)) # per_digits (drop (i + 2) cs)"
  by (auto simp: Cons_nth_drop_Suc [symmetric] not_less)

lemma per_numeric_loop_step:
  assumes "length num = unat len" "len < 0xFFFF" "\<forall>c\<in>set num. 0x30 \<le> c" "i < len"
  obtains d where "d \<le> 0xFF" "unat (i + 2) = unat i + 2"
    "per_digits (drop (unat i) num) = of_nat d # per_digits (drop (unat (i + 2)) num)"
    "per_numeric_loop num len i = (\<lambda>s. run_bind (Stream_Write_UINT8 s d)
       (\<lambda>_ s. per_numeric_loop num len (i + 2) s))"
proof
  have bounds: "unat i < unat len" "unat len < 0xFFFF"
    using assms(2,4) by (simp_all add: word_less_nat_alt)
  then show i2: "unat (i + 2) = unat i + 2"
    by (simp add: unat_word_ariths)
  let ?d = "(unat (num ! unat i) - 0x30) mod 10 * 16 +
     (if unat i + 1 < length num then (unat (num ! (unat i + 1)) - 0x30) mod 10 else 0)"
  have "(unat (num ! unat i) - 0x30) mod 10 < 10" "(unat (num ! (unat i + 1)) - 0x30) mod 10 < 10" by simp_all
  then show "?d \<le> 0xFF"
    by (cases "unat i + 1 < length num"; simp only: if_True if_False; linarith)
  show "per_digits (drop (unat i) num) = of_nat ?d # per_digits (drop (unat (i + 2)) num)"
    using bounds assms(1) i2 by (simp add: per_digits_drop)
  have "\<not> num ! unat i < 0x30" "unat i + 1 < length num \<Longrightarrow> \<not> num ! (unat i + 1) < 0x30"
    using assms(1,3) bounds(1) by (auto simp: not_less)
  then show "per_numeric_loop num len i = (\<lambda>s. run_bind (Stream_Write_UINT8 s ?d)
       (\<lambda>_ s. per_numeric_loop num len (i + 2) s))"
    using assms(1,4) bounds
    by (subst per_numeric_loop.simps [abs_def]) (auto simp: Let_def cong: if_cong)
qed

lemma per_numeric_loop_end:
  assumes "length num = unat len" "\<not> i < len"
  shows "per_numeric_loop num len i = (\<lambda>s. Done () s)" "per_digits (drop (unat i) num) = []"
  using assms by (subst per_numeric_loop.simps [abs_def], auto simp: word_less_nat_alt)

lemma per_numeric_loop_emits:
  assumes "length num = unat len" "len < 0xFFFF" "\<forall>c\<in>set num. 0x30 \<le> c"
  shows "(length num - unat i + 1) div 2 \<le> r \<Longrightarrow>
    emits r (per_numeric_loop num len i) (per_digits (drop (unat i) num)) 0"
proof (induction "unat len - unat i" arbitrary: i r rule: less_induct)
  case less
  show ?case
  proof (cases "i < len")
    case False
    then show ?thesis
      using per_numeric_loop_end [OF assms(1)] emits_end [OF emits_done] by simp
  next
    case True
    from per_numeric_loop_step [OF assms True] obtain d where d: "d \<le> 0xFF" "unat (i + 2) = unat i + 2"
      "per_digits (drop (unat i) num) = of_nat d # per_digits (drop (unat (i + 2)) num)"
      "per_numeric_loop num len i = (\<lambda>s. run_bind (Stream_Write_UINT8 s d)
         (\<lambda>_ s. per_numeric_loop num len (i + 2) s))" .
    have "emits (r - 1) (per_numeric_loop num len (i + 2)) (per_digits (drop (unat (i + 2)) num)) 0"
      using less.prems d(2) assms(1) True by (intro less.hyps) (auto simp: word_less_nat_alt)
    moreover have "1 \<le> r"
      using less.prems assms(1) True by (simp add: word_less_nat_alt)
    ultimately show ?thesis
      using emits_seq [OF emits_Write_UINT8 [OF d(1)]] by (fastforce simp: d(3,4))
  qed
qed

lemma per_numeric_loop_writes:
  assumes "length num = unat len" "len < 0xFFFF" "\<forall>c\<in>set num. 0x30 \<le> c"
  shows "writes (per_numeric_loop num len i) (per_digits (drop (unat i) num))"
proof (induction "unat len - unat i" arbitrary: i rule: less_induct)
  case less
  show ?case
  proof (cases "i < len")
    case False
    then show ?thesis
      using per_numeric_loop_end [OF assms(1)] writes_done by simp
  next
    case True
    from per_numeric_loop_step [OF assms True] obtain d where d: "d \<le> 0xFF" "unat (i + 2) = unat i + 2"
      "per_digits (drop (unat i) num) = of_nat d # per_digits (drop (unat (i + 2)) num)"
      "per_numeric_loop num len i = (\<lambda>s. run_bind (Stream_Write_UINT8 s d)
         (\<lambda>_ s. per_numeric_loop num len (i + 2) s))" .
    have "writes (per_numeric_loop num len (i + 2)) (per_digits (drop (unat (i + 2)) num))"
      using d(2) True by (intro less) (auto simp: word_less_nat_alt)
    then show ?thesis
      using writes_seq [OF writes_UINT8 [OF d(1)]] by (fastforce simp: d(3,4))
  qed
qed

lemma per_write_numeric_string_emits:
  assumes "mn \<le> len" "length num = unat len" "len < 0xFFFF" "\<forall>c\<in>set num. 0x30 \<le> c"
  shows "emits r (per_write_numeric_string A num len mn) (per_length_bytes (len - mn) @ per_digits num) 0"
proof -
  have "emits (max 0 (unat len)) (per_numeric_loop num len 0) (per_digits (drop (unat (0 :: u16)) num)) 0"
    using assms(2) by (intro per_numeric_loop_emits [OF assms(2-4)]) auto
  then have "emits 0 (\<lambda>s. run_bind (Stream_EnsureRemainingCapacity A s (unat len))
      (\<lambda>_ s. per_numeric_loop num len 0 s)) (per_digits num) 0"
    by (intro emits_ensure_seq) simp_all
  from emits_seq [OF per_write_length_emits this] show ?thesis
    using assms by (simp add: per_write_numeric_string_def [abs_def])
qed

lemma per_read_numeric_bytes:
  assumes "mn \<le> len" "len - mn \<le> 0x7FFF" "length num = unat len"
    and "readable s" "rest s = per_length_bytes (len - mn) @ per_digits num @ bs"
  shows "per_read_numeric_string mn s =
    Done () (advance (length (per_length_bytes (len - mn) @ per_digits num)) s)"
proof -
  have "unat (len - mn) + unat mn = unat len"
    using assms(1) by (simp add: unat_sub word_le_nat_alt)
  then show ?thesis
    using assms per_read_length_bytes [of s "len - mn" "per_digits num @ bs"] and_7FFF [of "len - mn"]
    by (auto simp: per_read_numeric_string_def length_per_digits Let_def)
qed

text \<open>The counter of a string of 65535 digits steps over the bound and wraps.\<close>

lemma per_numeric_loop_max:
  "even (unat i) \<Longrightarrow> len = 0xFFFF \<Longrightarrow> per_numeric_loop num len i s \<noteq> Done u t"
proof (induction num len i s rule: per_numeric_loop.induct)
  case (1 num len i s)
  have "i < len"
    using 1(2,3) unat_u16_le [of i] by (cases "unat i = 0xFFFF") (auto simp: word_less_nat_alt)
  moreover have "even (unat (i + 2))"
    using 1(2) by (simp add: unat_word_ariths dvd_mod)
  ultimately show ?case
    using 1(1) 1(3)
    by (subst per_numeric_loop.simps) (auto simp: Let_def run_bind_eq_Done)
qed

lemma per_write_object_identifier_writes:
  assumes "length oid = 6"
  shows "writes (per_write_object_identifier A oid) (per_oid_bytes oid)"
proof -
  have seq: "writes (\<lambda>s. run_bind (Stream_Write_UINT8 s (unat b)) (\<lambda>_ s. w s)) (b # bs)"
    if "writes w bs" for b w bs
    using writes_seq [OF writes_byte [of b] that] by simp
  have seq5: "writes (\<lambda>s. run_bind (Stream_Write_UINT8 s 5) (\<lambda>_ s. w s)) (5 # bs)"
    if "writes w bs" for w bs
    using seq [OF that, of 5] by simp
  show ?thesis
    unfolding per_write_object_identifier_def [abs_def] per_oid_bytes_def Let_def assms
    by (simp, intro writes_ensure seq5 seq writes_byte) simp
qed

lemma per_write_octet_string_writes:
  assumes "mn \<le> len" "length oct_str = unat len"
  shows "writes (per_write_octet_string A oct_str len mn) (per_length_bytes (len - mn) @ oct_str)"
proof -
  have "writes (write_each (\<lambda>b s. Stream_Write_UINT8 s (unat b)) oct_str) (concat (map (\<lambda>b. [b]) oct_str))"
    by (intro write_each_writes writes_byte)
  then have "writes (\<lambda>s. run_bind (Stream_EnsureRemainingCapacity A s (unat len))
      (\<lambda>_ s. write_each (\<lambda>b s. Stream_Write_UINT8 s (unat b)) oct_str s)) oct_str"
    using assms(2) by (intro writes_ensure) simp_all
  from writes_seq [OF per_write_length_writes this] show ?thesis
    using assms by (simp add: per_write_octet_string_def [abs_def] mem_read_def)
qed

lemma per_write_numeric_string_room:
  assumes "mn \<le> len" "length num = unat len" "len < 0xFFFF" "\<forall>c\<in>set num. 0x30 \<le> c"
    and "wf_stream s" "room (2 + unat len) s"
  shows "per_write_numeric_string A num len mn s =
    Done () (put (per_digits num) (put (per_length_bytes (len - mn)) s))"
proof -
  let ?bs = "per_length_bytes (len - mn)"
  have "length ?bs \<le> 2" by (simp add: length_per_length_bytes)
  then have r: "room (length ?bs + unat len) s" "room (length ?bs) s"
    "room (length ?bs + (unat len + 1) div 2) s"
    using assms(6) by (auto elim!: room_mono)
  have "per_write_length A (len - mn) s = Done () (put ?bs s)"
    using per_write_length_writes [of A "len - mn"] assms(5) r(2) by (simp add: writes_def)
  moreover have "per_numeric_loop num len 0 (put ?bs s) = Done () (put (per_digits num) (put ?bs s))"
    using per_numeric_loop_writes [OF assms(2,3,4), of 0] wf_put [OF assms(5) r(2)] r(3) assms(2)
    by (simp add: writes_def length_per_digits)
  ultimately show ?thesis
    using assms(1) r(1) ensure_room [OF wf_put [OF assms(5) r(2)], of "unat len" A]
    by (simp add: per_write_numeric_string_def)
qed

section \<open>Properties\<close>

text \<open>C5. Every PER reader is memory safe on every input. On any readable stream it does not abort,
  whether it succeeds or fails it only moves the position forward within the stream's length, and
  what it returns is in range: a length has at most 15 bits, an integer at most 16, a 16-bit integer
  is at least its minimum and an enumerated value is below its count. The two readers that compare
  with an expected block need that block from their caller: six bytes for an object identifier, and
  at least the given length for an octet string.\<close>

theorem per_readers_safe:
  assumes "readable s" "6 \<le> length oid" "unat str_len \<le> length str"
  shows "safe_run (reads_from s) (\<lambda>len _. unat len \<le> 0x7FFF) (per_read_length s)
    \<and> safe_run (reads_from s) (\<lambda>_ _. True) (per_read_choice s)
    \<and> safe_run (reads_from s) (\<lambda>_ _. True) (per_read_selection s)
    \<and> safe_run (reads_from s) (\<lambda>_ _. True) (per_read_number_of_sets s)
    \<and> safe_run (reads_from s) (\<lambda>_ _. True) (per_read_padding len s)
    \<and> safe_run (reads_from s) (\<lambda>n _. unat n \<le> 0xFFFF) (per_read_integer s)
    \<and> safe_run (reads_from s) (\<lambda>v _. mn \<le> v) (per_read_integer16 mn s)
    \<and> safe_run (reads_from s) (\<lambda>e _. e < cnt) (per_read_enumerated cnt s)
    \<and> safe_run (reads_from s) (\<lambda>_ _. True) (per_read_object_identifier oid s)
    \<and> safe_run (reads_from s) (\<lambda>_ _. True) (per_read_octet_string str str_len mn s)
    \<and> safe_run (reads_from s) (\<lambda>_ _. True) (per_read_numeric_string mn s)"
  by (intro conjI; rule consumes_run [OF _ assms(1)]; rule safe_intros; rule assms)

theorem per_readers_safe_witness:
  "readable (Stream_StaticInit [2, 1, 44] 3) \<and>
   safe_run (reads_from (Stream_StaticInit [2, 1, 44] 3)) (\<lambda>n _. unat n \<le> 0xFFFF)
     (per_read_integer (Stream_StaticInit [2, 1, 44] 3)) \<and>
   safe_run (reads_from (Stream_StaticInit [2, 1, 44] 3)) (\<lambda>_ _. True)
     (per_read_octet_string [1, 44] 2 0 (Stream_StaticInit [2, 1, 44] 3))"
proof -
  have "readable (Stream_StaticInit [2, 1, 44] 3)"
    by (simp add: readable_def Stream_StaticInit_def wf_stream_def PTRDIFF_MAX_def)
  moreover have "6 \<le> length [0, 0, 20, 124, 0, 1 :: byte]" "unat (2 :: u16) \<le> length [1, 44 :: byte]" by simp_all
  ultimately show ?thesis using per_readers_safe [of _ "[0, 0, 20, 124, 0, 1]" 2 "[1, 44]" 0 0] by blast
qed

text \<open>C6. The scalar PER encodings round-trip, whatever the allocator does. Writing a value to any
  well-formed stream never aborts; when it succeeds, sealing the length and reading from the old
  position gives the value back and ends exactly at the end of what was written. This covers lengths
  up to 15 bits, integers up to 16 bits, 16-bit integers above a minimum and enumerated values below
  a count.\<close>

theorem per_scalars_round_trip:
  assumes "wf_stream s"
  shows "(len \<le> 0x7FFF \<longrightarrow> per_write_length A len s \<noteq> Abort \<and>
      (\<forall>t. per_write_length A len s = Done () t \<longrightarrow>
        reread (pointer s) per_read_length t = Done len (t\<lparr>slength := pointer t\<rparr>)))
    \<and> (n \<le> 0xFFFF \<longrightarrow> per_write_integer A n s \<noteq> Abort \<and>
      (\<forall>t. per_write_integer A n s = Done () t \<longrightarrow>
        reread (pointer s) per_read_integer t = Done n (t\<lparr>slength := pointer t\<rparr>)))
    \<and> (mn \<le> v \<longrightarrow> per_write_integer16 A mn v s \<noteq> Abort \<and>
      (\<forall>t. per_write_integer16 A mn v s = Done () t \<longrightarrow>
        reread (pointer s) (per_read_integer16 mn) t = Done v (t\<lparr>slength := pointer t\<rparr>)))
    \<and> (e < cnt \<longrightarrow> per_write_enumerated A cnt e s \<noteq> Abort \<and>
      (\<forall>t. per_write_enumerated A cnt e s = Done () t \<longrightarrow>
        reread (pointer s) (per_read_enumerated cnt) t = Done e (t\<lparr>slength := pointer t\<rparr>)))"
  using assms
  by (auto simp: per_len.growing_no_abort per_integer.growing_no_abort per_integer16.growing_no_abort
      per_enumerated.growing_no_abort per_len.growing_round_trip per_integer.growing_round_trip
      per_integer16.growing_round_trip per_enumerated.growing_round_trip)

theorem per_scalars_round_trip_witness:
  "per_write_integer plain_allocator 300 (Stream_StaticInit [0, 0, 0, 0] 4) \<noteq> Abort \<and>
   (\<exists>t. per_write_integer plain_allocator 300 (Stream_StaticInit [0, 0, 0, 0] 4) = Done () t \<and>
     reread 0 per_read_integer t = Done 300 (t\<lparr>slength := pointer t\<rparr>))"
proof -
  let ?s = "Stream_StaticInit [0, 0, 0, 0] 4"
  have wf: "wf_stream ?s" by (simp add: Stream_StaticInit_def wf_stream_def PTRDIFF_MAX_def)
  have "\<exists>t. per_write_integer plain_allocator 300 ?s = Done () t"
    using per_write_integer_bytes(1) [of plain_allocator 300] wf
    by (simp add: writes_def per_integer_bytes_def room_def Stream_StaticInit_def)
  moreover have "pointer ?s = 0" by (simp add: Stream_StaticInit_def)
  moreover have "(300 :: u32) \<le> 0xFFFF" by simp
  ultimately show ?thesis
    using per_scalars_round_trip [OF wf, of 0 plain_allocator 300 0 0 0 1] by metis
qed

text \<open>C37. The two-byte form of a PER length carries 15 bits. Every length can be written, but reading
  it back gives its low 15 bits: a length of 32768 or more comes back without its top bit.\<close>

theorem per_length_low_bits:
  assumes "wf_stream s" "per_write_length A len s = Done () t"
  shows "reread (pointer s) per_read_length t = Done (len AND 0x7FFF) (t\<lparr>slength := pointer t\<rparr>)"
  using emits_reread(1) [OF per_write_length_emits assms, where rd = per_read_length]
    emits_reread(2-4) [OF per_write_length_emits assms]
    per_read_length_bytes [of "rewound (pointer s) t" len "[]"]
    advance_rewound [of "pointer s" "length (per_length_bytes len)" t]
  by simp

theorem per_length_low_bits_witness:
  "\<exists>t. per_write_length plain_allocator 0x8005 (Stream_StaticInit [0, 0] 2) = Done () t \<and>
     reread 0 per_read_length t = Done 5 (t\<lparr>slength := pointer t\<rparr>)"
proof -
  let ?s = "Stream_StaticInit [0, 0] 2"
  have wf: "wf_stream ?s" by (simp add: Stream_StaticInit_def wf_stream_def PTRDIFF_MAX_def)
  obtain t where t: "per_write_length plain_allocator 0x8005 ?s = Done () t"
    using per_write_length_writes [of plain_allocator "0x8005"] wf
    by (auto simp: writes_def per_length_bytes_def room_def Stream_StaticInit_def)
  with per_length_low_bits [OF wf t] show ?thesis
    by (auto simp: Stream_StaticInit_def)
qed

text \<open>C39. \<open>per_write_integer\<close> writes a 32-bit form that \<open>per_read_integer\<close> rejects: a value above
  65535 that was written successfully is never read back.\<close>

theorem per_wide_integer_rejected:
  assumes "wf_stream s" "0xFFFF < n" "per_write_integer A n s = Done () t"
  shows "\<exists>u. reread (pointer s) per_read_integer t = Fail u"
  using emits_reread(1) [OF per_write_integer_bytes(2) assms(1,3), where rd = per_read_integer]
    emits_reread(2,3) [OF per_write_integer_bytes(2) assms(1,3)]
    per_read_wide_integer [OF assms(2), of "rewound (pointer s) t" "[]"]
  by auto

theorem per_wide_integer_rejected_witness:
  "\<exists>t u. per_write_integer plain_allocator 65536 (Stream_StaticInit [0, 0, 0, 0, 0] 5) = Done () t \<and>
     reread 0 per_read_integer t = Fail u"
proof -
  let ?s = "Stream_StaticInit [0, 0, 0, 0, 0] 5"
  have wf: "wf_stream ?s" by (simp add: Stream_StaticInit_def wf_stream_def PTRDIFF_MAX_def)
  obtain t where t: "per_write_integer plain_allocator 65536 ?s = Done () t"
    using per_write_integer_bytes(1) [of plain_allocator 65536] wf
    by (auto simp: writes_def per_integer_bytes_def room_def Stream_StaticInit_def)
  have "(0xFFFF :: u32) < 65536" by simp
  from per_wide_integer_rejected [OF wf this t] t show ?thesis
    by (auto simp: Stream_StaticInit_def)
qed

text \<open>C34. Object identifiers compare exactly. For a well-formed six-part identifier, writing it and
  then checking the bytes against another one succeeds if and only if the two are equal, and both
  the check that succeeds and the one that fails end after the six bytes of the encoding.\<close>

theorem per_object_identifier_exact:
  assumes "wf_stream s" "length oid = 6" "length oid' = 6"
    and "unat (oid ! 1) < 40" "unat (oid ! 0) * 40 + unat (oid ! 1) \<le> 0xFF"
    and "per_write_object_identifier A oid s = Done () t"
  shows "reread (pointer s) (per_read_object_identifier oid') t =
    (if oid' = oid then Done () else Fail) (t\<lparr>slength := pointer t\<rparr>)"
proof -
  note t = emits_reread [OF per_write_object_identifier_emits [OF assms(2)] assms(1,6)]
  have "length (per_oid_bytes oid) = 6" by (simp add: per_oid_bytes_def)
  then have "advance 6 (rewound (pointer s) t) = t\<lparr>slength := pointer t\<rparr>"
    using t(4) by (intro advance_rewound) simp
  then show ?thesis
    using t(1) [where rd = "per_read_object_identifier oid'"] t(2,3) assms
      per_read_oid_bytes [of oid "rewound (pointer s) t" "[]" oid'] by simp
qed

theorem per_object_identifier_exact_witness:
  "\<exists>t. per_write_object_identifier plain_allocator [0, 0, 20, 124, 0, 1] (Stream_StaticInit (replicate 6 0) 6)
       = Done () t \<and>
     reread 0 (per_read_object_identifier [0, 0, 20, 124, 0, 1]) t = Done () (t\<lparr>slength := pointer t\<rparr>)"
proof -
  let ?s = "Stream_StaticInit (replicate 6 0) 6" and ?oid = "[0, 0, 20, 124, 0, 1] :: byte list"
  have wf: "wf_stream ?s" by (simp add: Stream_StaticInit_def wf_stream_def PTRDIFF_MAX_def)
  obtain t where t: "per_write_object_identifier plain_allocator ?oid ?s = Done () t"
    using per_write_object_identifier_writes [of ?oid plain_allocator] wf
    by (auto simp: writes_def per_oid_bytes_def room_def Stream_StaticInit_def)
  have "length ?oid = 6" "unat (?oid ! 1) < 40" "unat (?oid ! 0) * 40 + unat (?oid ! 1) \<le> 0xFF" by simp_all
  from per_object_identifier_exact [OF wf this(1) this(1) this(2,3) t] t show ?thesis
    by (auto simp: Stream_StaticInit_def)
qed

text \<open>C35. Octet strings compare exactly. Writing a string of \<open>len\<close> bytes and checking the result
  against another string of \<open>len\<close> bytes with the same minimum succeeds if and only if the bytes are
  the same.\<close>

theorem per_octet_string_exact:
  assumes "wf_stream s" "mn \<le> len" "len - mn \<le> 0x7FFF" "length str = unat len" "length str' = unat len"
    and "per_write_octet_string A str len mn s = Done () t"
  shows "reread (pointer s) (per_read_octet_string str' len mn) t =
    (if str' = str then Done () else Fail) (t\<lparr>slength := pointer t\<rparr>)"
proof -
  note t = emits_reread [OF per_write_octet_string_emits [OF assms(2,4)] assms(1,6)]
  have "advance (length (per_length_bytes (len - mn)) + unat len) (rewound (pointer s) t) =
      t\<lparr>slength := pointer t\<rparr>"
    using t(4) assms(4) by (intro advance_rewound) simp
  then show ?thesis
    using t(1) [where rd = "per_read_octet_string str' len mn"] t(2,3) assms(5)
      per_read_octet_bytes [OF assms(2-4), of "rewound (pointer s) t" "[]" str'] by simp
qed

theorem per_octet_string_exact_witness:
  "\<exists>t. per_write_octet_string plain_allocator [68, 117, 99, 97] 4 4 (Stream_StaticInit (replicate 5 0) 5)
       = Done () t \<and>
     reread 0 (per_read_octet_string [77, 99, 68, 110] 4 4) t = Fail (t\<lparr>slength := pointer t\<rparr>)"
proof -
  let ?s = "Stream_StaticInit (replicate 5 0) 5" and ?duca = "[68, 117, 99, 97] :: byte list"
    and ?mcdn = "[77, 99, 68, 110] :: byte list"
  have wf: "wf_stream ?s" by (simp add: Stream_StaticInit_def wf_stream_def PTRDIFF_MAX_def)
  obtain t where t: "per_write_octet_string plain_allocator ?duca 4 4 ?s = Done () t"
    using per_write_octet_string_writes [of 4 4 ?duca plain_allocator] wf
    by (auto simp: writes_def per_length_bytes_def room_def Stream_StaticInit_def)
  have "(4 :: u16) \<le> 4" "(4 :: u16) - 4 \<le> 0x7FFF" "length ?duca = unat (4 :: u16)"
    "length ?mcdn = unat (4 :: u16)" "?mcdn \<noteq> ?duca" by simp_all
  from per_octet_string_exact [OF wf this(1-4) t] this(5) t show ?thesis
    by (auto simp: Stream_StaticInit_def)
qed

text \<open>C36. A numeric string is skipped by its length. For fewer than 65535 digits, at least the
  minimum and at most 32767 above it, writing never aborts, and when it succeeds the reader with the
  same minimum skips exactly the bytes written, two digits to a byte.\<close>

theorem per_numeric_string_skip:
  assumes "wf_stream s" "mn \<le> len" "len - mn \<le> 0x7FFF" "len < 0xFFFF"
    and "length num = unat len" "\<forall>c\<in>set num. 0x30 \<le> c"
  shows "per_write_numeric_string A num len mn s \<noteq> Abort \<and>
    (\<forall>t. per_write_numeric_string A num len mn s = Done () t \<longrightarrow>
      pointer t = pointer s + length (per_length_bytes (len - mn)) + (unat len + 1) div 2 \<and>
      reread (pointer s) (per_read_numeric_string mn) t = Done () (t\<lparr>slength := pointer t\<rparr>))"
proof (intro conjI allI impI)
  note em = per_write_numeric_string_emits [OF assms(2,5,4,6)]
  show "per_write_numeric_string A num len mn s \<noteq> Abort"
    using em [of 0 A] assms(1) by (auto simp: emits_def room_def wf_stream_def dest: safe_run_not_Abort)
  fix t assume t: "per_write_numeric_string A num len mn s = Done () t"
  note re = emits_reread [OF em assms(1) t]
  show "pointer t = pointer s + length (per_length_bytes (len - mn)) + (unat len + 1) div 2"
    using re(4) assms(5) by (simp add: length_per_digits)
  show "reread (pointer s) (per_read_numeric_string mn) t = Done () (t\<lparr>slength := pointer t\<rparr>)"
    using re(1) [where rd = "per_read_numeric_string mn"] re(2-4)
      per_read_numeric_bytes [OF assms(2,3,5), of "rewound (pointer s) t" "[]"]
      advance_rewound [of "pointer s" "length (per_length_bytes (len - mn) @ per_digits num)" t] by simp
qed

theorem per_numeric_string_skip_witness:
  "\<exists>t. per_write_numeric_string plain_allocator [49, 50, 51] 3 1 (Stream_StaticInit (replicate 8 0) 8) = Done () t
     \<and> pointer t = 3 \<and> reread 0 (per_read_numeric_string 1) t = Done () (t\<lparr>slength := pointer t\<rparr>)"
proof -
  let ?s = "Stream_StaticInit (replicate 8 0) 8" and ?num = "[49, 50, 51] :: byte list"
  have s: "wf_stream ?s" "room (2 + unat (3 :: u16)) ?s"
    by (simp_all add: Stream_StaticInit_def wf_stream_def PTRDIFF_MAX_def room_def)
  have n: "\<forall>c\<in>set ?num. 0x30 \<le> c" "(1 :: u16) \<le> 3" "(3 :: u16) - 1 \<le> 0x7FFF" "(3 :: u16) < 0xFFFF"
    "length ?num = unat (3 :: u16)" by simp_all
  show ?thesis
    using per_numeric_string_skip [OF s(1) n(2-5,1), of plain_allocator]
      per_write_numeric_string_room [OF n(2,5,4,1) s, of plain_allocator]
    by (simp add: per_length_bytes_def Stream_StaticInit_def)
qed

text \<open>C40. The loop counter of \<open>per_write_numeric_string\<close> is a \<open>UINT16\<close> stepped by two. For 65535
  digits it jumps over the bound and wraps, so the function never succeeds, however large the stream
  and whatever the digits.\<close>

theorem per_numeric_string_max_never_succeeds:
  "per_write_numeric_string A num 0xFFFF mn s \<noteq> Done u t"
  by (auto simp: per_write_numeric_string_def run_bind_eq_Done Let_def per_numeric_loop_max)

end
