(* ===== verification/X224.thy ===== *)
theory X224
  imports Ber Per
begin

text \<open>
  The two framing layers under every slow-path RDP PDU: TPKT packets (\<open>libfreerdp/core/tpkt.c\<close>) and
  class 0 X.224 TPDUs (\<open>libfreerdp/core/tpdu.c\<close>). The theory shows the header readers safe on every
  input, what a successful read promises about the bytes behind the header, that written headers are
  read back, and how the length fields bound each other.
\<close>

section \<open>TPKT\<close>

definition tpkt_verify_header :: "wStream \<Rightarrow> (int, wStream) outcome" where
  "tpkt_verify_header s =
     (case Stream_CheckAndLogRequiredLength s 1 of
        Abort \<Rightarrow> Abort
      | Fail s \<Rightarrow> Done (- 1) s
      | Done _ s \<Rightarrow> run_bind (stream_read_u8 s False) (\<lambda>version s. Done (if version = 3 then 1 else 0) s))"

definition tpkt_read_header :: "wStream \<Rightarrow> (u16, wStream) outcome" where
  "tpkt_read_header s =
     run_bind (Stream_CheckAndLogRequiredLength s 1) (\<lambda>_ s.
     run_bind (stream_read_u8 s False) (\<lambda>version s.
       if version = 3 then
         run_bind (Stream_CheckAndLogRequiredLength s 4) (\<lambda>_ s.
         run_bind (Stream_Seek s 2) (\<lambda>_ s.
         run_bind (stream_read_u16_be s True) (\<lambda>len s.
           if len < 7 then Fail s
           else
             run_bind (Stream_CheckAndLogRequiredLength s (unat len - 4)) (\<lambda>_ s. Done len s))))
       else Done 0 s))"

definition tpkt_ensure_stream_consumed :: "nat \<Rightarrow> wStream \<Rightarrow> (unit, wStream) outcome" where
  "tpkt_ensure_stream_consumed len s =
     (if len > 0xFFFF then Fail s
      else run_bind (Stream_GetRemainingLength s) (\<lambda>rem s. if rem > 0 then Fail s else Done () s))"

definition tpkt_write_header :: "nat \<Rightarrow> wStream \<Rightarrow> (unit, wStream) outcome" where
  "tpkt_write_header len s =
     run_bind (Stream_CheckAndLogRequiredCapacityOfSize s 4 1) (\<lambda>_ s.
     run_bind (Stream_Write_UINT8 s 3) (\<lambda>_ s.
     run_bind (Stream_Write_UINT8 s 0) (\<lambda>_ s.
     run_bind (run_assert (len \<le> 0xFFFF) s) (\<lambda>_ s.
       Stream_Write_UINT16_BE s len))))"

section \<open>X.224\<close>

datatype X224_TPDU_TYPE = X224_TPDU_CONNECTION_REQUEST | X224_TPDU_CONNECTION_CONFIRM |
  X224_TPDU_DISCONNECT_REQUEST | X224_TPDU_DATA | X224_TPDU_ERROR

definition tpdu_code :: "X224_TPDU_TYPE \<Rightarrow> byte" where
  "tpdu_code c =
     (case c of
        X224_TPDU_CONNECTION_REQUEST \<Rightarrow> 0xE0
      | X224_TPDU_CONNECTION_CONFIRM \<Rightarrow> 0xD0
      | X224_TPDU_DISCONNECT_REQUEST \<Rightarrow> 0x80
      | X224_TPDU_DATA \<Rightarrow> 0xF0
      | X224_TPDU_ERROR \<Rightarrow> 0x70)"

text \<open>The result is the pair of the code and the length indicator.\<close>

definition tpdu_read_header :: "u16 \<Rightarrow> wStream \<Rightarrow> (byte \<times> byte, wStream) outcome" where
  "tpdu_read_header tpktlength s =
     run_bind (Stream_CheckAndLogRequiredLength s 3) (\<lambda>_ s.
     run_bind (stream_read_u8 s True) (\<lambda>li s.
     run_bind (stream_read_u8 s True) (\<lambda>code s.
       if unat li + 4 > unat tpktlength then Fail s
       else if code = tpdu_code X224_TPDU_DATA then run_bind (Stream_Seek s 1) (\<lambda>_ s. Done (code, li) s)
       else run_bind (Stream_SafeSeek s 5) (\<lambda>_ s. Done (code, li) s))))"

definition tpdu_write_header :: "u16 \<Rightarrow> byte \<Rightarrow> wStream \<Rightarrow> (unit, wStream) outcome" where
  "tpdu_write_header len code s =
     run_bind (Stream_CheckAndLogRequiredCapacityOfSize s 3 1) (\<lambda>_ s.
     run_bind (run_assert (len \<le> 0xFF) s) (\<lambda>_ s.
     run_bind (Stream_Write_UINT8 s (unat len)) (\<lambda>_ s.
     run_bind (Stream_Write_UINT8 s (unat code)) (\<lambda>_ s.
       if code = tpdu_code X224_TPDU_DATA then Stream_Write_UINT8 s 0x80
       else
         run_bind (Stream_CheckAndLogRequiredCapacityOfSize s 5 1) (\<lambda>_ s.
         run_bind (Stream_Write_UINT16 s 0) (\<lambda>_ s.
         run_bind (Stream_Write_UINT16 s 0) (\<lambda>_ s.
           Stream_Write_UINT8 s 0)))))))"

definition tpdu_read_connection_request :: "u16 \<Rightarrow> wStream \<Rightarrow> (byte, wStream) outcome" where
  "tpdu_read_connection_request tpktlength s =
     run_bind (tpdu_read_header tpktlength s) (\<lambda>(code, li) s.
       if code \<noteq> tpdu_code X224_TPDU_CONNECTION_REQUEST then Fail s else Done li s)"

definition tpdu_write_connection_request :: "u16 \<Rightarrow> wStream \<Rightarrow> (unit, wStream) outcome" where
  "tpdu_write_connection_request len s = tpdu_write_header len (tpdu_code X224_TPDU_CONNECTION_REQUEST) s"

definition tpdu_read_connection_confirm :: "u16 \<Rightarrow> wStream \<Rightarrow> (byte, wStream) outcome" where
  "tpdu_read_connection_confirm tpktlength s =
     (let position = Stream_GetPosition s in
      run_bind (tpdu_read_header tpktlength s) (\<lambda>(code, li) s.
        if code \<noteq> tpdu_code X224_TPDU_CONNECTION_CONFIRM then Fail s
        else
          let bytes_read = size_sub (size_sub (Stream_GetPosition s) position) 1 in
          run_bind (Stream_CheckAndLogRequiredLength s (size_sub (unat li) bytes_read)) (\<lambda>_ s. Done li s)))"

definition tpdu_write_connection_confirm :: "u16 \<Rightarrow> wStream \<Rightarrow> (unit, wStream) outcome" where
  "tpdu_write_connection_confirm len s = tpdu_write_header len (tpdu_code X224_TPDU_CONNECTION_CONFIRM) s"

definition tpdu_write_disconnect_request :: "u16 \<Rightarrow> wStream \<Rightarrow> (unit, wStream) outcome" where
  "tpdu_write_disconnect_request len s = tpdu_write_header len (tpdu_code X224_TPDU_DISCONNECT_REQUEST) s"

definition tpdu_write_data :: "wStream \<Rightarrow> (unit, wStream) outcome" where
  "tpdu_write_data s = tpdu_write_header 2 (tpdu_code X224_TPDU_DATA) s"

definition tpdu_read_data :: "u16 \<Rightarrow> wStream \<Rightarrow> (u16, wStream) outcome" where
  "tpdu_read_data tpktlength s =
     run_bind (tpdu_read_header tpktlength s) (\<lambda>(code, li) s.
       if code \<noteq> tpdu_code X224_TPDU_DATA then Fail s else Done (ucast li) s)"

section \<open>Results of the readers\<close>

lemma tpkt_read_header_eq:
  assumes "readable s"
  shows "tpkt_read_header s =
    (if rest s = [] then Fail s
     else if hd (rest s) \<noteq> 3 then Done 0 s
     else if length (rest s) < 4 then Fail s
     else let len = winpr_Data_Get_UINT16_BE (take 2 (drop 2 (rest s))) in
       if len < 7 \<or> length (rest s) < unat len then Fail (advance 4 s) else Done len (advance 4 s))"
proof (cases "rest s")
  case (Cons b bs)
  show ?thesis
  proof (cases "b = 3 \<and> 4 \<le> length (rest s)")
    case True
    have adv: "readable (advance 2 s)" "rest (advance 2 s) = drop 2 (rest s)" "advance 2 (advance 2 s) = advance 4 s"
      "rest (advance 4 s) = drop 4 (rest s)" "readable (advance 4 s)"
      using assms True by simp_all
    have rd: "stream_read_u16_be (advance 2 s) True =
        Done (winpr_Data_Get_UINT16_BE (take 2 (drop 2 (rest s)))) (advance 4 s)"
    proof -
      have "2 \<le> length (rest (advance 2 s))" using True adv(2) by (simp, linarith)
      from read_u16_be_rest [OF adv(1) this] show ?thesis by (simp only: adv)
    qed
    have pk: "stream_read_u8 s False = Done 3 s"
      using Cons True assms by (simp add: read_u8_peek)
    have chk: "Stream_CheckAndLogRequiredLength (advance 4 s) (n - 4) =
        (if length (rest s) < n then Fail (advance 4 s) else Done () (advance 4 s))" if "7 \<le> n" for n
      using adv(4,5) that True by (auto simp: run_guard_def)
    have seek: "Stream_Seek s 2 = Done () (advance 2 s)" using assms True by simp
    show ?thesis
      using True Cons assms chk [of "unat (winpr_Data_Get_UINT16_BE (take 2 (drop 2 (rest s))))"]
      by (simp add: tpkt_read_header_def pk seek rd Let_def word_less_nat_alt run_guard_def)
  next
    case False
    then show ?thesis
      using Cons assms by (auto simp: tpkt_read_header_def read_u8_peek run_guard_def)
  qed
qed (use assms in \<open>simp add: tpkt_read_header_def run_guard_def\<close>)

lemma tpdu_read_header_eq:
  assumes "readable s"
  shows "tpdu_read_header tpktlength s =
    (if length (rest s) < 3 then Fail s
     else if unat (rest s ! 0) + 4 > unat tpktlength then Fail (advance 2 s)
     else if rest s ! 1 = 0xF0 then Done (rest s ! 1, rest s ! 0) (advance 3 s)
     else if length (rest s) < 7 then Fail (advance 2 s)
     else Done (rest s ! 1, rest s ! 0) (advance 7 s))"
proof (cases "length (rest s) < 3")
  case True
  then show ?thesis using assms by (simp add: tpdu_read_header_def run_guard_def)
next
  case False
  then obtain li code d bs where r: "rest s = li # code # d # bs"
    by (cases "rest s" rule: list.exhaust; cases "tl (rest s)"; cases "tl (tl (rest s))") auto
  have adv: "advance (Suc 0) (advance (Suc 0) s) = advance 2 s" "advance (Suc 0) (advance 2 s) = advance 3 s"
      "advance 5 (advance 2 s) = advance 7 s" "rest (advance 2 s) = d # bs" "readable (advance 2 s)"
    using assms r by (simp_all add: eval_nat_numeral)
  show ?thesis
    using assms r adv
    by (simp add: tpdu_read_header_def Stream_SafeSeek_def tpdu_code_def run_guard_def) 
qed

lemma tpkt_read_header_consumes [safe_intros]:
  "consumes r tpkt_read_header (\<lambda>len. len = 0 \<or> 7 \<le> len) 0"
  unfolding tpkt_read_header_def [abs_def]
  by (rule safe_intros | (simp add: not_less; fail))+

lemma tpdu_read_header_consumes [safe_intros]:
  "consumes r (tpdu_read_header tpktlength) (\<lambda>(code, li). unat li + 4 \<le> unat tpktlength) 0"
  unfolding tpdu_read_header_def [abs_def] Stream_SafeSeek_def
  by (rule safe_intros | (simp; fail))+

lemma tpdu_pair: "(\<lambda>(code, li) s. f code li s) = (\<lambda>x s. case x of (code, li) \<Rightarrow> f code li s)"
  by (simp add: fun_eq_iff split: prod.splits)

lemma tpdu_read_consumes [safe_intros]:
  "consumes r (tpdu_read_connection_request tpktlength) (\<lambda>li. unat li + 4 \<le> unat tpktlength) 0"
  "consumes r (tpdu_read_data tpktlength) (\<lambda>li. unat li + 4 \<le> unat tpktlength) 0"
  unfolding tpdu_read_connection_request_def [abs_def] tpdu_read_data_def [abs_def] tpdu_pair
  by (rule safe_intros | (simp; fail))+

lemma tpdu_read_connection_confirm_eq:
  assumes "readable s"
  shows "tpdu_read_connection_confirm tpktlength s =
    (if length (rest s) < 3 then Fail s
     else if unat (rest s ! 0) + 4 > unat tpktlength then Fail (advance 2 s)
     else if rest s ! 1 = 0xF0 then Fail (advance 3 s)
     else if length (rest s) < 7 then Fail (advance 2 s)
     else if rest s ! 1 = 0xD0 \<and> 6 \<le> unat (rest s ! 0) \<and> unat (rest s ! 0) < length (rest s)
       then Done (rest s ! 0) (advance 7 s)
     else Fail (advance 7 s))"
proof (cases "length (rest s) < 7 \<or> rest s ! 1 \<noteq> 0xD0 \<or> unat (rest s ! 0) + 4 > unat tpktlength")
  case True
  then show ?thesis
    using tpdu_read_header_eq [OF assms, of tpktlength]
    by (auto simp: tpdu_read_connection_confirm_def Let_def tpdu_code_def)
next
  case False
  let ?li = "unat (rest s ! 0)"
  have len: "7 \<le> length (rest s)" using False by simp
  have hd: "tpdu_read_header tpktlength s = Done (0xD0, rest s ! 0) (advance 7 s)"
    using tpdu_read_header_eq [OF assms, of tpktlength] False by auto
  have "pointer (advance 7 s) = pointer s + 7" "pointer s + 7 \<le> PTRDIFF_MAX"
    using assms len rest_capacity [OF assms, of 7]
    by (auto simp: advance_def readable_def wf_stream_def)
  then have br: "size_sub (size_sub (Stream_GetPosition (advance 7 s)) (Stream_GetPosition s)) 1 = 6"
    by (simp add: Stream_GetPosition_def PTRDIFF_MAX_def)
  have adv: "readable (advance 7 s)" "length (rest (advance 7 s)) = length (rest s) - 7"
    using assms len by simp_all
  have "length (rest s) \<le> PTRDIFF_MAX"
    using assms by (auto simp: rest_def readable_def wf_stream_def)
  then have sub: "size_sub ?li 6 \<le> length (rest s) - 7 \<longleftrightarrow> 6 \<le> ?li \<and> ?li < length (rest s)"
  proof (cases "6 \<le> ?li")
    case True
    then have "size_sub ?li 6 = ?li - 6"
      using unat_u8_le [of "rest s ! 0"] by simp
    then show ?thesis using True len by auto
  next
    case no: False
    then have "size_sub ?li 6 = ?li + (2 ^ 64 - 6)"
      by (simp add: size_sub_def)
    then show ?thesis using no \<open>length (rest s) \<le> PTRDIFF_MAX\<close> by (simp add: PTRDIFF_MAX_def)
  qed
  show ?thesis
    using False len sub
    by (simp add: tpdu_read_connection_confirm_def Let_def hd br [unfolded One_nat_def] tpdu_code_def check_at [OF adv(1)] adv(2)
      del: check_length)
qed

section \<open>Written headers\<close>

lemmas x224_writes = writes_as_require writes_as_assert writes_as_seq [OF writes_as_byte]
  writes_as_seq [OF writes_as_UINT8] writes_as_seq [OF writes_as_UINT16] writes_as_UINT16_BE
  writes_as_UINT8 writes_as_byte

lemma Data_Write_UINT16_0: "winpr_Data_Write_UINT16 0 = [0, 0]"
  by (simp add: winpr_Data_Write_UINT16_def)

lemma tpkt_write_header_writes:
  assumes "len \<le> 0xFFFF"
  shows "writes_as () (tpkt_write_header len) ([3, 0] @ winpr_Data_Write_UINT16_BE (of_nat len))"
  unfolding tpkt_write_header_def [abs_def]
  by (rule x224_writes | (use assms in simp; fail))+

definition tpdu_header_bytes :: "u16 \<Rightarrow> byte \<Rightarrow> byte list" where
  "tpdu_header_bytes len code =
     (if code = 0xF0 then [ucast len, code, 0x80] else [ucast len, code, 0, 0, 0, 0, 0])"

lemma tpdu_write_header_writes:
  assumes "len \<le> 0xFF"
  shows "writes_as () (tpdu_write_header len code) (tpdu_header_bytes len code)"
proof -
  have len: "unat len \<le> 0xFF" "(of_nat (unat len) :: byte) = ucast len"
    using assms by (simp_all add: word_le_nat_alt word_of_nat_unat)
  have "writes_as () (\<lambda>s. if code = tpdu_code X224_TPDU_DATA then Stream_Write_UINT8 s 0x80
       else run_bind (Stream_CheckAndLogRequiredCapacityOfSize s 5 1) (\<lambda>_ s.
         run_bind (Stream_Write_UINT16 s 0) (\<lambda>_ s.
         run_bind (Stream_Write_UINT16 s 0) (\<lambda>_ s. Stream_Write_UINT8 s 0))))
     (if code = 0xF0 then [0x80] else [0, 0, 0, 0, 0])" (is "writes_as () ?tail ?tbs")
  proof (cases "code = 0xF0")
    case True
    then show ?thesis using writes_as_UINT8 [of "0x80"] by (simp add: tpdu_code_def)
  next
    case False
    then show ?thesis
      by (simp only: tpdu_code_def X224_TPDU_TYPE.case if_False)
        (rule x224_writes | (simp add: Data_Write_UINT16_0; fail))+
  qed
  note tail = this
  have bytes: "tpdu_header_bytes len code = [of_nat (unat len)] @ [code] @ ?tbs"
    by (simp add: len(2) tpdu_header_bytes_def)
  show ?thesis
    unfolding tpdu_write_header_def [abs_def] bytes
    by (rule writes_as_require, rule writes_as_assert [OF _ assms],
        rule writes_as_seq [OF writes_as_UINT8 [OF len(1)] writes_as_seq [OF writes_as_byte [of code] tail refl] refl])
      simp
qed

lemma tpdu_write_data_writes: "writes_as () tpdu_write_data [2, 0xF0, 0x80]"
  using tpdu_write_header_writes [of 2 "0xF0"]
  by (simp add: tpdu_write_data_def [abs_def] tpdu_header_bytes_def tpdu_code_def)

section \<open>Properties\<close>

text \<open>C22. The TPKT and X.224 readers are memory safe on every input: on any readable stream they do not
  abort and only move forward within the stream's length. A TPKT length they return is 0, for data
  that is not a TPKT, or at least 7, and a length indicator fits the TPKT length it is checked
  against.\<close>

theorem x224_readers_safe:
  assumes "readable s"
  shows "safe_run (reads_from s) (\<lambda>len _. len = 0 \<or> 7 \<le> len) (tpkt_read_header s)
    \<and> safe_run (reads_from s) (\<lambda>li _. unat li + 4 \<le> unat tpktlength) (tpdu_read_connection_request tpktlength s)
    \<and> safe_run (reads_from s) (\<lambda>li _. unat li + 4 \<le> unat tpktlength \<and> 6 \<le> unat li)
        (tpdu_read_connection_confirm tpktlength s)
    \<and> safe_run (reads_from s) (\<lambda>li _. unat li + 4 \<le> unat tpktlength) (tpdu_read_data tpktlength s)"
proof -
  have "reads_from s (advance n s)" if "n \<le> length (rest s)" for n
    using reads_from_advance [OF assms that] .
  then have "safe_run (reads_from s) (\<lambda>li _. unat li + 4 \<le> unat tpktlength \<and> 6 \<le> unat li)
      (tpdu_read_connection_confirm tpktlength s)"
    using reads_from_refl [OF assms]
    by (simp add: tpdu_read_connection_confirm_eq [OF assms])
  moreover have "safe_run (reads_from s) (\<lambda>len _. len = 0 \<or> 7 \<le> len) (tpkt_read_header s)"
    "safe_run (reads_from s) (\<lambda>li _. unat li + 4 \<le> unat tpktlength) (tpdu_read_connection_request tpktlength s)"
    "safe_run (reads_from s) (\<lambda>li _. unat li + 4 \<le> unat tpktlength) (tpdu_read_data tpktlength s)"
    by (rule consumes_run [OF _ assms], rule safe_intros)+
  ultimately show ?thesis by blast
qed

theorem x224_readers_safe_witness:
  "readable (Stream_StaticInit [3, 0, 0, 7, 2, 0xF0, 0x80] 7) \<and>
   safe_run (reads_from (Stream_StaticInit [3, 0, 0, 7, 2, 0xF0, 0x80] 7)) (\<lambda>len _. len = 0 \<or> 7 \<le> len)
     (tpkt_read_header (Stream_StaticInit [3, 0, 0, 7, 2, 0xF0, 0x80] 7))"
proof -
  have "readable (Stream_StaticInit [3, 0, 0, 7, 2, 0xF0, 0x80] 7)"
    by (simp add: readable_def Stream_StaticInit_def wf_stream_def PTRDIFF_MAX_def)
  with x224_readers_safe [of "Stream_StaticInit [3, 0, 0, 7, 2, 0xF0, 0x80] 7"] show ?thesis by blast
qed

text \<open>C24. A TPKT header is accepted exactly when its packet is there. On a readable stream whose first
  byte is the version 3, the reader succeeds if and only if the announced length is at least 7 and
  the whole packet, header included, lies in the stream; it then returns that length and stands
  behind the four header bytes.\<close>

theorem tpkt_read_header_exact:
  assumes "readable s" "rest s \<noteq> []" "hd (rest s) = 3"
  shows "(\<exists>t. tpkt_read_header s = Done len t) \<longleftrightarrow>
      4 \<le> length (rest s) \<and> len = winpr_Data_Get_UINT16_BE (take 2 (drop 2 (rest s))) \<and> 7 \<le> len \<and>
      unat len \<le> length (rest s)"
    (is "?l \<longleftrightarrow> ?r")
  using assms by (auto simp: tpkt_read_header_eq Let_def not_less)

theorem tpkt_read_header_exact_witness:
  "(\<exists>t. tpkt_read_header (Stream_StaticInit [3, 0, 0, 9, 2, 0xF0, 0x80] 7) = Done 9 t) = False"
proof -
  let ?s = "Stream_StaticInit [3, 0, 0, 9, 2, 0xF0, 0x80] 7"
  have "readable ?s" "rest ?s \<noteq> []" "hd (rest ?s) = 3" "length (rest ?s) = 7"
    by (simp_all add: readable_def Stream_StaticInit_def wf_stream_def PTRDIFF_MAX_def rest_def)
  with tpkt_read_header_exact [of ?s 9] show ?thesis by simp
qed

lemma tpdu_read_data_bytes:
  assumes "readable s" "rest s = [2, 0xF0, 0x80] @ p" "6 \<le> tpktlength"
  shows "tpdu_read_data tpktlength s = Done 2 (advance 3 s)"
  using assms tpdu_read_header_eq [OF assms(1), of tpktlength]
  by (simp add: tpdu_read_data_def tpdu_code_def word_le_nat_alt)

lemma consumed_at_end: "readable s \<Longrightarrow> rest s = [] \<Longrightarrow> len \<le> 0xFFFF \<Longrightarrow> tpkt_ensure_stream_consumed len s = Done () s"
  by (simp add: tpkt_ensure_stream_consumed_def)

text \<open>C23. A framed payload is recovered. Writing a TPKT header for the whole packet, a data TPDU header
  and a payload of up to 65528 bytes into a stream with room for them, and then reading from the old
  position, gives the packet length and the length indicator 2, leaves exactly the payload to be
  read, and the stream counts as consumed once the payload is read.\<close>

theorem x224_frame_round_trip:
  assumes "wf_stream s" "room (7 + length p) s" "7 + length p \<le> 0xFFFF"
  shows "\<exists>t u v. run_bind (tpkt_write_header (7 + length p) s) (\<lambda>_ s.
        run_bind (tpdu_write_data s) (\<lambda>_ s. Stream_Write s p)) = Done () t \<and>
      reread (pointer s) tpkt_read_header t = Done (of_nat (7 + length p)) u \<and>
      tpdu_read_data (of_nat (7 + length p)) u = Done 2 v \<and> rest v = p \<and>
      tpkt_ensure_stream_consumed (7 + length p) (advance (length p) v) = Done () (advance (length p) v)"
proof -
  define n where "n = 7 + length p"
  note n_le = assms(3) [folded n_def]
  define hd where "hd = [3, 0] @ winpr_Data_Write_UINT16_BE (of_nat n)"
  define bs where "bs = hd @ [2, 0xF0, 0x80] @ p"
  have hd4: "length hd = 4" by (simp add: hd_def)
  have "writes_as () (\<lambda>s. run_bind (tpkt_write_header n s) (\<lambda>_ s.
      run_bind (tpdu_write_data s) (\<lambda>_ s. Stream_Write s p))) bs"
    using writes_as_seq [OF tpkt_write_header_writes [OF n_le]
        writes_as_seq [OF tpdu_write_data_writes writes_as_Write [of p] refl] refl]
    by (simp add: bs_def hd_def)
  then have run: "run_bind (tpkt_write_header n s) (\<lambda>_ s.
      run_bind (tpdu_write_data s) (\<lambda>_ s. Stream_Write s p)) = Done () (put bs s)"
    using assms(1,2) hd4 by (simp add: writes_as_def bs_def n_def)
  have rb: "room (length bs) s" using assms(2) hd4 by (simp add: bs_def)
  let ?u = "rewound (pointer s) (put bs s)"
  have "length (written s) = pointer s" using assms(1) by (simp add: written_def wf_stream_def)
  then have u: "reread (pointer s) tpkt_read_header (put bs s) = tpkt_read_header ?u" "readable ?u" "rest ?u = bs"
    using reread_eq(1) [OF wf_put [OF assms(1) rb] written_put [OF assms(1)], of tpkt_read_header]
      reread_eq(2,3) [OF wf_put [OF assms(1) rb] written_put [OF assms(1)]] by simp_all
  have n: "unat (of_nat n :: u16) = n" using n_le by (simp add: unat_of_nat take_bit_nat_eq_self)
  have "take 2 (drop 2 bs) = winpr_Data_Write_UINT16_BE (of_nat n)" by (simp add: bs_def hd_def)
  then have tp: "tpkt_read_header ?u = Done (of_nat n) (advance 4 ?u)"
    using u n by (simp add: tpkt_read_header_eq Let_def) (simp add: bs_def hd_def word_less_nat_alt n_def)
  have adv: "readable (advance 4 ?u)" "rest (advance 4 ?u) = [2, 0xF0, 0x80] @ p"
    using u(2,3) hd4 by (simp_all add: bs_def)
  have "(6 :: u16) \<le> of_nat n" using n by (simp add: word_le_nat_alt n_def)
  then have td: "tpdu_read_data (of_nat n) (advance 4 ?u) = Done 2 (advance 3 (advance 4 ?u))"
    by (rule tpdu_read_data_bytes [OF adv])
  let ?v = "advance 3 (advance 4 ?u)"
  have "readable (advance 3 w) \<and> rest (advance 3 w) = p" if "readable w" "rest w = [2, 0xF0, 0x80] @ p" for w
    using that by simp
  from this [OF adv] have v: "readable ?v" "rest ?v = p" by blast+
  have "readable (advance (length p) w) \<and> rest (advance (length p) w) = []" if "readable w" "rest w = p" for w
    using that by simp
  from this [OF v] have "readable (advance (length p) ?v)" "rest (advance (length p) ?v) = []" by blast+
  from consumed_at_end [OF this n_le] show ?thesis
    unfolding n_def [symmetric] using run trans [OF u(1) tp] td v(2) by blast
qed

theorem x224_frame_round_trip_witness:
  "\<exists>t u v. run_bind (tpkt_write_header 9 (Stream_StaticInit (replicate 9 0) 9)) (\<lambda>_ s.
        run_bind (tpdu_write_data s) (\<lambda>_ s. Stream_Write s [42, 43])) = Done () t \<and>
      reread 0 tpkt_read_header t = Done 9 u \<and> tpdu_read_data 9 u = Done 2 v \<and> rest v = [42, 43]"
proof -
  let ?s = "Stream_StaticInit (replicate 9 0) 9"
  have "wf_stream ?s" "room (7 + length [42, 43 :: byte]) ?s" "7 + length [42, 43 :: byte] \<le> 0xFFFF"
    "pointer ?s = 0" "7 + length [42, 43 :: byte] = 9"
    by (simp_all add: Stream_StaticInit_def wf_stream_def PTRDIFF_MAX_def room_def)
  from x224_frame_round_trip [OF this(1-3)] show ?thesis
    unfolding \<open>pointer ?s = 0\<close> \<open>7 + length [42, 43 :: byte] = 9\<close> by auto
qed

text \<open>C25. A connection confirm is accepted only with its data. The unsigned subtraction in
  \<open>tpdu_read_connection_confirm\<close> wraps for a length indicator below 6, but then asks for more bytes
  than any stream holds: the reader succeeds exactly when the code is right, the indicator is at
  least 6 and within the TPKT length, and all the bytes it announces lie in the stream.\<close>

theorem tpdu_confirm_exact:
  assumes "readable s"
  shows "(\<exists>t. tpdu_read_connection_confirm tpktlength s = Done li t) \<longleftrightarrow>
    7 \<le> length (rest s) \<and> li = rest s ! 0 \<and> rest s ! 1 = 0xD0 \<and> 6 \<le> unat li \<and>
    unat li + 4 \<le> unat tpktlength \<and> unat li < length (rest s)"
  using assms by (auto simp: tpdu_read_connection_confirm_eq)

theorem tpdu_confirm_exact_witness:
  "(\<exists>t. tpdu_read_connection_confirm 11 (Stream_StaticInit [6, 0xD0, 0, 0, 0, 0, 0] 7) = Done 6 t) \<and>
   (\<nexists>t. tpdu_read_connection_confirm 11 (Stream_StaticInit [2, 0xD0, 0, 0, 0, 0, 0] 7) = Done 2 t)"
proof -
  have "readable (Stream_StaticInit [6, 0xD0, 0, 0, 0, 0, 0] 7)" "readable (Stream_StaticInit [2, 0xD0, 0, 0, 0, 0, 0] 7)"
    by (simp_all add: readable_def Stream_StaticInit_def wf_stream_def PTRDIFF_MAX_def)
  from tpdu_confirm_exact [OF this(1), of 11 6] tpdu_confirm_exact [OF this(2), of 11 2] show ?thesis
    by (simp add: rest_def Stream_StaticInit_def)
qed

end
