(* ===== verification/Mcs.thy ===== *)
theory Mcs
  imports X224
begin

text \<open>
  The Multipoint Communication Service of \<open>libfreerdp/core/mcs.c\<close>: the domain parameters that client
  and server negotiate in the connect PDUs, and the domain PDUs of the connection sequence (erect
  domain, attach user, join channel, disconnect). A receiver works on the stream of one packet and
  returns the changed MCS state; a sender builds its packet in a fresh stream and hands the bytes to
  the transport, which is an argument \<open>tx\<close> that accepts or refuses them. The conference data inside
  the connect PDUs is opaque here; a failed receive ends the connection, and the MCS state it leaves
  behind is not modelled. The theory shows the receivers safe on every input, that each side reads
  what the other sends, and what the parameter merge promises.
\<close>

section \<open>State\<close>

datatype DomainMCSPDU = DomainMCSPDU_invalid
  | DomainMCSPDU_PlumbDomainIndication | DomainMCSPDU_ErectDomainRequest
  | DomainMCSPDU_MergeChannelsRequest | DomainMCSPDU_MergeChannelsConfirm
  | DomainMCSPDU_PurgeChannelsIndication | DomainMCSPDU_MergeTokensRequest
  | DomainMCSPDU_MergeTokensConfirm | DomainMCSPDU_PurgeTokensIndication
  | DomainMCSPDU_DisconnectProviderUltimatum | DomainMCSPDU_RejectMCSPDUUltimatum
  | DomainMCSPDU_AttachUserRequest | DomainMCSPDU_AttachUserConfirm
  | DomainMCSPDU_DetachUserRequest | DomainMCSPDU_DetachUserIndication
  | DomainMCSPDU_ChannelJoinRequest | DomainMCSPDU_ChannelJoinConfirm
  | DomainMCSPDU_ChannelLeaveRequest | DomainMCSPDU_ChannelConveneRequest
  | DomainMCSPDU_ChannelConveneConfirm | DomainMCSPDU_ChannelDisbandRequest
  | DomainMCSPDU_ChannelDisbandIndication | DomainMCSPDU_ChannelAdmitRequest
  | DomainMCSPDU_ChannelAdmitIndication | DomainMCSPDU_ChannelExpelRequest
  | DomainMCSPDU_ChannelExpelIndication | DomainMCSPDU_SendDataRequest
  | DomainMCSPDU_SendDataIndication | DomainMCSPDU_UniformSendDataRequest
  | DomainMCSPDU_UniformSendDataIndication | DomainMCSPDU_TokenGrabRequest
  | DomainMCSPDU_TokenGrabConfirm | DomainMCSPDU_TokenInhibitRequest
  | DomainMCSPDU_TokenInhibitConfirm | DomainMCSPDU_TokenGiveRequest
  | DomainMCSPDU_TokenGiveIndication | DomainMCSPDU_TokenGiveResponse
  | DomainMCSPDU_TokenGiveConfirm | DomainMCSPDU_TokenPleaseRequest
  | DomainMCSPDU_TokenPleaseConfirm | DomainMCSPDU_TokenReleaseRequest
  | DomainMCSPDU_TokenReleaseConfirm | DomainMCSPDU_TokenTestRequest
  | DomainMCSPDU_TokenTestConfirm | DomainMCSPDU_enum_length

text \<open>The enumerators in the order of their values, from 0 on.\<close>

definition domain_pdus :: "DomainMCSPDU list" where
  "domain_pdus =
     [DomainMCSPDU_PlumbDomainIndication, DomainMCSPDU_ErectDomainRequest,
      DomainMCSPDU_MergeChannelsRequest, DomainMCSPDU_MergeChannelsConfirm,
      DomainMCSPDU_PurgeChannelsIndication, DomainMCSPDU_MergeTokensRequest,
      DomainMCSPDU_MergeTokensConfirm, DomainMCSPDU_PurgeTokensIndication,
      DomainMCSPDU_DisconnectProviderUltimatum, DomainMCSPDU_RejectMCSPDUUltimatum,
      DomainMCSPDU_AttachUserRequest, DomainMCSPDU_AttachUserConfirm,
      DomainMCSPDU_DetachUserRequest, DomainMCSPDU_DetachUserIndication,
      DomainMCSPDU_ChannelJoinRequest, DomainMCSPDU_ChannelJoinConfirm,
      DomainMCSPDU_ChannelLeaveRequest, DomainMCSPDU_ChannelConveneRequest,
      DomainMCSPDU_ChannelConveneConfirm, DomainMCSPDU_ChannelDisbandRequest,
      DomainMCSPDU_ChannelDisbandIndication, DomainMCSPDU_ChannelAdmitRequest,
      DomainMCSPDU_ChannelAdmitIndication, DomainMCSPDU_ChannelExpelRequest,
      DomainMCSPDU_ChannelExpelIndication, DomainMCSPDU_SendDataRequest,
      DomainMCSPDU_SendDataIndication, DomainMCSPDU_UniformSendDataRequest,
      DomainMCSPDU_UniformSendDataIndication, DomainMCSPDU_TokenGrabRequest,
      DomainMCSPDU_TokenGrabConfirm, DomainMCSPDU_TokenInhibitRequest,
      DomainMCSPDU_TokenInhibitConfirm, DomainMCSPDU_TokenGiveRequest,
      DomainMCSPDU_TokenGiveIndication, DomainMCSPDU_TokenGiveResponse,
      DomainMCSPDU_TokenGiveConfirm, DomainMCSPDU_TokenPleaseRequest,
      DomainMCSPDU_TokenPleaseConfirm, DomainMCSPDU_TokenReleaseRequest,
      DomainMCSPDU_TokenReleaseConfirm, DomainMCSPDU_TokenTestRequest,
      DomainMCSPDU_TokenTestConfirm, DomainMCSPDU_enum_length]"

fun find_index :: "'a \<Rightarrow> 'a list \<Rightarrow> nat" where
  "find_index x [] = 0"
| "find_index x (y # ys) = (if x = y then 0 else Suc (find_index x ys))"

definition domain_pdu_value :: "DomainMCSPDU \<Rightarrow> int" where
  "domain_pdu_value p = (if p = DomainMCSPDU_invalid then - 1 else int (find_index p domain_pdus))"

record DomainParameters =
  maxChannelIds :: u32
  maxUserIds :: u32
  maxTokenIds :: u32
  numPriorities :: u32
  minThroughput :: u32
  maxHeight :: u32
  maxMCSPDUsize :: u32
  protocolVersion :: u32

text \<open>
  A channel's \<open>Name\<close> is its array of eight characters. Of the array \<open>channels\<close> the model keeps the
  first \<open>channelCount\<close> entries, which are the ones in use.
\<close>

record rdpMcsChannel =
  channelName :: "byte list"
  channelOptions :: u32
  ChannelId :: u16
  joined :: bool

record rdpMcs =
  userId :: u16
  baseChannelId :: u16
  IOChannelId :: u16
  messageChannelId :: u16
  mcsFlags :: u32
  domainParameters :: DomainParameters
  targetParameters :: DomainParameters
  minimumParameters :: DomainParameters
  maximumParameters :: DomainParameters
  userChannelJoined :: bool
  globalChannelJoined :: bool
  messageChannelJoined :: bool
  channelMaxCount :: nat
  channels :: "rdpMcsChannel list"

definition MCS_BASE_CHANNEL_ID :: u16 where
  "MCS_BASE_CHANNEL_ID = 1001"

definition MCS_GLOBAL_CHANNEL_ID :: u16 where
  "MCS_GLOBAL_CHANNEL_ID = 1003"

definition MCS_Result_enum_length :: byte where
  "MCS_Result_enum_length = 16"

section \<open>Headers and domain parameters\<close>

definition mcs_read_domain_mcspdu_header :: "DomainMCSPDU \<Rightarrow> wStream \<Rightarrow> (u16, wStream) outcome" where
  "mcs_read_domain_mcspdu_header domainMCSPDU s =
     run_bind (run_assert (domain_pdu_value domainMCSPDU \<noteq> 0) s) (\<lambda>_ s.
     run_bind (tpkt_read_header s) (\<lambda>len s.
     run_bind (tpdu_read_data len s) (\<lambda>li s.
     run_bind (per_read_choice s) (\<lambda>choice s.
       let val = unat (drop_bit 2 choice);
           MCSPDU = (if val > 43 then DomainMCSPDU_invalid else domain_pdus ! val)
       in if domainMCSPDU \<noteq> MCSPDU then Fail s else Done len s))))"

definition mcs_write_domain_mcspdu_header ::
    "allocator \<Rightarrow> DomainMCSPDU \<Rightarrow> u16 \<Rightarrow> byte \<Rightarrow> wStream \<Rightarrow> (unit, wStream) outcome" where
  "mcs_write_domain_mcspdu_header A domainMCSPDU len options s =
     run_bind (run_assert (options AND NOT 0x03 = 0) s) (\<lambda>_ s.
     run_bind (run_assert (domain_pdu_value domainMCSPDU AND NOT 0x3F = 0) s) (\<lambda>_ s.
     run_bind (tpkt_write_header (unat len) s) (\<lambda>_ s.
     run_bind (tpdu_write_data s) (\<lambda>_ s.
       per_write_choice A (push_bit 2 (of_int (domain_pdu_value domainMCSPDU)) OR options) s))))"

definition mcs_init_domain_parameters ::
    "u32 \<Rightarrow> u32 \<Rightarrow> u32 \<Rightarrow> u32 \<Rightarrow> DomainParameters" where
  "mcs_init_domain_parameters channelIds userIds tokenIds pduSize =
     \<lparr>maxChannelIds = channelIds, maxUserIds = userIds, maxTokenIds = tokenIds,
      numPriorities = 1, minThroughput = 0, maxHeight = 1, maxMCSPDUsize = pduSize,
      protocolVersion = 2\<rparr>"

text \<open>The parameter \<open>ok\<close> says whether the two allocations succeed; the channel array starts empty.\<close>

definition mcs_new :: "bool \<Rightarrow> rdpMcs option" where
  "mcs_new ok =
     (if \<not> ok then None
      else Some \<lparr>userId = 0, baseChannelId = MCS_GLOBAL_CHANNEL_ID + 1, IOChannelId = 0,
        messageChannelId = 0, mcsFlags = 0,
        domainParameters = mcs_init_domain_parameters 0 0 0 0xFFFF,
        targetParameters = mcs_init_domain_parameters 34 2 0 0xFFFF,
        minimumParameters = mcs_init_domain_parameters 1 1 1 0x420,
        maximumParameters = mcs_init_domain_parameters 0xFFFF 0xFC17 0xFFFF 0xFFFF,
        userChannelJoined = False, globalChannelJoined = False, messageChannelJoined = False,
        channelMaxCount = 31, channels = []\<rparr>)"

definition mcs_read_domain_parameters :: "wStream \<Rightarrow> (DomainParameters, wStream) outcome" where
  "mcs_read_domain_parameters s =
     run_bind (ber_read_sequence_tag s) (\<lambda>_ s.
     run_bind (ber_read_integer True s) (\<lambda>channelIds s.
     run_bind (ber_read_integer True s) (\<lambda>userIds s.
     run_bind (ber_read_integer True s) (\<lambda>tokenIds s.
     run_bind (ber_read_integer True s) (\<lambda>priorities s.
     run_bind (ber_read_integer True s) (\<lambda>throughput s.
     run_bind (ber_read_integer True s) (\<lambda>height s.
     run_bind (ber_read_integer True s) (\<lambda>pduSize s.
     run_bind (ber_read_integer True s) (\<lambda>version s.
       Done \<lparr>maxChannelIds = channelIds, maxUserIds = userIds, maxTokenIds = tokenIds,
         numPriorities = priorities, minThroughput = throughput, maxHeight = height,
         maxMCSPDUsize = pduSize, protocolVersion = version\<rparr> s)))))))))"

text \<open>One \<open>ber_write_integer\<close> after the other, leaving at the first that reports no bytes.\<close>

primrec mcs_write_integers :: "u32 list \<Rightarrow> wStream \<Rightarrow> (unit, wStream) outcome" where
  "mcs_write_integers [] s = Done () s"
| "mcs_write_integers (v # vs) s =
     run_bind (ber_write_integer v s) (\<lambda>r s. if r = 0 then Fail s else mcs_write_integers vs s)"

text \<open>Building in a scratch stream as large as \<open>s\<close>, then copying what was built.\<close>

definition with_scratch :: "allocator \<Rightarrow> (wStream \<Rightarrow> (unit, wStream) outcome) \<Rightarrow>
    (byte list \<Rightarrow> wStream \<Rightarrow> (unit, wStream) outcome) \<Rightarrow> wStream \<Rightarrow> (unit, wStream) outcome" where
  "with_scratch A build finish s =
     (case Stream_New A None (capacity s) of
        None \<Rightarrow> Fail s
      | Some tmps \<Rightarrow>
          (case build tmps of
             Abort \<Rightarrow> Abort
           | Fail _ \<Rightarrow> Fail s
           | Done _ tmps \<Rightarrow>
               (case mem_read (buffer tmps) 0 (Stream_GetPosition tmps) of
                  None \<Rightarrow> Abort
                | Some d \<Rightarrow> finish d s)))"

definition mcs_write_domain_parameters ::
    "allocator \<Rightarrow> DomainParameters \<Rightarrow> wStream \<Rightarrow> (unit, wStream) outcome" where
  "mcs_write_domain_parameters A d s =
     with_scratch A
       (mcs_write_integers
         [maxChannelIds d, maxUserIds d, maxTokenIds d, numPriorities d, minThroughput d, maxHeight d,
          maxMCSPDUsize d, protocolVersion d])
       (\<lambda>content s.
         run_bind (ber_write_sequence_tag (length content) s) (\<lambda>r s.
           if r = 0 then Fail s else Stream_Write s content)) s"

definition mcs_merge_domain_parameters ::
    "DomainParameters \<Rightarrow> DomainParameters \<Rightarrow> DomainParameters \<Rightarrow> DomainParameters option" where
  "mcs_merge_domain_parameters target minimum maximum =
     (if \<not> maxChannelIds target \<ge> 4 \<and> \<not> maxChannelIds maximum \<ge> 4 then None
      else if \<not> maxUserIds target \<ge> 3 \<and> \<not> maxUserIds maximum \<ge> 3 then None
      else if \<not> numPriorities minimum \<le> 1 then None
      else if \<not> (maxHeight target = 1 \<or> maxHeight minimum \<le> 1) then None
      else
        case (if maxMCSPDUsize target \<ge> 1024 then
                (if maxMCSPDUsize target \<le> 65528 then Some (maxMCSPDUsize target)
                 else if maxMCSPDUsize minimum \<ge> 124 \<and> maxMCSPDUsize minimum \<le> 65528 then Some 65528
                 else None)
              else if maxMCSPDUsize maximum \<ge> 124 then Some (maxMCSPDUsize maximum)
              else None) of
          None \<Rightarrow> None
        | Some pduSize \<Rightarrow>
            if protocolVersion target = 2 \<or> (protocolVersion minimum \<le> 2 \<and> protocolVersion maximum \<ge> 2) then
              Some \<lparr>maxChannelIds = (if maxChannelIds target \<ge> 4 then maxChannelIds target else 4),
                maxUserIds = (if maxUserIds target \<ge> 3 then maxUserIds target else 3),
                maxTokenIds = maxTokenIds target, numPriorities = 1,
                minThroughput = minThroughput target, maxHeight = 1, maxMCSPDUsize = pduSize,
                protocolVersion = 2\<rparr>
            else None)"

section \<open>The connect PDUs\<close>

definition mcs_write_connect_initial ::
    "allocator \<Rightarrow> rdpMcs \<Rightarrow> byte list \<Rightarrow> wStream \<Rightarrow> (unit, wStream) outcome" where
  "mcs_write_connect_initial A mcs userData s =
     with_scratch A
       (\<lambda>t.
         run_bind (ber_write_octet_string [1] t) (\<lambda>r t. if r = 0 then Fail t else
         run_bind (ber_write_octet_string [1] t) (\<lambda>r t. if r = 0 then Fail t else
         run_bind (ber_write_BOOL True t) (\<lambda>_ t.
         run_bind (mcs_write_domain_parameters A (targetParameters mcs) t) (\<lambda>_ t.
         run_bind (mcs_write_domain_parameters A (minimumParameters mcs) t) (\<lambda>_ t.
         run_bind (mcs_write_domain_parameters A (maximumParameters mcs) t) (\<lambda>_ t.
         run_bind (ber_write_octet_string userData t) (\<lambda>r t. if r = 0 then Fail t else Done () t))))))))
       (\<lambda>content s.
         run_bind (ber_write_application_tag 0x65 (length content) s) (\<lambda>_ s. Stream_Write s content)) s"

definition mcs_write_connect_response ::
    "allocator \<Rightarrow> rdpMcs \<Rightarrow> byte list \<Rightarrow> wStream \<Rightarrow> (unit, wStream) outcome" where
  "mcs_write_connect_response A mcs userData s =
     with_scratch A
       (\<lambda>t.
         run_bind (ber_write_enumerated 0 t) (\<lambda>_ t.
         run_bind (ber_write_integer 0 t) (\<lambda>r t. if r = 0 then Fail t else
         run_bind (mcs_write_domain_parameters A (domainParameters mcs) t) (\<lambda>_ t.
         run_bind (ber_write_octet_string userData t) (\<lambda>r t. if r = 0 then Fail t else Done () t)))))
       (\<lambda>content s.
         run_bind (ber_write_application_tag 0x66 (length content) s) (\<lambda>_ s. Stream_Write s content)) s"

section \<open>The domain PDUs\<close>

text \<open>A fresh stream is built and its bytes go to the transport.\<close>

definition mcs_transmit :: "allocator \<Rightarrow> (byte list \<Rightarrow> bool) \<Rightarrow> nat \<Rightarrow>
    (wStream \<Rightarrow> (unit, wStream) outcome) \<Rightarrow> rdpMcs \<Rightarrow> (byte list, rdpMcs) outcome" where
  "mcs_transmit A tx len build mcs =
     (case Stream_New A None len of
        None \<Rightarrow> Fail mcs
      | Some s \<Rightarrow>
          (case build s of
             Abort \<Rightarrow> Abort
           | Fail _ \<Rightarrow> Fail mcs
           | Done _ s \<Rightarrow>
               (case mem_read (buffer s) 0 (Stream_GetPosition s) of
                  None \<Rightarrow> Abort
                | Some packet \<Rightarrow> if tx packet then Done packet mcs else Fail mcs)))"

text \<open>A receiver returns the MCS state with its result. One that fails returns none: the user id that
  the attach user confirm, or the join request of a replay, may have stored before the failure is not
  followed further.\<close>

definition mcs_recv_erect_domain_request :: "rdpMcs \<Rightarrow> wStream \<Rightarrow> (rdpMcs, wStream) outcome" where
  "mcs_recv_erect_domain_request mcs s =
     run_bind (mcs_read_domain_mcspdu_header DomainMCSPDU_ErectDomainRequest s) (\<lambda>len s.
     run_bind (per_read_integer s) (\<lambda>subHeight s.
     run_bind (per_read_integer s) (\<lambda>subInterval s.
     run_bind (tpkt_ensure_stream_consumed (unat len) s) (\<lambda>_ s. Done mcs s))))"

definition mcs_send_erect_domain_request ::
    "allocator \<Rightarrow> (byte list \<Rightarrow> bool) \<Rightarrow> rdpMcs \<Rightarrow> (byte list, rdpMcs) outcome" where
  "mcs_send_erect_domain_request A tx mcs =
     mcs_transmit A tx 12
       (\<lambda>s.
         run_bind (mcs_write_domain_mcspdu_header A DomainMCSPDU_ErectDomainRequest 12 0 s) (\<lambda>_ s.
         run_bind (per_write_integer A 0 s) (\<lambda>_ s.
         run_bind (per_write_integer A 0 s) (\<lambda>_ s. Stream_SealLength s)))) mcs"

definition mcs_recv_attach_user_request :: "rdpMcs \<Rightarrow> wStream \<Rightarrow> (rdpMcs, wStream) outcome" where
  "mcs_recv_attach_user_request mcs s =
     run_bind (mcs_read_domain_mcspdu_header DomainMCSPDU_AttachUserRequest s) (\<lambda>len s.
     run_bind (tpkt_ensure_stream_consumed (unat len) s) (\<lambda>_ s. Done mcs s))"

definition mcs_send_attach_user_request ::
    "allocator \<Rightarrow> (byte list \<Rightarrow> bool) \<Rightarrow> rdpMcs \<Rightarrow> (byte list, rdpMcs) outcome" where
  "mcs_send_attach_user_request A tx mcs =
     mcs_transmit A tx 8
       (\<lambda>s.
         run_bind (mcs_write_domain_mcspdu_header A DomainMCSPDU_AttachUserRequest 8 0 s) (\<lambda>_ s.
           Stream_SealLength s)) mcs"

definition mcs_recv_attach_user_confirm :: "rdpMcs \<Rightarrow> wStream \<Rightarrow> (rdpMcs, wStream) outcome" where
  "mcs_recv_attach_user_confirm mcs s =
     run_bind (mcs_read_domain_mcspdu_header DomainMCSPDU_AttachUserConfirm s) (\<lambda>len s.
     run_bind (per_read_enumerated MCS_Result_enum_length s) (\<lambda>result s.
     run_bind (per_read_integer16 MCS_BASE_CHANNEL_ID s) (\<lambda>user s.
     run_bind (tpkt_ensure_stream_consumed (unat len) s) (\<lambda>_ s. Done (mcs\<lparr>userId := user\<rparr>) s))))"

definition mcs_send_attach_user_confirm ::
    "allocator \<Rightarrow> (byte list \<Rightarrow> bool) \<Rightarrow> rdpMcs \<Rightarrow> (byte list, rdpMcs) outcome" where
  "mcs_send_attach_user_confirm A tx mcs =
     (case Stream_New A None 11 of
        None \<Rightarrow> Fail mcs
      | Some _ \<Rightarrow>
          let mcs = mcs\<lparr>userId := baseChannelId mcs, baseChannelId := baseChannelId mcs + 1\<rparr> in
          mcs_transmit A tx 11
            (\<lambda>s.
              run_bind (mcs_write_domain_mcspdu_header A DomainMCSPDU_AttachUserConfirm 11 2 s) (\<lambda>_ s.
              run_bind (per_write_enumerated A MCS_Result_enum_length 0 s) (\<lambda>_ s.
              run_bind (per_write_integer16 A MCS_BASE_CHANNEL_ID (userId mcs) s) (\<lambda>_ s.
                Stream_SealLength s)))) mcs)"

definition mcs_recv_channel_join_request ::
    "bool \<Rightarrow> rdpMcs \<Rightarrow> wStream \<Rightarrow> (u16 \<times> rdpMcs, wStream) outcome" where
  "mcs_recv_channel_join_request replay mcs s =
     run_bind (mcs_read_domain_mcspdu_header DomainMCSPDU_ChannelJoinRequest s) (\<lambda>len s.
     run_bind (per_read_integer16 MCS_BASE_CHANNEL_ID s) (\<lambda>user s.
       if user \<noteq> userId mcs \<and> \<not> replay then Fail s
       else
         run_bind (per_read_integer16 0 s) (\<lambda>channelId s.
         run_bind (tpkt_ensure_stream_consumed (unat len) s) (\<lambda>_ s.
           Done (channelId, mcs\<lparr>userId := user\<rparr>) s))))"

definition mcs_send_channel_join_request ::
    "allocator \<Rightarrow> (byte list \<Rightarrow> bool) \<Rightarrow> u16 \<Rightarrow> rdpMcs \<Rightarrow> (byte list, rdpMcs) outcome" where
  "mcs_send_channel_join_request A tx channelId mcs =
     mcs_transmit A tx 12
       (\<lambda>s.
         run_bind (mcs_write_domain_mcspdu_header A DomainMCSPDU_ChannelJoinRequest 12 0 s) (\<lambda>_ s.
         run_bind (per_write_integer16 A MCS_BASE_CHANNEL_ID (userId mcs) s) (\<lambda>_ s.
         run_bind (per_write_integer16 A 0 channelId s) (\<lambda>_ s. Stream_SealLength s)))) mcs"

definition mcs_recv_channel_join_confirm :: "wStream \<Rightarrow> (u16, wStream) outcome" where
  "mcs_recv_channel_join_confirm s =
     run_bind (mcs_read_domain_mcspdu_header DomainMCSPDU_ChannelJoinConfirm s) (\<lambda>len s.
     run_bind (per_read_enumerated MCS_Result_enum_length s) (\<lambda>result s.
     run_bind (per_read_integer16 MCS_BASE_CHANNEL_ID s) (\<lambda>initiator s.
     run_bind (per_read_integer16 0 s) (\<lambda>requested s.
     run_bind (per_read_integer16 0 s) (\<lambda>channelId s.
     run_bind (tpkt_ensure_stream_consumed (unat len) s) (\<lambda>_ s. Done channelId s))))))"

definition mcs_send_channel_join_confirm ::
    "allocator \<Rightarrow> (byte list \<Rightarrow> bool) \<Rightarrow> u16 \<Rightarrow> rdpMcs \<Rightarrow> (byte list, rdpMcs) outcome" where
  "mcs_send_channel_join_confirm A tx channelId mcs =
     mcs_transmit A tx 15
       (\<lambda>s.
         run_bind (mcs_write_domain_mcspdu_header A DomainMCSPDU_ChannelJoinConfirm 15 2 s) (\<lambda>_ s.
         run_bind (per_write_enumerated A MCS_Result_enum_length 0 s) (\<lambda>_ s.
         run_bind (per_write_integer16 A MCS_BASE_CHANNEL_ID (userId mcs) s) (\<lambda>_ s.
         run_bind (per_write_integer16 A 0 channelId s) (\<lambda>_ s.
         run_bind (per_write_integer16 A 0 channelId s) (\<lambda>_ s. Stream_SealLength s)))))) mcs"

definition mcs_recv_disconnect_provider_ultimatum :: "wStream \<Rightarrow> (nat, wStream) outcome" where
  "mcs_recv_disconnect_provider_ultimatum s =
     run_bind (Stream_CheckAndLogRequiredLength s 1) (\<lambda>_ s.
     run_bind (Stream_Rewind s 1) (\<lambda>_ s.
     run_bind (stream_read_u8 s True) (\<lambda>b1 s.
     run_bind (stream_read_u8 s True) (\<lambda>b2 s.
       Done (unat (push_bit 1 (b1 AND 0x01) OR drop_bit 7 b2)) s))))"

text \<open>The \<open>reason\<close> is passed to \<open>per_write_enumerated\<close> as the count, which ignores it.\<close>

definition mcs_send_disconnect_provider_ultimatum ::
    "allocator \<Rightarrow> (byte list \<Rightarrow> bool) \<Rightarrow> byte \<Rightarrow> rdpMcs \<Rightarrow> (byte list, rdpMcs) outcome" where
  "mcs_send_disconnect_provider_ultimatum A tx reason mcs =
     mcs_transmit A tx 9
       (\<lambda>s.
         run_bind (mcs_write_domain_mcspdu_header A DomainMCSPDU_DisconnectProviderUltimatum 9 1 s) (\<lambda>_ s.
           per_write_enumerated A reason 0x80 s)) mcs"

section \<open>Receivers on arbitrary input\<close>

lemma mcs_read_domain_mcspdu_header_consumes [safe_intros]:
  assumes "domain_pdu_value pdu \<noteq> 0"
  shows "consumes r (mcs_read_domain_mcspdu_header pdu) (\<lambda>_. True) 0"
  unfolding mcs_read_domain_mcspdu_header_def [abs_def] Let_def
  by (rule safe_intros consumes_ends | (use assms in \<open>simp; fail\<close>))+

lemma tpkt_ensure_stream_consumed_consumes [safe_intros]:
  "consumes r (tpkt_ensure_stream_consumed (unat (len :: u16))) (\<lambda>_. True) 0"
  unfolding consumes_def
  by (auto simp: tpkt_ensure_stream_consumed_def reads_from_refl unat_bounds)

lemma domain_pdu_values [simp]:
  "domain_pdu_value DomainMCSPDU_ErectDomainRequest = 1"
  "domain_pdu_value DomainMCSPDU_DisconnectProviderUltimatum = 8"
  "domain_pdu_value DomainMCSPDU_AttachUserRequest = 10"
  "domain_pdu_value DomainMCSPDU_AttachUserConfirm = 11"
  "domain_pdu_value DomainMCSPDU_ChannelJoinRequest = 14"
  "domain_pdu_value DomainMCSPDU_ChannelJoinConfirm = 15"
  "domain_pdu_value DomainMCSPDU_SendDataRequest = 25"
  "domain_pdu_value DomainMCSPDU_SendDataIndication = 26"
  by (simp_all add: domain_pdu_value_def domain_pdus_def)

lemma mcs_read_domain_parameters_consumes [safe_intros]:
  "consumes r mcs_read_domain_parameters (\<lambda>_. True) 0"
  unfolding mcs_read_domain_parameters_def [abs_def]
  by (rule safe_intros consumes_ends | (simp; fail))+

lemma mcs_recv_consumes [safe_intros]:
  "consumes r (mcs_recv_erect_domain_request mcs) (\<lambda>m. m = mcs) 0"
  "consumes r (mcs_recv_attach_user_request mcs) (\<lambda>m. m = mcs) 0"
  "consumes r (mcs_recv_attach_user_confirm mcs) (\<lambda>m. MCS_BASE_CHANNEL_ID \<le> userId m \<and> m = mcs\<lparr>userId := userId m\<rparr>) 0"
  "consumes r (mcs_recv_channel_join_request False mcs) (\<lambda>(_, m). m = mcs) 0"
  "consumes r mcs_recv_channel_join_confirm (\<lambda>_. True) 0"
  unfolding mcs_recv_erect_domain_request_def [abs_def] mcs_recv_attach_user_request_def [abs_def]
    mcs_recv_attach_user_confirm_def [abs_def] mcs_recv_channel_join_request_def [abs_def]
    mcs_recv_channel_join_confirm_def [abs_def]
  by (rule safe_intros consumes_ends | (simp; fail))+

lemma mcs_recv_channel_join_request_consumes:
  "consumes r (mcs_recv_channel_join_request replay mcs)
     (\<lambda>(_, m). m = mcs\<lparr>userId := userId m\<rparr> \<and> MCS_BASE_CHANNEL_ID \<le> userId m \<and> (m = mcs \<or> replay)) 0"
  unfolding mcs_recv_channel_join_request_def [abs_def]
  by (rule safe_intros consumes_ends | (auto; fail))+

section \<open>Packets sent and received\<close>

text \<open>The bytes of a domain PDU: TPKT header, data TPDU header, the PDU's choice and its body.\<close>

definition mcs_packet :: "DomainMCSPDU \<Rightarrow> byte \<Rightarrow> byte list \<Rightarrow> byte list" where
  "mcs_packet pdu options body =
     ([3, 0] @ winpr_Data_Write_UINT16_BE (of_nat (8 + length body))) @ [2, 0xF0, 0x80] @
     [push_bit 2 (of_int (domain_pdu_value pdu)) OR options] @ body"

lemma length_mcs_packet [simp]: "length (mcs_packet pdu options body) = 8 + length body"
  by (simp add: mcs_packet_def)

text \<open>A sender's last step may seal the length, which does not touch the bytes.\<close>

definition builds :: "(wStream \<Rightarrow> (unit, wStream) outcome) \<Rightarrow> byte list \<Rightarrow> bool" where
  "builds w bs \<longleftrightarrow> (\<forall>s. wf_stream s \<and> room (length bs) s \<longrightarrow>
     (\<exists>n. w s = Done () ((put bs s)\<lparr>slength := n\<rparr>)))"

lemma builds_seal: "builds (\<lambda>s. Stream_SealLength s) []"
  by (auto simp: builds_def Stream_SealLength_def put_Nil wf_stream_def)

lemma builds_writes: "writes w bs \<Longrightarrow> builds w bs"
  unfolding builds_def writes_def by (metis wStream.surjective wStream.update_convs(3))

lemma builds_seq:
  assumes "writes w as" "builds v bs" "cs = as @ bs"
  shows "builds (\<lambda>s. run_bind (w s) (\<lambda>_ s. v s)) cs"
  unfolding builds_def
proof (intro allI impI)
  fix s assume s: "wf_stream s \<and> room (length cs) s"
  then have "room (length as) s" "room (length bs) (put as s)"
    using assms(3) by (auto intro: room_mono)
  moreover from this have "wf_stream (put as s)" using s by (auto intro: wf_put)
  ultimately have "w s = Done () (put as s)" "\<exists>n. v (put as s) = Done () ((put bs (put as s))\<lparr>slength := n\<rparr>)"
    using assms(1,2) s unfolding writes_def builds_def by blast+
  then show "\<exists>n. run_bind (w s) (\<lambda>_ s. v s) = Done () ((put cs s)\<lparr>slength := n\<rparr>)"
    using assms(3) s by (simp add: put_put)
qed

lemma mcs_transmit_builds:
  assumes "builds w bs" "length bs = n"
  shows "mcs_transmit A tx n w mcs =
    (if Stream_New A None n = None \<or> \<not> tx bs then Fail mcs else Done bs mcs)"
proof (cases "Stream_New A None n")
  case None
  then show ?thesis by (simp add: mcs_transmit_def)
next
  case (Some s)
  then have s: "wf_stream s" "room n s" "pointer s = 0"
    by (auto simp: Stream_New_def wf_stream_def room_def c_calloc_def split: if_splits)
  obtain k where k: "w s = Done () ((put bs s)\<lparr>slength := k\<rparr>)"
    using assms s by (auto simp: builds_def)
  have "buffer (put bs s) = bs @ drop n (buffer s)" "pointer (put bs s) = n"
    using s assms(2) by (simp_all add: put_def)
  then have "mem_read (buffer (put bs s)) 0 n = Some bs"
    using assms(2) by (simp add: mem_read_def)
  then show ?thesis
    using Some k \<open>pointer (put bs s) = n\<close> by (simp add: mcs_transmit_def Stream_GetPosition_def)
qed

lemma mcs_write_header_writes:
  assumes "options AND NOT 3 = 0" "domain_pdu_value pdu AND NOT 0x3F = 0"
  shows "writes (mcs_write_domain_mcspdu_header A pdu len options)
    (([3, 0] @ winpr_Data_Write_UINT16_BE len) @ [2, 0xF0, 0x80] @
     [push_bit 2 (of_int (domain_pdu_value pdu)) OR options])"
proof -
  have "unat len \<le> 0xFFFF" "(of_nat (unat len) :: u16) = len"
    by (simp_all add: unat_bounds)
  note tpkt = tpkt_write_header_writes [OF this(1), unfolded this(2)]
  have "writes_as () (mcs_write_domain_mcspdu_header A pdu len options)
     (([3, 0] @ winpr_Data_Write_UINT16_BE len) @ [2, 0xF0, 0x80] @
       [push_bit 2 (of_int (domain_pdu_value pdu)) OR options])"
    unfolding mcs_write_domain_mcspdu_header_def [abs_def]
    by (rule writes_as_assert [OF _ assms(1)], rule writes_as_assert [OF _ assms(2)],
        rule writes_as_seq [OF tpkt writes_as_seq [OF tpdu_write_data_writes _ refl] refl])
      (simp add: writes_as_unit per_choice.wr_writes)
  then show ?thesis by (simp add: writes_as_unit)
qed

lemma readable_static: "length p \<le> PTRDIFF_MAX \<Longrightarrow> readable (Stream_StaticInit p (length p))"
  and rest_static: "rest (Stream_StaticInit p (length p)) = p"
  by (simp_all add: readable_def wf_stream_def Stream_StaticInit_def rest_def)

lemma unat_u16_of_nat: "n \<le> 0xFFFF \<Longrightarrow> unat (of_nat n :: u16) = n"
  by (simp add: unat_of_nat take_bit_nat_eq_self)

lemma mcs_read_header_packet:
  assumes "8 + length body \<le> 0xFFFF" "pdu \<noteq> DomainMCSPDU_invalid" "domain_pdu_value pdu \<noteq> 0"
    "readable s" "rest s = mcs_packet pdu options body"
    "unat (drop_bit 2 (push_bit 2 (of_int (domain_pdu_value pdu)) OR options :: byte)) = v" "v \<le> 43" "domain_pdus ! v = pdu"
  shows "mcs_read_domain_mcspdu_header pdu s = Done (of_nat (8 + length body)) (advance 8 s)"
proof -
  let ?n = "8 + length body"
  let ?c = "push_bit 2 (of_int (domain_pdu_value pdu)) OR options :: byte"
  have n: "unat (of_nat ?n :: u16) = ?n"
    by (rule unat_u16_of_nat [OF assms(1)])
  have four: "winpr_Data_Get_UINT16_BE (take 2 (drop 2 (rest s))) = of_nat ?n"
    unfolding assms(5) mcs_packet_def by simp
  have tpkt: "tpkt_read_header s = Done (of_nat ?n) (advance 4 s)"
    using tpkt_read_header_eq [OF assms(4)] assms(5) n four
    by (simp add: mcs_packet_def Let_def word_less_nat_alt)
  have r4: "rest (advance 4 s) = [2, 0xF0, 0x80] @ [?c] @ body" "readable (advance 4 s)"
    using assms(4,5) by (simp_all add: mcs_packet_def)
  have data: "tpdu_read_data (of_nat ?n) (advance 4 s) = Done 2 (advance 7 s)"
    using tpdu_read_data_bytes [OF r4(2) r4(1), of "of_nat ?n"] n by (simp add: word_le_nat_alt)
  have "readable (advance 7 s)" "rest (advance 7 s) = [?c] @ body"
    using assms(4,5) by (simp_all add: mcs_packet_def)
  from per_choice.rd_enc [OF TrueI this]
  have "per_read_choice (advance 7 s) = Done ?c (advance 8 s)" by simp
  then show ?thesis
    using assms tpkt data
    by (simp add: mcs_read_domain_mcspdu_header_def Let_def)
qed

abbreviation sent_or_failed ::
    "allocator \<Rightarrow> (byte list \<Rightarrow> bool) \<Rightarrow> byte list \<Rightarrow> rdpMcs \<Rightarrow> (byte list, rdpMcs) outcome" where
  "sent_or_failed A tx p mcs \<equiv>
     (if Stream_New A None (length p) = None \<or> \<not> tx p then Fail mcs else Done p mcs)"

text \<open>
  What the senders and receivers of a PDU share: its choice byte carries the PDU's number in six bits
  and its options in two. The header of such a packet is then written and recognised.
\<close>

locale domain_pdu =
  fixes pdu :: DomainMCSPDU and options :: byte
  assumes options_fit: "options AND NOT 3 = 0"
    and number_fits: "domain_pdu_value pdu AND NOT 0x3F = 0"
    and named: "pdu \<noteq> DomainMCSPDU_invalid" "domain_pdu_value pdu \<noteq> 0"
    and choice_number: "unat (drop_bit 2 (push_bit 2 (of_int (domain_pdu_value pdu)) OR options :: byte)) = nat (domain_pdu_value pdu)"
    and known: "nat (domain_pdu_value pdu) \<le> 43" "domain_pdus ! nat (domain_pdu_value pdu) = pdu"
begin

lemma transmitted:
  assumes "builds w body" "n = 8 + length body" "n = unat len"
  shows "mcs_transmit A tx n (\<lambda>s. run_bind (mcs_write_domain_mcspdu_header A pdu len options s) (\<lambda>_ s. w s)) mcs =
    sent_or_failed A tx (mcs_packet pdu options body) mcs"
proof -
  have len: "of_nat (8 + length body) = len"
    using arg_cong [OF assms(3), of "of_nat :: nat \<Rightarrow> u16"] assms(2) by (simp only: word_of_nat_unat) simp
  have "builds (\<lambda>s. run_bind (mcs_write_domain_mcspdu_header A pdu len options s) (\<lambda>_ s. w s))
      (mcs_packet pdu options body)"
    by (rule builds_seq [OF mcs_write_header_writes [OF options_fit number_fits] assms(1)])
      (simp only: mcs_packet_def len append.assoc)
  from mcs_transmit_builds [OF this refl] show ?thesis using assms(2) by simp
qed

lemma recognised:
  assumes "8 + length body \<le> 0xFFFF"
  defines "s \<equiv> Stream_StaticInit (mcs_packet pdu options body) (8 + length body)"
  shows "mcs_read_domain_mcspdu_header pdu s = Done (of_nat (8 + length body)) (advance 8 s)"
    and "readable (advance 8 s)" "rest (advance 8 s) = body"
proof -
  have s: "readable s" "rest s = mcs_packet pdu options body"
    using readable_static [of "mcs_packet pdu options body"] rest_static [of "mcs_packet pdu options body"]
      assms(1) by (simp_all add: s_def PTRDIFF_MAX_def)
  then show "readable (advance 8 s)" "rest (advance 8 s) = body"
    by (simp_all add: mcs_packet_def)
  show "mcs_read_domain_mcspdu_header pdu s = Done (of_nat (8 + length body)) (advance 8 s)"
    by (rule mcs_read_header_packet [OF assms(1) named s choice_number known])
qed

end

interpretation erect_request: domain_pdu DomainMCSPDU_ErectDomainRequest 0
  by unfold_locales (simp_all add: domain_pdus_def)

interpretation attach_request: domain_pdu DomainMCSPDU_AttachUserRequest 0
  by unfold_locales (simp_all add: domain_pdus_def)

interpretation attach_confirm: domain_pdu DomainMCSPDU_AttachUserConfirm 2
  by unfold_locales (simp_all add: domain_pdus_def)

interpretation join_request: domain_pdu DomainMCSPDU_ChannelJoinRequest 0
  by unfold_locales (simp_all add: domain_pdus_def)

interpretation join_confirm: domain_pdu DomainMCSPDU_ChannelJoinConfirm 2
  by unfold_locales (simp_all add: domain_pdus_def)

interpretation ultimatum: domain_pdu DomainMCSPDU_DisconnectProviderUltimatum 1
  by unfold_locales (simp_all add: domain_pdus_def)

text \<open>The packet each sender hands to the transport.\<close>

definition join_confirm_body :: "u16 \<Rightarrow> u16 \<Rightarrow> byte list" where
  "join_confirm_body user channelId =
     [0] @ winpr_Data_Write_UINT16_BE (user - MCS_BASE_CHANNEL_ID) @
     winpr_Data_Write_UINT16_BE channelId @ winpr_Data_Write_UINT16_BE channelId"

lemmas integer16_0 = per_integer16.wr_writes [of 0, simplified]

lemma builds_last: "writes w bs \<Longrightarrow> builds (\<lambda>s. run_bind (w s) (\<lambda>_ s. Stream_SealLength s)) bs"
  by (rule builds_seq [OF _ builds_seal]) simp_all

lemma mcs_send_erect_packet:
  "mcs_send_erect_domain_request A tx mcs =
     sent_or_failed A tx (mcs_packet DomainMCSPDU_ErectDomainRequest 0 [1, 0, 1, 0]) mcs"
proof -
  have w: "writes (per_write_integer A 0) [1, 0]"
    using per_integer.wr_writes [of 0 A] by (simp add: per_integer_bytes_def per_length_bytes_def)
  have "builds (\<lambda>s. run_bind (per_write_integer A 0 s) (\<lambda>_ s.
      run_bind (per_write_integer A 0 s) (\<lambda>_ s. Stream_SealLength s))) [1, 0, 1, 0]"
    by (rule builds_seq [OF w builds_last [OF w]]) simp
  then show ?thesis
    unfolding mcs_send_erect_domain_request_def by (rule erect_request.transmitted) (simp_all)
qed

lemma mcs_send_attach_request_packet:
  "mcs_send_attach_user_request A tx mcs =
     sent_or_failed A tx (mcs_packet DomainMCSPDU_AttachUserRequest 0 []) mcs"
  unfolding mcs_send_attach_user_request_def
  by (rule attach_request.transmitted [OF builds_seal]) simp_all

lemma mcs_send_attach_confirm_packet:
  assumes "MCS_BASE_CHANNEL_ID \<le> baseChannelId mcs"
  shows "mcs_send_attach_user_confirm A tx mcs =
    (if Stream_New A None 11 = None then Fail mcs
     else sent_or_failed A tx (mcs_packet DomainMCSPDU_AttachUserConfirm 2
            ([0] @ winpr_Data_Write_UINT16_BE (baseChannelId mcs - MCS_BASE_CHANNEL_ID)))
          (mcs\<lparr>userId := baseChannelId mcs, baseChannelId := baseChannelId mcs + 1\<rparr>))"
proof -
  have e: "writes (per_write_enumerated A MCS_Result_enum_length 0) [0]"
    using per_enumerated.wr_writes [of 0 MCS_Result_enum_length A] by (simp add: MCS_Result_enum_length_def)
  have "builds (\<lambda>s. run_bind (per_write_enumerated A MCS_Result_enum_length 0 s) (\<lambda>_ s.
      run_bind (per_write_integer16 A MCS_BASE_CHANNEL_ID (baseChannelId mcs) s) (\<lambda>_ s. Stream_SealLength s)))
     ([0] @ winpr_Data_Write_UINT16_BE (baseChannelId mcs - MCS_BASE_CHANNEL_ID))"
    by (rule builds_seq [OF e builds_last [OF per_integer16.wr_writes [OF assms, of A]] refl])
  note sent = attach_confirm.transmitted [OF this, where n = 11 and len = 11 and A = A and tx = tx]
  have eleven: "11 = 8 + length ([0] @ winpr_Data_Write_UINT16_BE (baseChannelId mcs - MCS_BASE_CHANNEL_ID))"
    "11 = unat (11 :: u16)" by simp_all
  have user: "userId (mcs\<lparr>userId := baseChannelId mcs, baseChannelId := baseChannelId mcs + 1\<rparr>) = baseChannelId mcs"
    by simp
  show ?thesis
  proof (cases "Stream_New A None 11")
    case None
    then show ?thesis by (simp add: mcs_send_attach_user_confirm_def)
  next
    case (Some s)
    then show ?thesis
      unfolding mcs_send_attach_user_confirm_def
      by (simp only: option.case Let_def user sent [OF eleven] option.distinct if_False)
  qed
qed

lemma mcs_send_join_request_packet:
  assumes "MCS_BASE_CHANNEL_ID \<le> userId mcs"
  shows "mcs_send_channel_join_request A tx channelId mcs =
    sent_or_failed A tx (mcs_packet DomainMCSPDU_ChannelJoinRequest 0
      (winpr_Data_Write_UINT16_BE (userId mcs - MCS_BASE_CHANNEL_ID) @ winpr_Data_Write_UINT16_BE channelId)) mcs"
proof -
  have "builds (\<lambda>s. run_bind (per_write_integer16 A MCS_BASE_CHANNEL_ID (userId mcs) s) (\<lambda>_ s.
      run_bind (per_write_integer16 A 0 channelId s) (\<lambda>_ s. Stream_SealLength s)))
     (winpr_Data_Write_UINT16_BE (userId mcs - MCS_BASE_CHANNEL_ID) @ winpr_Data_Write_UINT16_BE channelId)"
    by (rule builds_seq [OF per_integer16.wr_writes [OF assms, of A] builds_last [OF integer16_0 [of A channelId]] refl])
  then show ?thesis
    unfolding mcs_send_channel_join_request_def by (rule join_request.transmitted) (simp_all)
qed

lemma mcs_send_join_confirm_packet:
  assumes "MCS_BASE_CHANNEL_ID \<le> userId mcs"
  shows "mcs_send_channel_join_confirm A tx channelId mcs =
    sent_or_failed A tx (mcs_packet DomainMCSPDU_ChannelJoinConfirm 2 (join_confirm_body (userId mcs) channelId)) mcs"
proof -
  have e: "writes (per_write_enumerated A MCS_Result_enum_length 0) [0]"
    using per_enumerated.wr_writes [of 0 MCS_Result_enum_length A] by (simp add: MCS_Result_enum_length_def)
  have "builds (\<lambda>s. run_bind (per_write_enumerated A MCS_Result_enum_length 0 s) (\<lambda>_ s.
      run_bind (per_write_integer16 A MCS_BASE_CHANNEL_ID (userId mcs) s) (\<lambda>_ s.
      run_bind (per_write_integer16 A 0 channelId s) (\<lambda>_ s.
      run_bind (per_write_integer16 A 0 channelId s) (\<lambda>_ s. Stream_SealLength s)))))
     (join_confirm_body (userId mcs) channelId)"
    unfolding join_confirm_body_def
    by (rule builds_seq [OF e builds_seq [OF per_integer16.wr_writes [OF assms, of A]
          builds_seq [OF integer16_0 [of A channelId] builds_last [OF integer16_0 [of A channelId]] refl] refl] refl])
  then show ?thesis
    unfolding mcs_send_channel_join_confirm_def by (rule join_confirm.transmitted) (simp_all add: join_confirm_body_def)
qed

lemma mcs_send_ultimatum_packet:
  "mcs_send_disconnect_provider_ultimatum A tx reason mcs =
     sent_or_failed A tx (mcs_packet DomainMCSPDU_DisconnectProviderUltimatum 1 [0x80]) mcs"
proof -
  have "builds (per_write_enumerated A reason 0x80) [0x80]"
    using per_write_byte(1) [where A = A and b = "0x80"] by (intro builds_writes) (simp add: per_byte_writers)
  then show ?thesis
    unfolding mcs_send_disconnect_provider_ultimatum_def by (rule ultimatum.transmitted) (simp_all)
qed

text \<open>What each receiver makes of the packet.\<close>

abbreviation packet_stream :: "byte list \<Rightarrow> wStream" where
  "packet_stream p \<equiv> Stream_StaticInit p (length p)"

lemma consumed_after:
  assumes "readable s" "rest s = bs" "n \<le> 0xFFFF"
  shows "tpkt_ensure_stream_consumed (unat (of_nat n :: u16)) (advance (length bs) s) = Done () (advance (length bs) s)"
  using assms by (intro consumed_at_end) (simp_all add: unat_bounds)

lemma mcs_recv_erect_packet:
  "\<exists>t. mcs_recv_erect_domain_request mcs (packet_stream (mcs_packet DomainMCSPDU_ErectDomainRequest 0 [1, 0, 1, 0]))
      = Done mcs t \<and> rest t = []"
proof -
  let ?s = "Stream_StaticInit (mcs_packet DomainMCSPDU_ErectDomainRequest 0 [1, 0, 1, 0]) 12"
  have rec: "mcs_read_domain_mcspdu_header DomainMCSPDU_ErectDomainRequest ?s = Done 12 (advance 8 ?s)"
    "readable (advance 8 ?s)" "rest (advance 8 ?s) = [1, 0, 1, 0]"
    using erect_request.recognised [of "[1, 0, 1, 0]"] by simp_all
  have int: "per_read_integer s = Done 0 (advance 2 s)" "readable (advance 2 s)" "rest (advance 2 s) = bs"
    if "readable s" "rest s = [1, 0] @ bs" for s bs
    using per_integer.rd_enc [of 0 s bs] that
    by (simp_all add: per_integer_bytes_def per_length_bytes_def) (simp add: eval_nat_numeral)
  have i1: "per_read_integer (advance 8 ?s) = Done 0 (advance 10 ?s)" "readable (advance 10 ?s)" "rest (advance 10 ?s) = [1, 0]"
    using int [OF rec(2), of "[1, 0]"] rec(3) by simp_all
  have "per_read_integer (advance 10 ?s) = Done 0 (advance 12 ?s)" "rest (advance 12 ?s) = []"
    using int(1,3) [OF i1(2), of "[]"] i1(3) by simp_all
  moreover have "tpkt_ensure_stream_consumed 12 (advance 12 ?s) = Done () (advance 12 ?s)"
    using consumed_after [OF rec(2,3), of 12] by simp
  ultimately show ?thesis
    using rec(1) i1(1) by (simp add: mcs_recv_erect_domain_request_def)
qed

lemma mcs_recv_attach_request_packet:
  "\<exists>t. mcs_recv_attach_user_request mcs (packet_stream (mcs_packet DomainMCSPDU_AttachUserRequest 0 []))
      = Done mcs t \<and> rest t = []"
proof -
  let ?s = "Stream_StaticInit (mcs_packet DomainMCSPDU_AttachUserRequest 0 []) 8"
  have rec: "mcs_read_domain_mcspdu_header DomainMCSPDU_AttachUserRequest ?s = Done 8 (advance 8 ?s)"
    "readable (advance 8 ?s)" "rest (advance 8 ?s) = []"
    using attach_request.recognised [of "[]"] by simp_all
  then show ?thesis
    using consumed_after [OF rec(2,3), of 8] by (simp add: mcs_recv_attach_user_request_def)
qed

lemma result_successful:
  assumes "readable s" "rest s = [0] @ bs"
  shows "per_read_enumerated MCS_Result_enum_length s = Done 0 (advance 1 s)"
  using per_enumerated.rd_enc [of 0 MCS_Result_enum_length s bs] assms by (simp add: MCS_Result_enum_length_def)

lemma read_integer16:
  assumes "mn \<le> v" "readable s" "rest s = winpr_Data_Write_UINT16_BE (v - mn) @ bs"
  shows "per_read_integer16 mn s = Done v (advance 2 s)" "readable (advance 2 s)" "rest (advance 2 s) = bs"
  using per_integer16.rd_enc [OF assms] assms(2,3) by simp_all

lemma mcs_recv_attach_confirm_packet:
  assumes "MCS_BASE_CHANNEL_ID \<le> user"
  shows "\<exists>t. mcs_recv_attach_user_confirm mcs
      (packet_stream (mcs_packet DomainMCSPDU_AttachUserConfirm 2
         ([0] @ winpr_Data_Write_UINT16_BE (user - MCS_BASE_CHANNEL_ID))))
      = Done (mcs\<lparr>userId := user\<rparr>) t \<and> rest t = []"
proof -
  let ?b = "winpr_Data_Write_UINT16_BE (user - MCS_BASE_CHANNEL_ID)"
  let ?s = "Stream_StaticInit (mcs_packet DomainMCSPDU_AttachUserConfirm 2 ([0] @ ?b)) 11"
  have rec: "mcs_read_domain_mcspdu_header DomainMCSPDU_AttachUserConfirm ?s = Done 11 (advance 8 ?s)"
    "readable (advance 8 ?s)" "rest (advance 8 ?s) = [0] @ ?b"
    using attach_confirm.recognised [of "[0] @ ?b"] by simp_all
  have r9: "readable (advance 9 ?s)" "rest (advance 9 ?s) = ?b @ []"
    using readable_advance [OF rec(2), of 1] rest_advance [of 1 "advance 8 ?s"] rec(3) by (simp_all del: rest_advance)
  have "per_read_enumerated MCS_Result_enum_length (advance 8 ?s) = Done 0 (advance 9 ?s)"
    using result_successful [OF rec(2,3)] by simp
  moreover have "per_read_integer16 MCS_BASE_CHANNEL_ID (advance 9 ?s) = Done user (advance 11 ?s)"
    "rest (advance 11 ?s) = []"
    using read_integer16 [OF assms r9] by simp_all
  moreover have "tpkt_ensure_stream_consumed 11 (advance 11 ?s) = Done () (advance 11 ?s)"
    using consumed_after [OF rec(2,3), of 11] by simp
  ultimately show ?thesis
    using rec(1) by (simp add: mcs_recv_attach_user_confirm_def)
qed

lemma mcs_recv_join_request_packet:
  assumes "MCS_BASE_CHANNEL_ID \<le> user"
  shows "\<exists>t. mcs_recv_channel_join_request replay mcs
      (packet_stream (mcs_packet DomainMCSPDU_ChannelJoinRequest 0
         (winpr_Data_Write_UINT16_BE (user - MCS_BASE_CHANNEL_ID) @ winpr_Data_Write_UINT16_BE channelId))) =
      (if user = userId mcs \<or> replay then Done (channelId, mcs\<lparr>userId := user\<rparr>) t else Fail t)
      \<and> (user = userId mcs \<or> replay \<longrightarrow> rest t = [])"
proof -
  let ?b = "winpr_Data_Write_UINT16_BE (user - MCS_BASE_CHANNEL_ID)" and ?c = "winpr_Data_Write_UINT16_BE channelId"
  let ?s = "Stream_StaticInit (mcs_packet DomainMCSPDU_ChannelJoinRequest 0 (?b @ ?c)) 12"
  have rec: "mcs_read_domain_mcspdu_header DomainMCSPDU_ChannelJoinRequest ?s = Done 12 (advance 8 ?s)"
    "readable (advance 8 ?s)" "rest (advance 8 ?s) = ?b @ ?c"
    using join_request.recognised [of "?b @ ?c"] by simp_all
  have u: "per_read_integer16 MCS_BASE_CHANNEL_ID (advance 8 ?s) = Done user (advance 10 ?s)"
    "readable (advance 10 ?s)" "rest (advance 10 ?s) = ?c"
    using read_integer16 [OF assms rec(2,3)] by simp_all
  have "per_read_integer16 0 (advance 10 ?s) = Done channelId (advance 12 ?s)" "rest (advance 12 ?s) = []"
    using read_integer16 [of 0 channelId "advance 10 ?s" "[]"] u(2,3) by simp_all
  moreover have "tpkt_ensure_stream_consumed 12 (advance 12 ?s) = Done () (advance 12 ?s)"
    using consumed_after [OF rec(2,3), of 12] by simp
  ultimately show ?thesis
    using rec(1) u(1) by (auto simp: mcs_recv_channel_join_request_def)
qed

lemma mcs_recv_join_confirm_packet:
  assumes "MCS_BASE_CHANNEL_ID \<le> user"
  shows "\<exists>t. mcs_recv_channel_join_confirm
      (packet_stream (mcs_packet DomainMCSPDU_ChannelJoinConfirm 2 (join_confirm_body user channelId))) = Done channelId t
      \<and> rest t = []"
proof -
  let ?b = "winpr_Data_Write_UINT16_BE (user - MCS_BASE_CHANNEL_ID)" and ?c = "winpr_Data_Write_UINT16_BE channelId"
  let ?s = "Stream_StaticInit (mcs_packet DomainMCSPDU_ChannelJoinConfirm 2 ([0] @ ?b @ ?c @ ?c)) 15"
  have rec: "mcs_read_domain_mcspdu_header DomainMCSPDU_ChannelJoinConfirm ?s = Done 15 (advance 8 ?s)"
    "readable (advance 8 ?s)" "rest (advance 8 ?s) = [0] @ ?b @ ?c @ ?c"
    using join_confirm.recognised [of "[0] @ ?b @ ?c @ ?c"] by simp_all
  have r9: "readable (advance 9 ?s)" "rest (advance 9 ?s) = ?b @ ?c @ ?c"
    using readable_advance [OF rec(2), of 1] rest_advance [of 1 "advance 8 ?s"] rec(3) by (simp_all del: rest_advance)
  have "per_read_enumerated MCS_Result_enum_length (advance 8 ?s) = Done 0 (advance 9 ?s)"
    using result_successful [OF rec(2,3)] by simp
  moreover have u: "per_read_integer16 MCS_BASE_CHANNEL_ID (advance 9 ?s) = Done user (advance 11 ?s)"
    "readable (advance 11 ?s)" "rest (advance 11 ?s) = ?c @ ?c"
    using read_integer16 [OF assms r9] by simp_all
  moreover have q: "per_read_integer16 0 (advance 11 ?s) = Done channelId (advance 13 ?s)"
    "readable (advance 13 ?s)" "rest (advance 13 ?s) = ?c"
    using read_integer16 [of 0 channelId "advance 11 ?s" ?c] u(2,3) by simp_all
  moreover have "per_read_integer16 0 (advance 13 ?s) = Done channelId (advance 15 ?s)" "rest (advance 15 ?s) = []"
    using read_integer16 [of 0 channelId "advance 13 ?s" "[]"] q(2,3) by simp_all
  moreover have "tpkt_ensure_stream_consumed 15 (advance 15 ?s) = Done () (advance 15 ?s)"
    using consumed_after [OF rec(2,3), of 15] by simp
  ultimately show ?thesis
    using rec(1) by (simp add: mcs_recv_channel_join_confirm_def join_confirm_body_def)
qed

section \<open>Properties\<close>

text \<open>C9. The receivers of the connection sequence are memory safe on every input: on any readable
  stream, however short or malformed, they do not abort and only move forward within the stream's
  length. An accepted erect domain or attach user request leaves the server's state as it was. An
  accepted attach user confirm changes the user id only, to a value from 1001 on. An accepted join
  request carries the user id of the server's state and leaves that state as it was, except when a
  transport dump is replayed: then it may set the user id, to a value from 1001 on, and nothing else.\<close>

theorem mcs_receivers_safe:
  assumes "readable s"
  shows "safe_run (reads_from s) (\<lambda>m _. m = mcs) (mcs_recv_erect_domain_request mcs s)
    \<and> safe_run (reads_from s) (\<lambda>m _. m = mcs) (mcs_recv_attach_user_request mcs s)
    \<and> safe_run (reads_from s) (\<lambda>m _. 1001 \<le> userId m \<and> m = mcs\<lparr>userId := userId m\<rparr>)
        (mcs_recv_attach_user_confirm mcs s)
    \<and> safe_run (reads_from s) (\<lambda>x _. 1001 \<le> userId (snd x) \<and> snd x = mcs\<lparr>userId := userId (snd x)\<rparr> \<and>
          (snd x = mcs \<or> replay)) (mcs_recv_channel_join_request replay mcs s)
    \<and> safe_run (reads_from s) (\<lambda>_ _. True) (mcs_recv_channel_join_confirm s)
    \<and> safe_run (reads_from s) (\<lambda>_ _. True) (mcs_read_domain_parameters s)"
proof -
  have "safe_run (reads_from s) (\<lambda>x _. 1001 \<le> userId (snd x) \<and> snd x = mcs\<lparr>userId := userId (snd x)\<rparr> \<and>
      (snd x = mcs \<or> replay)) (mcs_recv_channel_join_request replay mcs s)"
    by (rule safe_run_mono [OF consumes_run [OF mcs_recv_channel_join_request_consumes [of 0] assms]])
      (auto simp: MCS_BASE_CHANNEL_ID_def)
  moreover have "safe_run (reads_from s) (\<lambda>m _. m = mcs) (mcs_recv_erect_domain_request mcs s)"
    "safe_run (reads_from s) (\<lambda>m _. m = mcs) (mcs_recv_attach_user_request mcs s)"
    "safe_run (reads_from s) (\<lambda>m _. MCS_BASE_CHANNEL_ID \<le> userId m \<and> m = mcs\<lparr>userId := userId m\<rparr>)
        (mcs_recv_attach_user_confirm mcs s)"
    "safe_run (reads_from s) (\<lambda>_ _. True) (mcs_recv_channel_join_confirm s)"
    "safe_run (reads_from s) (\<lambda>_ _. True) (mcs_read_domain_parameters s)"
    by (rule consumes_run [OF _ assms], rule safe_intros)+
  ultimately show ?thesis by (simp add: MCS_BASE_CHANNEL_ID_def)
qed

theorem mcs_receivers_safe_witness:
  "readable (Stream_StaticInit [3, 0, 0, 8, 2, 0xF0, 0x80, 0x28] 8) \<and>
   safe_run (reads_from (Stream_StaticInit [3, 0, 0, 8, 2, 0xF0, 0x80, 0x28] 8)) (\<lambda>_ _. True)
     (mcs_recv_channel_join_confirm (Stream_StaticInit [3, 0, 0, 8, 2, 0xF0, 0x80, 0x28] 8))"
proof -
  have "readable (Stream_StaticInit [3, 0, 0, 8, 2, 0xF0, 0x80, 0x28] 8)"
    by (simp add: readable_def Stream_StaticInit_def wf_stream_def PTRDIFF_MAX_def)
  with mcs_receivers_safe [of "Stream_StaticInit [3, 0, 0, 8, 2, 0xF0, 0x80, 0x28] 8"] show ?thesis by blast
qed

text \<open>C3. Each side understands what the other sends. If a sender succeeds, the receiver of the same
  PDU accepts the transmitted packet whole: the erect domain and attach user requests change nothing;
  the attach user confirm hands out the server's next channel id, which the client takes as its user
  id; a join request gives the server the channel and is refused for a foreign user id unless a
  replay is being run; a join confirm gives the client the channel it is for.\<close>

theorem mcs_exchange:
  fixes client server :: rdpMcs
  assumes "MCS_BASE_CHANNEL_ID \<le> baseChannelId server" "MCS_BASE_CHANNEL_ID \<le> userId client"
    "MCS_BASE_CHANNEL_ID \<le> userId server"
  shows "(\<forall>p c. mcs_send_erect_domain_request A tx client = Done p c \<longrightarrow> c = client \<and>
        (\<exists>t. mcs_recv_erect_domain_request server (packet_stream p) = Done server t \<and> rest t = []))
    \<and> (\<forall>p c. mcs_send_attach_user_request A tx client = Done p c \<longrightarrow> c = client \<and>
        (\<exists>t. mcs_recv_attach_user_request server (packet_stream p) = Done server t \<and> rest t = []))
    \<and> (\<forall>p srv. mcs_send_attach_user_confirm A tx server = Done p srv \<longrightarrow>
        userId srv = baseChannelId server \<and> baseChannelId srv = baseChannelId server + 1 \<and>
        (\<exists>t. mcs_recv_attach_user_confirm client (packet_stream p) = Done (client\<lparr>userId := userId srv\<rparr>) t \<and> rest t = []))
    \<and> (\<forall>p c. mcs_send_channel_join_request A tx channelId client = Done p c \<longrightarrow> c = client \<and>
        (\<exists>t. mcs_recv_channel_join_request replay server (packet_stream p) =
          (if userId client = userId server \<or> replay then Done (channelId, server\<lparr>userId := userId client\<rparr>) t else Fail t)))
    \<and> (\<forall>p srv. mcs_send_channel_join_confirm A tx channelId server = Done p srv \<longrightarrow> srv = server \<and>
        (\<exists>t. mcs_recv_channel_join_confirm (packet_stream p) = Done channelId t \<and> rest t = []))"
proof (intro conjI allI impI)
  fix p c assume "mcs_send_erect_domain_request A tx client = Done p c"
  then show "c = client" "\<exists>t. mcs_recv_erect_domain_request server (packet_stream p) = Done server t \<and> rest t = []"
    using mcs_recv_erect_packet [of server] by (auto simp: mcs_send_erect_packet split: if_splits)
next
  fix p c assume "mcs_send_attach_user_request A tx client = Done p c"
  then show "c = client" "\<exists>t. mcs_recv_attach_user_request server (packet_stream p) = Done server t \<and> rest t = []"
    using mcs_recv_attach_request_packet [of server] by (auto simp: mcs_send_attach_request_packet split: if_splits)
next
  fix p srv assume "mcs_send_attach_user_confirm A tx server = Done p srv"
  then show "userId srv = baseChannelId server" "baseChannelId srv = baseChannelId server + 1"
      "\<exists>t. mcs_recv_attach_user_confirm client (packet_stream p) = Done (client\<lparr>userId := userId srv\<rparr>) t \<and> rest t = []"
    using mcs_recv_attach_confirm_packet [OF assms(1), of client]
    by (auto simp: mcs_send_attach_confirm_packet [OF assms(1)] split: if_splits)
next
  fix p c assume "mcs_send_channel_join_request A tx channelId client = Done p c"
  then show "c = client" "\<exists>t. mcs_recv_channel_join_request replay server (packet_stream p) =
      (if userId client = userId server \<or> replay then Done (channelId, server\<lparr>userId := userId client\<rparr>) t else Fail t)"
    using mcs_recv_join_request_packet [OF assms(2), of replay server channelId]
    by (auto simp only: mcs_send_join_request_packet [OF assms(2)] split: if_splits)
next
  fix p srv assume "mcs_send_channel_join_confirm A tx channelId server = Done p srv"
  then show "srv = server" "\<exists>t. mcs_recv_channel_join_confirm (packet_stream p) = Done channelId t \<and> rest t = []"
    using mcs_recv_join_confirm_packet [OF assms(3), of channelId]
    by (auto simp only: mcs_send_join_confirm_packet [OF assms(3)] split: if_splits)
qed

theorem mcs_exchange_witness:
  "\<exists>server client p srv t. mcs_new True = Some server \<and> client = server\<lparr>userId := 1001\<rparr> \<and>
     mcs_send_attach_user_confirm plain_allocator (\<lambda>_. True) (server\<lparr>userId := 1001\<rparr>) = Done p srv \<and>
     userId srv = 1004 \<and>
     mcs_recv_attach_user_confirm client (packet_stream p) = Done (client\<lparr>userId := 1004\<rparr>) t"
proof -
  define server where "server = (the (mcs_new True))\<lparr>userId := 1001\<rparr>"
  have b: "baseChannelId server = 1004" "userId server = 1001"
    by (simp_all add: server_def mcs_new_def MCS_GLOBAL_CHANNEL_ID_def)
  then have ge: "MCS_BASE_CHANNEL_ID \<le> baseChannelId server" "MCS_BASE_CHANNEL_ID \<le> userId server"
    by (simp_all add: MCS_BASE_CHANNEL_ID_def)
  have "Stream_New plain_allocator None 11 \<noteq> None"
    by (simp add: Stream_New_def c_calloc_def plain_allocator_def PTRDIFF_MAX_def)
  then obtain p srv where sent: "mcs_send_attach_user_confirm plain_allocator (\<lambda>_. True) server = Done p srv"
    using mcs_send_attach_confirm_packet [OF ge(1), of plain_allocator "\<lambda>_. True"] by auto
  then have "userId srv = baseChannelId server"
    "\<exists>t. mcs_recv_attach_user_confirm server (packet_stream p) = Done (server\<lparr>userId := userId srv\<rparr>) t"
    using mcs_exchange [OF ge(1) ge(2) ge(2), of plain_allocator "\<lambda>_. True" 0 False] by blast+
  then show ?thesis
    using sent b by (auto simp: server_def mcs_new_def)
qed

text \<open>The outcome of an accepted merge.\<close>

definition merged_pdu_size :: "DomainParameters \<Rightarrow> DomainParameters \<Rightarrow> DomainParameters \<Rightarrow> u32 option" where
  "merged_pdu_size target mn mx =
     (if maxMCSPDUsize target \<ge> 1024 then
        (if maxMCSPDUsize target \<le> 65528 then Some (maxMCSPDUsize target)
         else if maxMCSPDUsize mn \<ge> 124 \<and> maxMCSPDUsize mn \<le> 65528 then Some 65528 else None)
      else if maxMCSPDUsize mx \<ge> 124 then Some (maxMCSPDUsize mx) else None)"

lemma mcs_merge_SomeE:
  assumes "mcs_merge_domain_parameters target mn mx = Some d"
  obtains pduSize where
    "d = \<lparr>maxChannelIds = (if maxChannelIds target \<ge> 4 then maxChannelIds target else 4),
      maxUserIds = (if maxUserIds target \<ge> 3 then maxUserIds target else 3),
      maxTokenIds = maxTokenIds target, numPriorities = 1, minThroughput = minThroughput target,
      maxHeight = 1, maxMCSPDUsize = pduSize, protocolVersion = 2\<rparr>"
    "merged_pdu_size target mn mx = Some pduSize"
  using assms unfolding mcs_merge_domain_parameters_def merged_pdu_size_def [symmetric]
  by (simp only: split: if_split_asm option.split_asm) auto

text \<open>C19. What the server's parameter merge promises. When it accepts a client's target, minimum and
  maximum parameters, the result has at least four channel ids and three user ids, one priority, a
  height of one, protocol version 2 and a PDU size of at least 124; the PDU size is at most 65528
  unless the target asked for less than 1024, where the client's maximum is taken as it is. A result
  with a PDU size of at most 65528 is a fixed point of the merge.\<close>

theorem mcs_merge_bounds:
  assumes "mcs_merge_domain_parameters target mn mx = Some d"
  shows "4 \<le> maxChannelIds d \<and> 3 \<le> maxUserIds d \<and> numPriorities d = 1 \<and> maxHeight d = 1 \<and>
    protocolVersion d = 2 \<and> 124 \<le> maxMCSPDUsize d \<and>
    (maxMCSPDUsize d \<le> 65528 \<or> maxMCSPDUsize target < 1024 \<and> maxMCSPDUsize d = maxMCSPDUsize mx) \<and>
    (maxMCSPDUsize d \<le> 65528 \<longrightarrow> mcs_merge_domain_parameters d d d = Some d)"
proof -
  obtain pduSize where p: "d = \<lparr>maxChannelIds = (if maxChannelIds target \<ge> 4 then maxChannelIds target else 4),
      maxUserIds = (if maxUserIds target \<ge> 3 then maxUserIds target else 3),
      maxTokenIds = maxTokenIds target, numPriorities = 1, minThroughput = minThroughput target,
      maxHeight = 1, maxMCSPDUsize = pduSize, protocolVersion = 2\<rparr>"
    and sz: "merged_pdu_size target mn mx = Some pduSize"
    using assms by (rule mcs_merge_SomeE)
  have "124 \<le> pduSize" "pduSize \<le> 65528 \<or> maxMCSPDUsize target < 1024 \<and> pduSize = maxMCSPDUsize mx"
    using sz unfolding merged_pdu_size_def by (auto split: if_splits simp: word_le_nat_alt word_less_nat_alt)
  moreover have "mcs_merge_domain_parameters d d d = Some d" if "pduSize \<le> 65528"
    using that \<open>124 \<le> pduSize\<close> p by (auto simp: mcs_merge_domain_parameters_def)
  ultimately show ?thesis
    using p by auto
qed

theorem mcs_merge_bounds_witness:
  "\<exists>d. mcs_merge_domain_parameters (mcs_init_domain_parameters 34 2 0 0xFFFF)
       (mcs_init_domain_parameters 1 1 1 0x420) (mcs_init_domain_parameters 0xFFFF 0xFC17 0xFFFF 0xFFFF) = Some d \<and>
     maxMCSPDUsize d = 65528 \<and> maxUserIds d = 3 \<and> mcs_merge_domain_parameters d d d = Some d"
proof -
  define d where "d = (mcs_init_domain_parameters 34 3 0 65528)"
  have "mcs_merge_domain_parameters (mcs_init_domain_parameters 34 2 0 0xFFFF)
      (mcs_init_domain_parameters 1 1 1 0x420) (mcs_init_domain_parameters 0xFFFF 0xFC17 0xFFFF 0xFFFF) = Some d"
    by (simp add: mcs_merge_domain_parameters_def mcs_init_domain_parameters_def d_def)
  from this mcs_merge_bounds [OF this] show ?thesis
    by (simp add: d_def mcs_init_domain_parameters_def)
qed

section \<open>Domain parameters on the wire\<close>

abbreviation parameter_list :: "DomainParameters \<Rightarrow> u32 list" where
  "parameter_list d \<equiv> [maxChannelIds d, maxUserIds d, maxTokenIds d, numPriorities d, minThroughput d,
     maxHeight d, maxMCSPDUsize d, protocolVersion d]"

definition parameter_bytes :: "DomainParameters \<Rightarrow> byte list" where
  "parameter_bytes d =
     (let c = concat (map ber_integer_bytes (parameter_list d)) in (0x30 # ber_length_bytes (length c)) @ c)"

lemma length_ber_integer_bytes: "2 \<le> length (ber_integer_bytes v)" "length (ber_integer_bytes v) \<le> 6"
  by (simp_all add: ber_integer_bytes_def)

lemma parameter_bytes_eq:
  fixes d :: DomainParameters
  defines "c \<equiv> concat (map ber_integer_bytes (parameter_list d))"
  shows "parameter_bytes d = (0x30 # ber_length_bytes (length c)) @ c" and "length c \<le> 48"
proof -
  show "parameter_bytes d = (0x30 # ber_length_bytes (length c)) @ c"
    by (simp only: parameter_bytes_def Let_def c_def)
  have "length c \<le> sum_list (map (\<lambda>v. 6) (parameter_list d))"
    unfolding c_def length_concat map_map o_def by (rule sum_list_mono) (rule length_ber_integer_bytes)
  then show "length c \<le> 48" by simp
qed

lemma mcs_write_integers_writes:
  assumes "list_all ber_integer_fits vs"
  shows "writes (mcs_write_integers vs) (concat (map ber_integer_bytes vs))"
  using assms
proof (induction vs)
  case Nil
  then show ?case using writes_done by (simp add: writes_def)
next
  case (Cons v vs)
  have "writes_as () (\<lambda>s. run_bind (ber_write_integer v s) (\<lambda>r s. if r = 0 then Fail s else mcs_write_integers vs s))
      (ber_integer_bytes v @ concat (map ber_integer_bytes vs))"
    by (rule writes_as_seq [OF ber_write_integer_writes _ refl])
      (use Cons in \<open>simp_all add: ber_sizeof_integer_def writes_as_unit\<close>)
  then show ?case by (simp add: writes_as_unit)
qed

lemma with_scratch_writes:
  assumes "writes build c" "writes (finish c) bs" "wf_stream s" "room (length bs) s" "length c \<le> length bs"
  shows "with_scratch A build finish s =
    (if Stream_New A None (capacity s) = None then Fail s else Done () (put bs s))"
proof (cases "Stream_New A None (capacity s)")
  case None
  then show ?thesis by (simp add: with_scratch_def)
next
  case (Some t)
  then have t: "wf_stream t" "pointer t = 0" "capacity t = capacity s"
    by (auto simp: Stream_New_def wf_stream_def c_calloc_def split: if_splits)
  then have "room (length c) t"
    using assms(4,5) by (simp add: room_def)
  then have "build t = Done () (put c t)" using assms(1) t by (simp add: writes_def)
  moreover have "mem_read (buffer (put c t)) 0 (Stream_GetPosition (put c t)) = Some c"
    using t by (simp add: put_def mem_read_def Stream_GetPosition_def)
  ultimately show ?thesis
    using Some assms(2-4) by (simp add: with_scratch_def writes_def)
qed

lemma mcs_write_domain_parameters_bytes:
  assumes "list_all ber_integer_fits (parameter_list d)" "wf_stream s" "room (length (parameter_bytes d)) s"
  shows "mcs_write_domain_parameters A d s =
    (if Stream_New A None (capacity s) = None then Fail s else Done () (put (parameter_bytes d) s))"
proof -
  define c where "c = concat (map ber_integer_bytes (parameter_list d))"
  note pb = parameter_bytes_eq(1) [of d, folded c_def]
  have "length c \<le> 0xFFFF" using parameter_bytes_eq(2) [of d, folded c_def] by simp
  then have "writes_as () (\<lambda>s. run_bind (ber_write_sequence_tag (length c) s) (\<lambda>r s.
      if r = 0 then Fail s else Stream_Write s c)) (parameter_bytes d)"
    unfolding pb
    by (intro writes_as_seq [OF ber_write_sequence_tag_writes _ refl])
      (simp_all add: ber_sizeof_sequence_tag_def writes_as_unit writes_Write)
  then show ?thesis
    unfolding mcs_write_domain_parameters_def
    by (intro with_scratch_writes [OF mcs_write_integers_writes [OF assms(1), folded c_def] _ assms(2,3)])
      (simp_all add: writes_as_unit pb)
qed

lemma mcs_read_domain_parameters_bytes:
  assumes "list_all ber_integer_fits (parameter_list d)" "readable s" "rest s = parameter_bytes d @ bs"
  shows "mcs_read_domain_parameters s = Done d (advance (length (parameter_bytes d)) s)"
proof -
  define c where "c = concat (map ber_integer_bytes (parameter_list d))"
  note pb = parameter_bytes_eq(1) [of d, folded c_def]
  have "length c \<le> 0xFFFF" using parameter_bytes_eq(2) [of d, folded c_def] by simp
  then have seq: "ber_read_sequence_tag s = Done (length c) (advance (length (0x30 # ber_length_bytes (length c))) s)"
    using assms(2,3) by (intro ber_seq.rd_enc) (simp_all add: pb)
  let ?t = "advance (length (0x30 # ber_length_bytes (length c))) s"
  have t: "readable ?t" "rest ?t = c @ bs"
    using assms(2,3) by (simp_all add: pb)
  have "read_each (ber_read_integer True) 8 ?t = Done (parameter_list d) (advance (length c) ?t)"
    using wire_codec.rd_enc [OF ber_int.each_codec, of "parameter_list d" 8 ?t bs] assms(1) t by (simp add: c_def)
  moreover have "mcs_read_domain_parameters s = run_bind (ber_read_sequence_tag s) (\<lambda>_ s.
      run_bind (read_each (ber_read_integer True) 8 s) (\<lambda>vs s.
        Done \<lparr>maxChannelIds = vs ! 0, maxUserIds = vs ! 1, maxTokenIds = vs ! 2, numPriorities = vs ! 3,
          minThroughput = vs ! 4, maxHeight = vs ! 5, maxMCSPDUsize = vs ! 6, protocolVersion = vs ! 7\<rparr> s))"
    by (simp add: mcs_read_domain_parameters_def eval_nat_numeral run_bind_assoc)
  ultimately show ?thesis
    using seq by (simp add: pb add.assoc)
qed

lemma mcs_write_integers_aborts:
  assumes "v \<in> set vs" "\<not> ber_integer_fits v" "wf_stream s" "room (6 * length vs) s"
  shows "mcs_write_integers vs s = Abort"
  using assms
proof (induction vs arbitrary: s)
  case Nil
  then show ?case by simp
next
  case (Cons w vs)
  show ?case
  proof (cases "ber_integer_fits w")
    case True
    then have "v \<in> set vs" using Cons.prems by auto
    have rm: "room (length (ber_integer_bytes w)) s"
      using Cons.prems(4) by (rule room_mono) (use length_ber_integer_bytes(2) [of w] in simp)
    have "ber_write_integer w s = Done (ber_sizeof_integer w) (put (ber_integer_bytes w) s)"
      using ber_write_integer_writes [OF True] Cons.prems(3) rm by (simp add: writes_as_def)
    moreover have "mcs_write_integers vs (put (ber_integer_bytes w) s) = Abort"
    proof (rule Cons.IH [OF \<open>v \<in> set vs\<close> Cons.prems(2) wf_put [OF Cons.prems(3) rm]])
      show "room (6 * length vs) (put (ber_integer_bytes w) s)"
        using Cons.prems(4) length_ber_integer_bytes(2) [of w] by (auto intro: room_mono)
    qed
    ultimately show ?thesis by (simp add: ber_sizeof_integer_def)
  next
    case False
    then have "ber_write_integer w s = Abort"
      by (intro ber_write_integer_aborts) (simp_all add: ber_integer_fits_def not_le)
    then show ?thesis by simp
  qed
qed

lemma mcs_write_domain_parameters_aborts:
  assumes "v \<in> set (parameter_list d)" "\<not> ber_integer_fits v" "wf_stream s" "48 \<le> capacity s"
    "Stream_New A None (capacity s) \<noteq> None"
  shows "mcs_write_domain_parameters A d s = Abort"
proof -
  obtain t where t: "Stream_New A None (capacity s) = Some t" "wf_stream t" "room (capacity s) t"
    using assms(5) by (auto simp: Stream_New_def wf_stream_def room_def c_calloc_def split: if_splits)
  have "room (6 * length (parameter_list d)) t"
    using t(3) assms(4) by (auto intro: room_mono)
  from mcs_write_integers_aborts [OF assms(1,2) t(2) this] show ?thesis
    using t(1) by (simp add: mcs_write_domain_parameters_def with_scratch_def)
qed

text \<open>C20. Domain parameters survive the wire. Unless a field lies in the range from 65536 to 8388607
  that \<open>ber_write_integer\<close> cannot write, writing the parameters into a stream with room for them and
  reading from the old position gives the same parameters; with such a field the writer aborts. The
  scratch stream of the writer is taken to be allocated.\<close>

theorem mcs_domain_parameters_round_trip:
  assumes "wf_stream s" "room 64 s" "Stream_New A None (capacity s) \<noteq> None"
  shows "if list_all ber_integer_fits (parameter_list d)
    then run_bind (mcs_write_domain_parameters A d s) (\<lambda>_ t. reread (pointer s) mcs_read_domain_parameters t) =
      Done d ((put (parameter_bytes d) s)\<lparr>slength := pointer s + length (parameter_bytes d)\<rparr>)
    else mcs_write_domain_parameters A d s = Abort"
proof (cases "list_all ber_integer_fits (parameter_list d)")
  case True
  have len: "length (parameter_bytes d) \<le> 64"
    unfolding parameter_bytes_eq(1) using parameter_bytes_eq(2) [of d]
    by (simp add: length_ber_length_bytes ber_sizeof_length_def)
  have rm: "room (length (parameter_bytes d)) s"
    using assms(2) len by (rule room_mono)
  note w = mcs_write_domain_parameters_bytes [OF True assms(1) rm, of A]
  have pos: "length (written s) = pointer s" "pointer (put (parameter_bytes d) s) = pointer s + length (parameter_bytes d)"
    using assms(1) by (simp_all add: written_def wf_stream_def put_def)
  note rr = reread_eq [OF wf_put [OF assms(1) rm] written_put [OF assms(1)], unfolded pos]
  have "mcs_read_domain_parameters (rewound (pointer s) (put (parameter_bytes d) s)) =
      Done d (advance (length (parameter_bytes d)) (rewound (pointer s) (put (parameter_bytes d) s)))"
    by (rule mcs_read_domain_parameters_bytes [OF True, where bs = "[]"]) (use rr(2,3) in simp_all)
  moreover have "advance (length (parameter_bytes d)) (rewound (pointer s) (put (parameter_bytes d) s)) =
      (put (parameter_bytes d) s)\<lparr>slength := pointer s + length (parameter_bytes d)\<rparr>"
    using advance_rewound [of "pointer s" "length (parameter_bytes d)" "put (parameter_bytes d) s"] pos by simp
  ultimately show ?thesis
    using True w assms(3) reread_eq(1) [OF wf_put [OF assms(1) rm] written_put [OF assms(1)], unfolded pos,
        of mcs_read_domain_parameters]
    by simp
next
  case False
  then obtain v where "v \<in> set (parameter_list d)" "\<not> ber_integer_fits v"
    by (auto simp only: list_all_iff)
  moreover have "48 \<le> capacity s" using assms(1,2) by (simp add: room_def)
  ultimately show ?thesis
    using mcs_write_domain_parameters_aborts [of v d s A] False assms(1,3) by auto
qed

theorem mcs_domain_parameters_round_trip_witness:
  "run_bind (mcs_write_domain_parameters plain_allocator (mcs_init_domain_parameters 34 2 0 0xFFFF)
        (Stream_StaticInit (replicate 64 0) 64)) (\<lambda>_ t. reread 0 mcs_read_domain_parameters t) =
     Done (mcs_init_domain_parameters 34 2 0 0xFFFF)
       ((put (parameter_bytes (mcs_init_domain_parameters 34 2 0 0xFFFF)) (Stream_StaticInit (replicate 64 0) 64))
          \<lparr>slength := length (parameter_bytes (mcs_init_domain_parameters 34 2 0 0xFFFF))\<rparr>)"
proof -
  let ?s = "Stream_StaticInit (replicate 64 0) 64" and ?d = "mcs_init_domain_parameters 34 2 0 0xFFFF"
  have "wf_stream ?s" "room 64 ?s" "Stream_New plain_allocator None (capacity ?s) \<noteq> None" "pointer ?s = 0"
    by (simp_all add: Stream_StaticInit_def wf_stream_def room_def PTRDIFF_MAX_def Stream_New_def
        c_calloc_def plain_allocator_def)
  moreover have "list_all ber_integer_fits (parameter_list ?d)"
    by (simp add: mcs_init_domain_parameters_def ber_integer_fits_def)
  ultimately show ?thesis
    using mcs_domain_parameters_round_trip [of ?s plain_allocator ?d] by simp
qed

text \<open>C21. A client can make the server abort. Nothing in the merge bounds the PDU size when the target
  asks for less than 1024: a maximum between 65536 and 8388607 is accepted, and writing the connect
  response with the merged parameters then fails an assertion of \<open>ber_write_integer\<close>, on every
  response stream of at least 64 bytes, whatever the user data.\<close>

theorem mcs_merged_response_aborts:
  assumes "mcs_merge_domain_parameters target mn mx = Some (domainParameters mcs)"
    "maxMCSPDUsize target < 1024" "0xFFFF < maxMCSPDUsize mx" "maxMCSPDUsize mx < 0x800000"
    "64 \<le> capacity s" "Stream_New A None (capacity s) \<noteq> None"
  shows "mcs_write_connect_response A mcs userData s = Abort"
proof -
  obtain t where t: "Stream_New A None (capacity s) = Some t" "wf_stream t" "room (capacity s) t" "capacity t = capacity s"
    using assms(6) by (auto simp: Stream_New_def wf_stream_def room_def c_calloc_def split: if_splits)
  have size: "maxMCSPDUsize (domainParameters mcs) = maxMCSPDUsize mx"
  proof -
    obtain pduSize where "maxMCSPDUsize (domainParameters mcs) = pduSize"
      "merged_pdu_size target mn mx = Some pduSize"
      using assms(1) by (rule mcs_merge_SomeE) simp
    then show ?thesis
      using assms(2) by (auto simp: merged_pdu_size_def not_le [symmetric] split: if_splits)
  qed
  let ?v = "maxMCSPDUsize (domainParameters mcs)"
  have bad: "?v \<in> set (parameter_list (domainParameters mcs))" "\<not> ber_integer_fits ?v"
    using assms(3,4) size by (simp_all add: ber_integer_fits_def not_le)
  have fits: "ber_integer_fits 0" by (simp add: ber_integer_fits_def)
  let ?bs = "[0x0A, 1, 0] @ ber_integer_bytes 0"
  have "length ?bs \<le> 64" using length_ber_integer_bytes(2) [of 0] by simp
  then have rm: "room (length ?bs) t" using t(3) assms(5) by (auto intro: room_mono)
  have r3: "room (length [0x0A, 1, 0 :: byte]) t" using rm by (rule room_mono) simp
  have w1: "ber_write_enumerated 0 t = Done () (put [0x0A, 1, 0] t)"
    using ber_write_enumerated_writes [of 0] t(2) r3 by (simp add: writes_as_def ber_universal_def BER_PC_def)
  have w2: "ber_write_integer 0 (put [0x0A, 1, 0] t) = Done (ber_sizeof_integer 0) (put ?bs t)"
    using ber_write_integer_writes [OF fits] rm wf_put [OF t(2) r3] t(2)
    by (simp add: writes_as_def put_put)
  have "wf_stream (put ?bs t)" "capacity (put ?bs t) = capacity s"
    using wf_put [OF t(2) rm] t(4) by (simp_all add: put_def)
  then have "mcs_write_domain_parameters A (domainParameters mcs) (put ?bs t) = Abort"
    using assms(5,6) by (intro mcs_write_domain_parameters_aborts [OF bad]) simp_all
  then show ?thesis
    using t(1) w1 w2 by (simp add: mcs_write_connect_response_def with_scratch_def ber_sizeof_integer_def)
qed

theorem mcs_merged_response_aborts_witness:
  "\<exists>mcs d. mcs_new True = Some mcs \<and>
     mcs_merge_domain_parameters (mcs_init_domain_parameters 34 3 0 1000) (mcs_init_domain_parameters 1 1 1 124)
       (mcs_init_domain_parameters 0xFFFF 0xFC17 0xFFFF 0x10000) = Some d \<and>
     mcs_write_connect_response plain_allocator (mcs\<lparr>domainParameters := d\<rparr>) [1, 2, 3]
       (Stream_StaticInit (replicate 64 0) 64) = Abort"
proof -
  let ?t = "mcs_init_domain_parameters 34 3 0 1000" and ?n = "mcs_init_domain_parameters 1 1 1 124"
    and ?x = "mcs_init_domain_parameters 0xFFFF 0xFC17 0xFFFF 0x10000" and ?s = "Stream_StaticInit (replicate 64 0) 64"
  obtain d where d: "mcs_merge_domain_parameters ?t ?n ?x = Some d"
    by (simp add: mcs_merge_domain_parameters_def mcs_init_domain_parameters_def)
  let ?mcs = "(the (mcs_new True))\<lparr>domainParameters := d\<rparr>"
  have "maxMCSPDUsize ?t < 1024" "0xFFFF < maxMCSPDUsize ?x" "maxMCSPDUsize ?x < 0x800000" "64 \<le> capacity ?s"
    "Stream_New plain_allocator None (capacity ?s) \<noteq> None"
    by (simp_all add: mcs_init_domain_parameters_def Stream_StaticInit_def PTRDIFF_MAX_def Stream_New_def
        c_calloc_def plain_allocator_def)
  then have "mcs_write_connect_response plain_allocator ?mcs [1, 2, 3] ?s = Abort"
    using d by (intro mcs_merged_response_aborts [of ?t ?n ?x]) simp_all
  then show ?thesis
    using d by (auto simp: mcs_new_def)
qed

lemma reason_bits: "unat (push_bit 1 (b1 AND 1) OR drop_bit 7 b2 :: byte) < 4"
proof -
  have "unat (drop_bit 7 b2) < 2"
    using unat_u8_le [of b2] by (simp add: drop_bit_eq_div unat_div less_mult_imp_div_less)
  then have "unat (drop_bit 7 b2) = 0 \<or> unat (drop_bit 7 b2) = 1"
    by linarith
  then have "drop_bit 7 b2 = 0 \<or> drop_bit 7 b2 = 1"
    by (metis unat_eq_zero unat_1 word_unat_eq_iff)
  moreover have "b1 AND 1 = 0 \<or> b1 AND 1 = 1"
    by (simp add: and_one_eq mod_2_eq_odd)
  ultimately show ?thesis
    by (elim disjE) (simp_all only:, simp_all)
qed
lemma ultimatum_read:
  assumes "readable t" "0 < pointer t"
  shows "mcs_recv_disconnect_provider_ultimatum t =
    (if rest t = [] then Fail t
     else Done (unat (push_bit 1 (buffer t ! (pointer t - 1) AND 1) OR drop_bit 7 (hd (rest t)))) (advance 1 t))"
proof (cases "rest t")
  case Nil
  then show ?thesis using assms by (simp add: mcs_recv_disconnect_provider_ultimatum_def run_guard_def)
next
  case (Cons b2 bs)
  obtain k where k: "pointer t = Suc k" using assms(2) by (cases "pointer t") auto
  let ?u = "t\<lparr>pointer := k\<rparr>"
  have u: "readable ?u" "advance 1 ?u = t"
    using assms k by (auto simp: readable_def wf_stream_def advance_def)
  have "k < length (take (slength t) (buffer t))" "k < slength t"
    using assms k by (auto simp: readable_def wf_stream_def)
  then have r: "rest ?u = buffer t ! k # b2 # bs"
    using Cons k Cons_nth_drop_Suc [of k "take (slength t) (buffer t)"] by (simp add: rest_def)
  have "Stream_Rewind t 1 = Done () ?u"
    using k by (simp add: Stream_Rewind_def Stream_GetPosition_def)
  then show ?thesis
    using Cons u r k assms(1) by (simp add: mcs_recv_disconnect_provider_ultimatum_def)
qed

text \<open>C30. The disconnect ultimatum does not carry its reason. Whatever reason the sender is given, the
  packet is the same, and the receiver, standing behind the choice byte, reads reason 3 from it. On
  any stream that has one byte before its position the receiver is safe and returns a reason below 4.\<close>

theorem mcs_ultimatum_reason:
  assumes "readable s" "0 < pointer s"
  shows "mcs_send_disconnect_provider_ultimatum A tx reason mcs = mcs_send_disconnect_provider_ultimatum A tx reason' mcs
    \<and> (\<forall>p m. mcs_send_disconnect_provider_ultimatum A tx reason mcs = Done p m \<longrightarrow>
        (\<exists>t. mcs_recv_disconnect_provider_ultimatum (advance 8 (packet_stream p)) = Done 3 t))
    \<and> safe_run (\<lambda>t. reads_from (s\<lparr>pointer := pointer s - 1\<rparr>) t) (\<lambda>r _. r < 4) (mcs_recv_disconnect_provider_ultimatum s)"
proof -
  let ?p = "mcs_packet DomainMCSPDU_DisconnectProviderUltimatum 1 [0x80]"
  let ?t = "Stream_StaticInit ?p 9"
  have t: "readable (advance 8 ?t)" "rest (advance 8 ?t) = [0x80]"
    using ultimatum.recognised(2,3) [of "[0x80]"] by simp_all
  have b: "buffer (advance 8 ?t) ! (pointer (advance 8 ?t) - 1) = 0x21" "0 < pointer (advance 8 ?t)"
    by (simp_all add: advance_def Stream_StaticInit_def mcs_packet_def winpr_Data_Write_UINT16_BE_def)
  have "\<exists>u. mcs_recv_disconnect_provider_ultimatum (advance 8 (packet_stream ?p)) = Done 3 u"
    using ultimatum_read [OF t(1) b(2), unfolded t(2) b(1)] by simp
  moreover have "safe_run (\<lambda>t. reads_from (s\<lparr>pointer := pointer s - 1\<rparr>) t) (\<lambda>r _. r < 4)
      (mcs_recv_disconnect_provider_ultimatum s)"
  proof -
    have "reads_from (s\<lparr>pointer := pointer s - 1\<rparr>) s"
      using assms by (auto simp: reads_from_def readable_def)
    moreover have "rest s \<noteq> [] \<Longrightarrow> reads_from (s\<lparr>pointer := pointer s - 1\<rparr>) (advance 1 s)"
      using reads_from_trans [OF \<open>reads_from (s\<lparr>pointer := pointer s - 1\<rparr>) s\<close> reads_from_advance [OF assms(1), of 1]]
      by (cases "rest s") simp_all
    ultimately show ?thesis
      by (simp only: ultimatum_read [OF assms]) (simp only: reason_bits safe_run_Done safe_run_Fail split: if_split, blast)
  qed
  ultimately show ?thesis
    by (auto simp: mcs_send_ultimatum_packet)
qed

theorem mcs_ultimatum_reason_witness:
  "\<exists>mcs p m t. mcs_new True = Some mcs \<and>
     mcs_send_disconnect_provider_ultimatum plain_allocator (\<lambda>_. True) 1 mcs = Done p m \<and>
     mcs_recv_disconnect_provider_ultimatum (advance 8 (packet_stream p)) = Done 3 t"
proof -
  obtain mcs where m: "mcs_new True = Some mcs" by (simp add: mcs_new_def)
  have "Stream_New plain_allocator None 9 \<noteq> None"
    by (simp add: Stream_New_def c_calloc_def plain_allocator_def PTRDIFF_MAX_def)
  then obtain p m' where s: "mcs_send_disconnect_provider_ultimatum plain_allocator (\<lambda>_. True) 1 mcs = Done p m'"
    by (auto simp: mcs_send_ultimatum_packet)
  let ?s = "advance 1 (Stream_StaticInit [0x21, 0x80] 2)"
  have "readable ?s" "0 < pointer ?s"
    by (simp_all add: advance_def Stream_StaticInit_def readable_def wf_stream_def PTRDIFF_MAX_def)
  from mcs_ultimatum_reason [OF this, of plain_allocator "\<lambda>_. True" 1 mcs 1] s m show ?thesis by blast
qed

end
