(* ===== verification/Channel_Join.thy ===== *)
theory Channel_Join
  imports Mcs
begin

text \<open>
  The channel join phase of the connection sequence, for both sides: the connection states and their
  transitions, the client's handlers of \<open>rdp_recv_callback_int\<close> for the attach user confirm and the
  channel join confirms, and the server's \<open>rdp_server_accept_mcs_*\<close> handlers
  (\<open>libfreerdp/core/connection.c\<close>, \<open>libfreerdp/core/rdp.c\<close>). A handler takes the packet's stream and
  the connection; packets go to the transport and are kept in the order sent, and so are the events
  published to the application, whose subscribers are not part of the model. The key exchange and
  the client info packet that follow the phase are known by their success only. The theory shows
  that neither side leaves the phase before every channel is joined, whatever the peer sends, and
  that two sides that agree on the channels complete it.
\<close>

section \<open>Connection states\<close>

datatype CONNECTION_STATE =
    CONNECTION_STATE_INITIAL
  | CONNECTION_STATE_NEGO
  | CONNECTION_STATE_NLA
  | CONNECTION_STATE_AAD
  | CONNECTION_STATE_MCS_CREATE_REQUEST
  | CONNECTION_STATE_MCS_CREATE_RESPONSE
  | CONNECTION_STATE_MCS_ERECT_DOMAIN
  | CONNECTION_STATE_MCS_ATTACH_USER
  | CONNECTION_STATE_MCS_ATTACH_USER_CONFIRM
  | CONNECTION_STATE_MCS_CHANNEL_JOIN_REQUEST
  | CONNECTION_STATE_MCS_CHANNEL_JOIN_RESPONSE
  | CONNECTION_STATE_RDP_SECURITY_COMMENCEMENT
  | CONNECTION_STATE_SECURE_SETTINGS_EXCHANGE
  | CONNECTION_STATE_CONNECT_TIME_AUTO_DETECT_REQUEST
  | CONNECTION_STATE_CONNECT_TIME_AUTO_DETECT_RESPONSE
  | CONNECTION_STATE_LICENSING
  | CONNECTION_STATE_MULTITRANSPORT_BOOTSTRAPPING_REQUEST
  | CONNECTION_STATE_MULTITRANSPORT_BOOTSTRAPPING_RESPONSE
  | CONNECTION_STATE_CAPABILITIES_EXCHANGE_DEMAND_ACTIVE
  | CONNECTION_STATE_CAPABILITIES_EXCHANGE_MONITOR_LAYOUT
  | CONNECTION_STATE_CAPABILITIES_EXCHANGE_CONFIRM_ACTIVE
  | CONNECTION_STATE_FINALIZATION_SYNC
  | CONNECTION_STATE_FINALIZATION_COOPERATE
  | CONNECTION_STATE_FINALIZATION_REQUEST_CONTROL
  | CONNECTION_STATE_FINALIZATION_PERSISTENT_KEY_LIST
  | CONNECTION_STATE_FINALIZATION_FONT_LIST
  | CONNECTION_STATE_FINALIZATION_CLIENT_SYNC
  | CONNECTION_STATE_FINALIZATION_CLIENT_COOPERATE
  | CONNECTION_STATE_FINALIZATION_CLIENT_GRANTED_CONTROL
  | CONNECTION_STATE_FINALIZATION_CLIENT_FONT_MAP
  | CONNECTION_STATE_ACTIVE

text \<open>The enumerators count up from 0, so the states compare by their place in the sequence.\<close>

definition connection_states :: "CONNECTION_STATE list" where
  "connection_states =
     [CONNECTION_STATE_INITIAL, CONNECTION_STATE_NEGO, CONNECTION_STATE_NLA, CONNECTION_STATE_AAD,
      CONNECTION_STATE_MCS_CREATE_REQUEST, CONNECTION_STATE_MCS_CREATE_RESPONSE,
      CONNECTION_STATE_MCS_ERECT_DOMAIN, CONNECTION_STATE_MCS_ATTACH_USER,
      CONNECTION_STATE_MCS_ATTACH_USER_CONFIRM, CONNECTION_STATE_MCS_CHANNEL_JOIN_REQUEST,
      CONNECTION_STATE_MCS_CHANNEL_JOIN_RESPONSE, CONNECTION_STATE_RDP_SECURITY_COMMENCEMENT,
      CONNECTION_STATE_SECURE_SETTINGS_EXCHANGE, CONNECTION_STATE_CONNECT_TIME_AUTO_DETECT_REQUEST,
      CONNECTION_STATE_CONNECT_TIME_AUTO_DETECT_RESPONSE, CONNECTION_STATE_LICENSING,
      CONNECTION_STATE_MULTITRANSPORT_BOOTSTRAPPING_REQUEST,
      CONNECTION_STATE_MULTITRANSPORT_BOOTSTRAPPING_RESPONSE,
      CONNECTION_STATE_CAPABILITIES_EXCHANGE_DEMAND_ACTIVE,
      CONNECTION_STATE_CAPABILITIES_EXCHANGE_MONITOR_LAYOUT,
      CONNECTION_STATE_CAPABILITIES_EXCHANGE_CONFIRM_ACTIVE, CONNECTION_STATE_FINALIZATION_SYNC,
      CONNECTION_STATE_FINALIZATION_COOPERATE, CONNECTION_STATE_FINALIZATION_REQUEST_CONTROL,
      CONNECTION_STATE_FINALIZATION_PERSISTENT_KEY_LIST, CONNECTION_STATE_FINALIZATION_FONT_LIST,
      CONNECTION_STATE_FINALIZATION_CLIENT_SYNC, CONNECTION_STATE_FINALIZATION_CLIENT_COOPERATE,
      CONNECTION_STATE_FINALIZATION_CLIENT_GRANTED_CONTROL,
      CONNECTION_STATE_FINALIZATION_CLIENT_FONT_MAP, CONNECTION_STATE_ACTIVE]"

definition connection_state_number :: "CONNECTION_STATE \<Rightarrow> nat" where
  "connection_state_number st = find_index st connection_states"

lemma connection_state_number_inj: "connection_state_number a = connection_state_number b \<longleftrightarrow> a = b"
proof
  have "find_index x xs < length xs \<Longrightarrow> xs ! find_index x xs = x" for x :: CONNECTION_STATE and xs
    by (induction xs) auto
  moreover have "find_index x connection_states < length connection_states" for x
    by (cases x) (simp_all add: connection_states_def)
  ultimately have "connection_states ! connection_state_number x = x" for x
    by (simp add: connection_state_number_def)
  then show "connection_state_number a = connection_state_number b \<Longrightarrow> a = b" by metis
qed simp

instantiation CONNECTION_STATE :: linorder
begin

definition less_eq_CONNECTION_STATE :: "CONNECTION_STATE \<Rightarrow> CONNECTION_STATE \<Rightarrow> bool" where
  "less_eq_CONNECTION_STATE a b \<longleftrightarrow> connection_state_number a \<le> connection_state_number b"

definition less_CONNECTION_STATE :: "CONNECTION_STATE \<Rightarrow> CONNECTION_STATE \<Rightarrow> bool" where
  "less_CONNECTION_STATE a b \<longleftrightarrow> connection_state_number a < connection_state_number b"

instance
  by intro_classes
    (auto simp: less_eq_CONNECTION_STATE_def less_CONNECTION_STATE_def connection_state_number_inj)

end

definition rdp_is_active_peer_state :: "CONNECTION_STATE \<Rightarrow> bool" where
  "rdp_is_active_peer_state st \<longleftrightarrow> st \<in>
     {CONNECTION_STATE_FINALIZATION_CLIENT_SYNC, CONNECTION_STATE_FINALIZATION_CLIENT_COOPERATE,
      CONNECTION_STATE_FINALIZATION_CLIENT_GRANTED_CONTROL,
      CONNECTION_STATE_FINALIZATION_CLIENT_FONT_MAP, CONNECTION_STATE_ACTIVE}"

definition rdp_is_active_client_state :: "CONNECTION_STATE \<Rightarrow> bool" where
  "rdp_is_active_client_state st \<longleftrightarrow> st \<in>
     {CONNECTION_STATE_FINALIZATION_SYNC, CONNECTION_STATE_FINALIZATION_COOPERATE,
      CONNECTION_STATE_FINALIZATION_REQUEST_CONTROL,
      CONNECTION_STATE_FINALIZATION_PERSISTENT_KEY_LIST, CONNECTION_STATE_FINALIZATION_FONT_LIST,
      CONNECTION_STATE_FINALIZATION_CLIENT_SYNC, CONNECTION_STATE_FINALIZATION_CLIENT_COOPERATE,
      CONNECTION_STATE_FINALIZATION_CLIENT_GRANTED_CONTROL,
      CONNECTION_STATE_FINALIZATION_CLIENT_FONT_MAP, CONNECTION_STATE_ACTIVE}"

section \<open>The connection and its environment\<close>

datatype rdp_event = StateChanged CONNECTION_STATE CONNECTION_STATE
  | UpdateReset
  | Activated bool
  | ConnectionStateChange CONNECTION_STATE bool

record rdpRdp =
  rdpState :: CONNECTION_STATE
  mcs :: rdpMcs
  serverMode :: bool
  peerActivated :: bool
  deactivateReactivate :: bool
  sent :: "byte list list"
  events :: "rdp_event list"

text \<open>
  What the handlers depend on: the allocator and the transport, three settings, and whether the key
  exchange and the client info packet after the phase succeed.
\<close>

record connection_env =
  env_alloc :: allocator
  env_tx :: "byte list \<Rightarrow> bool"
  SupportSkipChannelJoin :: bool
  TransportDumpReplay :: bool
  UseRdpSecurityLayer :: bool
  keys_established :: bool
  client_info_sent :: bool

definition rdp_set_state :: "CONNECTION_STATE \<Rightarrow> rdpRdp \<Rightarrow> rdpRdp" where
  "rdp_set_state st rdp = rdp\<lparr>rdpState := st, events := events rdp @ [StateChanged (rdpState rdp) st]\<rparr>"

definition rdp_is_active_state :: "rdpRdp \<Rightarrow> bool" where
  "rdp_is_active_state rdp =
     (if serverMode rdp then rdp_is_active_peer_state (rdpState rdp)
      else rdp_is_active_client_state (rdpState rdp))"

text \<open>Publishing an event counts the subscribers it called, so its result is never negative.\<close>

definition rdp_client_transition_to_state :: "CONNECTION_STATE \<Rightarrow> rdpRdp \<Rightarrow> (unit, rdpRdp) outcome" where
  "rdp_client_transition_to_state st rdp =
     (let rdp = rdp_set_state st rdp;
          effects =
            (if st \<in> {CONNECTION_STATE_FINALIZATION_SYNC, CONNECTION_STATE_FINALIZATION_COOPERATE,
                 CONNECTION_STATE_FINALIZATION_REQUEST_CONTROL,
                 CONNECTION_STATE_FINALIZATION_PERSISTENT_KEY_LIST,
                 CONNECTION_STATE_FINALIZATION_FONT_LIST} then [UpdateReset]
             else if st = CONNECTION_STATE_CAPABILITIES_EXCHANGE_CONFIRM_ACTIVE then
               [Activated (\<not> deactivateReactivate rdp)]
             else [])
      in Done () (rdp\<lparr>events := events rdp @ effects @
           [ConnectionStateChange (rdpState rdp) (rdp_is_active_state rdp)]\<rparr>))"

definition rdp_server_transition_to_state :: "CONNECTION_STATE \<Rightarrow> rdpRdp \<Rightarrow> (unit, rdpRdp) outcome" where
  "rdp_server_transition_to_state st rdp =
     (let cstate = rdpState rdp;
          rdp = (if CONNECTION_STATE_RDP_SECURITY_COMMENCEMENT \<le> cstate \<and>
                    \<not> rdp_is_active_peer_state cstate
                 then rdp\<lparr>peerActivated := False\<rparr> else rdp)
      in Done () (rdp_set_state st rdp))"

text \<open>Calls of the MCS layer on the connection's MCS state. A failed receive keeps the MCS state, which
  is what the source does but for the user id that the attach user confirm, or the join request of a
  replay, may have stored before it failed.\<close>

definition rdp_send :: "(rdpMcs \<Rightarrow> (byte list, rdpMcs) outcome) \<Rightarrow> rdpRdp \<Rightarrow> (unit, rdpRdp) outcome" where
  "rdp_send call rdp =
     (case call (mcs rdp) of
        Abort \<Rightarrow> Abort
      | Fail m \<Rightarrow> Fail (rdp\<lparr>mcs := m\<rparr>)
      | Done p m \<Rightarrow> Done () (rdp\<lparr>mcs := m, sent := sent rdp @ [p]\<rparr>))"

definition rdp_recv :: "(rdpMcs \<Rightarrow> wStream \<Rightarrow> ('a \<times> rdpMcs, wStream) outcome) \<Rightarrow> wStream \<Rightarrow> rdpRdp \<Rightarrow>
    ('a, rdpRdp) outcome" where
  "rdp_recv rcv s rdp =
     (case rcv (mcs rdp) s of
        Abort \<Rightarrow> Abort
      | Fail _ \<Rightarrow> Fail rdp
      | Done (a, m) _ \<Rightarrow> Done a (rdp\<lparr>mcs := m\<rparr>))"

section \<open>The client\<close>

definition rdp_client_establish_keys :: "connection_env \<Rightarrow> rdpRdp \<Rightarrow> (unit, rdpRdp) outcome" where
  "rdp_client_establish_keys env rdp =
     (if \<not> UseRdpSecurityLayer env then Done () rdp
      else run_bind (rdp_client_transition_to_state CONNECTION_STATE_RDP_SECURITY_COMMENCEMENT rdp) (\<lambda>_ rdp.
        run_guard (keys_established env) rdp))"

definition rdp_client_send_client_info_and_change_state ::
    "connection_env \<Rightarrow> rdpRdp \<Rightarrow> (unit, rdpRdp) outcome" where
  "rdp_client_send_client_info_and_change_state env rdp =
     run_bind (rdp_client_establish_keys env rdp) (\<lambda>_ rdp.
     run_bind (rdp_client_transition_to_state CONNECTION_STATE_SECURE_SETTINGS_EXCHANGE rdp) (\<lambda>_ rdp.
     run_bind (run_guard (client_info_sent env) rdp) (\<lambda>_ rdp.
       rdp_client_transition_to_state CONNECTION_STATE_CONNECT_TIME_AUTO_DETECT_REQUEST rdp)))"

definition all_channels_joined :: "rdpMcs \<Rightarrow> rdpMcs" where
  "all_channels_joined m =
     m\<lparr>userChannelJoined := True, globalChannelJoined := True, messageChannelJoined := True,
       channels := map (\<lambda>c. c\<lparr>joined := True\<rparr>) (channels m)\<rparr>"

definition rdp_client_skip_mcs_channel_join :: "connection_env \<Rightarrow> rdpRdp \<Rightarrow> (unit, rdpRdp) outcome" where
  "rdp_client_skip_mcs_channel_join env rdp =
     rdp_client_send_client_info_and_change_state env (rdp\<lparr>mcs := all_channels_joined (mcs rdp)\<rparr>)"

definition rdp_client_join_channel :: "connection_env \<Rightarrow> u16 \<Rightarrow> rdpRdp \<Rightarrow> (unit, rdpRdp) outcome" where
  "rdp_client_join_channel env channelId rdp =
     run_bind (rdp_client_transition_to_state CONNECTION_STATE_MCS_CHANNEL_JOIN_REQUEST rdp) (\<lambda>_ rdp.
     run_bind (rdp_send (mcs_send_channel_join_request (env_alloc env) (env_tx env) channelId) rdp) (\<lambda>_ rdp.
       rdp_client_transition_to_state CONNECTION_STATE_MCS_CHANNEL_JOIN_RESPONSE rdp))"

text \<open>
  The loop over the channels: the joined ones are passed over, the first other one must be the
  confirmed one and is marked. The result has its index, or the number of channels if all were joined.
\<close>

fun confirm_channel :: "u16 \<Rightarrow> rdpMcsChannel list \<Rightarrow> (nat \<times> rdpMcsChannel list) option" where
  "confirm_channel channelId [] = Some (0, [])"
| "confirm_channel channelId (c # cs) =
     (if joined c then
        (case confirm_channel channelId cs of None \<Rightarrow> None | Some (i, cs) \<Rightarrow> Some (Suc i, c # cs))
      else if ChannelId c \<noteq> channelId then None
      else Some (0, c\<lparr>joined := True\<rparr> # cs))"

text \<open>The branches of the confirm handler; each returns \<open>allJoined\<close>.\<close>

definition join_first_channel :: "connection_env \<Rightarrow> rdpRdp \<Rightarrow> (bool, rdpRdp) outcome" where
  "join_first_channel env rdp =
     (case channels (mcs rdp) of
        [] \<Rightarrow> Done True rdp
      | cur # _ \<Rightarrow> run_bind (rdp_client_join_channel env (ChannelId cur) rdp) (\<lambda>_ rdp. Done False rdp))"

definition confirm_joined :: "connection_env \<Rightarrow> u16 \<Rightarrow> rdpRdp \<Rightarrow> (bool, rdpRdp) outcome" where
  "confirm_joined env channelId rdp =
     (let m = mcs rdp in
      if \<not> userChannelJoined m then
        (if channelId \<noteq> userId m then Fail rdp
         else run_bind (rdp_client_join_channel env MCS_GLOBAL_CHANNEL_ID
                (rdp\<lparr>mcs := m\<lparr>userChannelJoined := True\<rparr>\<rparr>)) (\<lambda>_ rdp. Done True rdp))
      else if \<not> globalChannelJoined m then
        (if channelId \<noteq> MCS_GLOBAL_CHANNEL_ID then Fail rdp
         else
           let rdp = rdp\<lparr>mcs := m\<lparr>globalChannelJoined := True\<rparr>\<rparr> in
           if messageChannelId m \<noteq> 0 then
             run_bind (rdp_client_join_channel env (messageChannelId m) rdp) (\<lambda>_ rdp. Done False rdp)
           else join_first_channel env rdp)
      else if messageChannelId m \<noteq> 0 \<and> \<not> messageChannelJoined m then
        (if channelId \<noteq> messageChannelId m then Fail rdp
         else join_first_channel env (rdp\<lparr>mcs := m\<lparr>messageChannelJoined := True\<rparr>\<rparr>))
      else
        (case confirm_channel channelId (channels m) of
           None \<Rightarrow> Fail rdp
         | Some (i, cs) \<Rightarrow>
             let rdp = rdp\<lparr>mcs := m\<lparr>channels := cs\<rparr>\<rparr> in
             if i + 1 < length cs then
               run_bind (rdp_client_join_channel env (ChannelId (cs ! (i + 1))) rdp) (\<lambda>_ rdp. Done False rdp)
             else Done True rdp))"

definition rdp_client_connect_mcs_channel_join_confirm ::
    "connection_env \<Rightarrow> wStream \<Rightarrow> rdpRdp \<Rightarrow> (unit, rdpRdp) outcome" where
  "rdp_client_connect_mcs_channel_join_confirm env s rdp =
     run_bind (rdp_recv (\<lambda>m s. run_bind (mcs_recv_channel_join_confirm s) (\<lambda>c s. Done (c, m) s)) s rdp) (\<lambda>channelId rdp.
     run_bind (confirm_joined env channelId rdp) (\<lambda>allJoined rdp.
       if userChannelJoined (mcs rdp) \<and> globalChannelJoined (mcs rdp) \<and> allJoined then
         rdp_client_send_client_info_and_change_state env rdp
       else Done () rdp))"

text \<open>The case of \<open>rdp_recv_callback_int\<close> for the attach user confirm.\<close>

definition client_attach_user_confirm :: "connection_env \<Rightarrow> wStream \<Rightarrow> rdpRdp \<Rightarrow> (unit, rdpRdp) outcome" where
  "client_attach_user_confirm env s rdp =
     run_bind (rdp_recv (\<lambda>m s. run_bind (mcs_recv_attach_user_confirm m s) (\<lambda>m s. Done ((), m) s)) s rdp) (\<lambda>_ rdp.
       if \<not> SupportSkipChannelJoin env then rdp_client_join_channel env (userId (mcs rdp)) rdp
       else rdp_client_skip_mcs_channel_join env rdp)"

section \<open>The server\<close>

definition rdp_server_accept_mcs_erect_domain_request :: "wStream \<Rightarrow> rdpRdp \<Rightarrow> (unit, rdpRdp) outcome" where
  "rdp_server_accept_mcs_erect_domain_request s rdp =
     run_bind (run_assert (rdpState rdp = CONNECTION_STATE_MCS_ERECT_DOMAIN) rdp) (\<lambda>_ rdp.
     run_bind (rdp_recv (\<lambda>m s. run_bind (mcs_recv_erect_domain_request m s) (\<lambda>m s. Done ((), m) s)) s rdp) (\<lambda>_ rdp.
       rdp_server_transition_to_state CONNECTION_STATE_MCS_ATTACH_USER rdp))"

definition rdp_server_skip_mcs_channel_join :: "rdpRdp \<Rightarrow> (unit, rdpRdp) outcome" where
  "rdp_server_skip_mcs_channel_join rdp =
     rdp_server_transition_to_state CONNECTION_STATE_RDP_SECURITY_COMMENCEMENT
       (rdp\<lparr>mcs := all_channels_joined (mcs rdp)\<rparr>)"

definition rdp_server_accept_mcs_attach_user_request ::
    "connection_env \<Rightarrow> wStream \<Rightarrow> rdpRdp \<Rightarrow> (unit, rdpRdp) outcome" where
  "rdp_server_accept_mcs_attach_user_request env s rdp =
     run_bind (rdp_recv (\<lambda>m s. run_bind (mcs_recv_attach_user_request m s) (\<lambda>m s. Done ((), m) s)) s rdp) (\<lambda>_ rdp.
     run_bind (rdp_server_transition_to_state CONNECTION_STATE_MCS_ATTACH_USER_CONFIRM rdp) (\<lambda>_ rdp.
     run_bind (rdp_send (mcs_send_attach_user_confirm (env_alloc env) (env_tx env)) rdp) (\<lambda>_ rdp.
       if SupportSkipChannelJoin env then rdp_server_skip_mcs_channel_join rdp
       else rdp_server_transition_to_state CONNECTION_STATE_MCS_CHANNEL_JOIN_REQUEST rdp)))"

definition mark_joined :: "u16 \<Rightarrow> rdpMcs \<Rightarrow> rdpMcs" where
  "mark_joined channelId m =
     m\<lparr>userChannelJoined := userChannelJoined m \<or> channelId = userId m,
       globalChannelJoined := globalChannelJoined m \<or> channelId = MCS_GLOBAL_CHANNEL_ID,
       messageChannelJoined := messageChannelJoined m \<or> channelId = messageChannelId m,
       channels := map (\<lambda>c. if ChannelId c = channelId then c\<lparr>joined := True\<rparr> else c) (channels m)\<rparr>"

definition rdp_server_accept_mcs_channel_join_request ::
    "connection_env \<Rightarrow> wStream \<Rightarrow> rdpRdp \<Rightarrow> (unit, rdpRdp) outcome" where
  "rdp_server_accept_mcs_channel_join_request env s rdp =
     run_bind (run_assert (rdpState rdp = CONNECTION_STATE_MCS_CHANNEL_JOIN_REQUEST) rdp) (\<lambda>_ rdp.
     run_bind (rdp_recv (mcs_recv_channel_join_request (TransportDumpReplay env)) s rdp) (\<lambda>channelId rdp.
     run_bind (rdp_server_transition_to_state CONNECTION_STATE_MCS_CHANNEL_JOIN_RESPONSE rdp) (\<lambda>_ rdp.
     run_bind (rdp_send (mcs_send_channel_join_confirm (env_alloc env) (env_tx env) channelId) rdp) (\<lambda>_ rdp.
       let m = mark_joined channelId (mcs rdp);
           allJoined = list_all joined (channels m);
           rc = (if userChannelJoined m \<and> globalChannelJoined m \<and>
                    (messageChannelId m = 0 \<or> messageChannelJoined m) \<and> allJoined
                 then CONNECTION_STATE_RDP_SECURITY_COMMENCEMENT
                 else CONNECTION_STATE_MCS_CHANNEL_JOIN_REQUEST)
       in rdp_server_transition_to_state rc (rdp\<lparr>mcs := m\<rparr>)))))"

section \<open>What is left to join\<close>

text \<open>The channels a connection still has to join, in the order the client joins them.\<close>

definition pending :: "rdpMcs \<Rightarrow> u16 list" where
  "pending m =
     (if userChannelJoined m then [] else [userId m]) @
     (if globalChannelJoined m then [] else [MCS_GLOBAL_CHANNEL_ID]) @
     (if messageChannelId m = 0 \<or> messageChannelJoined m then [] else [messageChannelId m]) @
     map ChannelId (filter (\<lambda>c. \<not> joined c) (channels m))"

text \<open>The client joins in this order, so what is joined comes before what is not.\<close>

definition in_order :: "rdpMcs \<Rightarrow> bool" where
  "in_order m \<longleftrightarrow>
     (globalChannelJoined m \<longrightarrow> userChannelJoined m) \<and>
     (messageChannelId m \<noteq> 0 \<and> messageChannelJoined m \<longrightarrow> globalChannelJoined m) \<and>
     (list_ex joined (channels m) \<longrightarrow>
        globalChannelJoined m \<and> (messageChannelId m = 0 \<or> messageChannelJoined m)) \<and>
     list_all (\<lambda>c. \<not> joined c) (dropWhile joined (channels m))"

lemma removeAll_if: "removeAll x (if b then [] else [y]) = (if b \<or> x = y then [] else [y])"
  by simp

lemma mark_joined_simps [simp]:
  "userChannelJoined (mark_joined x m) \<longleftrightarrow> userChannelJoined m \<or> x = userId m"
  "globalChannelJoined (mark_joined x m) \<longleftrightarrow> globalChannelJoined m \<or> x = MCS_GLOBAL_CHANNEL_ID"
  "messageChannelJoined (mark_joined x m) \<longleftrightarrow> messageChannelJoined m \<or> x = messageChannelId m"
  "channels (mark_joined x m) = map (\<lambda>c. if ChannelId c = x then c\<lparr>joined := True\<rparr> else c) (channels m)"
  "userId (mark_joined x m) = userId m" "messageChannelId (mark_joined x m) = messageChannelId m"
  by (simp_all add: mark_joined_def)

lemma pending_mark_joined: "pending (mark_joined channelId m) = removeAll channelId (pending m)"
proof -
  have mk: "map ChannelId (filter (\<lambda>c. \<not> joined c) (map (\<lambda>c. if ChannelId c = channelId then c\<lparr>joined := True\<rparr> else c) cs)) =
      removeAll channelId (map ChannelId (filter (\<lambda>c. \<not> joined c) cs))" for cs
    by (induction cs) auto
  show ?thesis
    by (simp only: mk pending_def mark_joined_simps removeAll_append removeAll_if disj_assoc)
qed

lemma pending_Nil: "pending m = [] \<longleftrightarrow>
    userChannelJoined m \<and> globalChannelJoined m \<and> (messageChannelId m = 0 \<or> messageChannelJoined m) \<and>
    list_all joined (channels m)"
  by (auto simp: pending_def filter_empty_conv list_all_iff)

lemma confirm_channel_prefix:
  assumes "list_all joined cs" "\<not> joined c"
  shows "confirm_channel channelId (cs @ c # ds) =
    (if ChannelId c = channelId then Some (length cs, cs @ c\<lparr>joined := True\<rparr> # ds) else None)"
  using assms by (induction cs) auto

lemma confirm_channel_all: "list_all joined cs \<Longrightarrow> confirm_channel channelId cs = Some (length cs, cs)"
  by (induction cs) auto

lemma confirm_channel_Some:
  assumes "confirm_channel channelId cs = Some (i, ds)"
  shows "length ds = length cs \<and> (list_all joined cs \<and> i = length cs \<and> ds = cs \<or>
    (\<exists>as c bs. cs = as @ c # bs \<and> list_all joined as \<and> \<not> joined c \<and> ChannelId c = channelId \<and>
      i = length as \<and> ds = as @ c\<lparr>joined := True\<rparr> # bs))"
proof (cases "list_all joined cs")
  case True
  then have "i = length cs" "ds = cs" using assms confirm_channel_all [of cs channelId] by auto
  then show ?thesis using True by blast
next
  case False
  then have "\<exists>c \<in> set cs. \<not> joined c" by (simp add: list_all_iff)
  from split_list_first_prop [OF this]
  obtain as c bs where cs: "cs = as @ c # bs" "list_all joined as" "\<not> joined c"
    by (auto simp: list_all_iff)
  then have "ChannelId c = channelId" "i = length as" "ds = as @ c\<lparr>joined := True\<rparr> # bs"
    using assms confirm_channel_prefix [of as c channelId bs] by (simp_all split: if_splits)
  then show ?thesis using cs by (intro conjI disjI2 exI [of _ as] exI [of _ c] exI [of _ bs]) simp_all
qed

section \<open>The client's handler\<close>

definition join_request_packet :: "u16 \<Rightarrow> u16 \<Rightarrow> byte list" where
  "join_request_packet user channelId = mcs_packet DomainMCSPDU_ChannelJoinRequest 0
     (winpr_Data_Write_UINT16_BE (user - MCS_BASE_CHANNEL_ID) @ winpr_Data_Write_UINT16_BE channelId)"

text \<open>The client has asked for a channel and waits for its confirm.\<close>

definition awaits :: "rdpMcs \<Rightarrow> byte list list \<Rightarrow> u16 \<Rightarrow> rdpRdp \<Rightarrow> bool" where
  "awaits m ps channelId rdp \<longleftrightarrow> mcs rdp = m \<and> sent rdp = ps @ [join_request_packet (userId m) channelId] \<and>
     rdpState rdp = CONNECTION_STATE_MCS_CHANNEL_JOIN_RESPONSE"

definition can_request :: "connection_env \<Rightarrow> u16 \<Rightarrow> u16 \<Rightarrow> bool" where
  "can_request env user channelId \<longleftrightarrow>
     Stream_New (env_alloc env) None 12 \<noteq> None \<and> env_tx env (join_request_packet user channelId)"


lemma client_transition:
  obtains rdp' where "rdp_client_transition_to_state st rdp = Done () rdp'"
    "mcs rdp' = mcs rdp" "sent rdp' = sent rdp" "rdpState rdp' = st"
  by (auto simp: rdp_client_transition_to_state_def rdp_set_state_def Let_def)

lemma join_channel:
  assumes "MCS_BASE_CHANNEL_ID \<le> userId (mcs rdp)"
  shows "can_request env (userId (mcs rdp)) channelId \<Longrightarrow>
      \<exists>rdp'. rdp_client_join_channel env channelId rdp = Done () rdp' \<and> awaits (mcs rdp) (sent rdp) channelId rdp'"
    and "\<not> can_request env (userId (mcs rdp)) channelId \<Longrightarrow>
      \<exists>rdp'. rdp_client_join_channel env channelId rdp = Fail rdp'"
proof -
  obtain r1 where r1: "rdp_client_transition_to_state CONNECTION_STATE_MCS_CHANNEL_JOIN_REQUEST rdp = Done () r1"
    "mcs r1 = mcs rdp" "sent r1 = sent rdp"
    by (rule client_transition)
  have len: "length (join_request_packet u c) = 12" for u c
    by (simp add: join_request_packet_def)
  have s: "mcs_send_channel_join_request (env_alloc env) (env_tx env) channelId (mcs r1) =
      sent_or_failed (env_alloc env) (env_tx env) (join_request_packet (userId (mcs rdp)) channelId) (mcs rdp)"
    using mcs_send_join_request_packet [OF assms, of "env_alloc env" "env_tx env" channelId]
    by (simp only: r1(2) join_request_packet_def)
  let ?r2 = "r1\<lparr>mcs := mcs rdp, sent := sent r1 @ [join_request_packet (userId (mcs rdp)) channelId]\<rparr>"
  obtain r3 where r3: "rdp_client_transition_to_state CONNECTION_STATE_MCS_CHANNEL_JOIN_RESPONSE ?r2 = Done () r3"
    "mcs r3 = mcs ?r2" "sent r3 = sent ?r2" "rdpState r3 = CONNECTION_STATE_MCS_CHANNEL_JOIN_RESPONSE"
    by (rule client_transition)
  show "\<exists>rdp'. rdp_client_join_channel env channelId rdp = Done () rdp' \<and> awaits (mcs rdp) (sent rdp) channelId rdp'"
    if "can_request env (userId (mcs rdp)) channelId"
    using that r1 r3 s by (auto simp: rdp_client_join_channel_def rdp_send_def can_request_def len awaits_def)
  show "\<exists>rdp'. rdp_client_join_channel env channelId rdp = Fail rdp'"
    if "\<not> can_request env (userId (mcs rdp)) channelId"
    using that r1 s by (auto simp: rdp_client_join_channel_def rdp_send_def can_request_def len)
qed

fun mark_first :: "rdpMcsChannel list \<Rightarrow> rdpMcsChannel list" where
  "mark_first [] = []"
| "mark_first (c # cs) = (if joined c then c # mark_first cs else c\<lparr>joined := True\<rparr> # cs)"

definition join_next :: "rdpMcs \<Rightarrow> rdpMcs" where
  "join_next m =
     (if \<not> userChannelJoined m then m\<lparr>userChannelJoined := True\<rparr>
      else if \<not> globalChannelJoined m then m\<lparr>globalChannelJoined := True\<rparr>
      else if messageChannelId m \<noteq> 0 \<and> \<not> messageChannelJoined m then m\<lparr>messageChannelJoined := True\<rparr>
      else m\<lparr>channels := mark_first (channels m)\<rparr>)"

lemma userId_join_next [simp]: "userId (join_next m) = userId m"
  by (simp add: join_next_def)

lemma confirm_channel_first:
  "confirm_channel y cs =
    (case filter (\<lambda>c. \<not> joined c) cs of
       [] \<Rightarrow> Some (length cs, cs)
     | c # _ \<Rightarrow> if ChannelId c = y then Some (length (takeWhile joined cs), mark_first cs) else None)"
  by (induction cs) (auto split: list.splits)

lemma mark_first_append:
  "list_all joined as \<Longrightarrow> \<not> joined c \<Longrightarrow> mark_first (as @ c # bs) = as @ c\<lparr>joined := True\<rparr> # bs"
  by (induction as) auto

lemma list_all_filter: "list_all P xs \<Longrightarrow> filter P xs = xs" "list_all (\<lambda>x. \<not> P x) xs \<Longrightarrow> filter P xs = []"
  by (induction xs) auto

lemma first_unjoined:
  assumes "list_all (\<lambda>c. \<not> joined c) (dropWhile joined cs)" "filter (\<lambda>c. \<not> joined c) cs = c # ds"
  obtains as where "cs = as @ c # ds" "list_all joined as" "\<not> joined c" "list_all (\<lambda>c. \<not> joined c) ds"
proof -
  have t: "list_all joined (takeWhile joined cs)" by (auto simp: list_all_iff dest: set_takeWhileD)
  have "filter (\<lambda>c. \<not> joined c) (takeWhile joined cs) = []"
    by (auto simp: filter_empty_conv dest: set_takeWhileD)
  with list_all_filter(1) [OF assms(1)]
  have "filter (\<lambda>c. \<not> joined c) cs = dropWhile joined cs"
    by (metis filter_append takeWhile_dropWhile_id append_Nil)
  then have d: "dropWhile joined cs = c # ds" using assms(2) by simp
  then have "cs = takeWhile joined cs @ c # ds" by (metis takeWhile_dropWhile_id)
  moreover have "\<not> joined c" "list_all (\<lambda>c. \<not> joined c) ds" using assms(1) d by simp_all
  ultimately show thesis using that t by blast
qed

lemma in_order_append:
  assumes "list_all joined as" "list_all (\<lambda>c. \<not> joined c) bs"
  shows "filter (\<lambda>c. \<not> joined c) (as @ bs) = bs" "dropWhile joined (as @ bs) = bs" "takeWhile joined (as @ bs) = as"
  using list_all_filter(1) [OF assms(2)] list_all_filter(2) [of "\<lambda>c. \<not> joined c" as] assms
  by (cases bs; auto simp: list_all_iff dropWhile_append takeWhile_append dropWhile_eq_Nil_conv takeWhile_eq_all_conv)+

lemma pending_join_next:
  assumes "in_order m" "pending m = x # xs"
  shows "pending (join_next m) = xs" "in_order (join_next m)"
proof -
  consider (user) "\<not> userChannelJoined m" | (global) "userChannelJoined m" "\<not> globalChannelJoined m"
    | (msg) "userChannelJoined m" "globalChannelJoined m" "messageChannelId m \<noteq> 0" "\<not> messageChannelJoined m"
    | (chan) "userChannelJoined m" "globalChannelJoined m" "messageChannelId m = 0 \<or> messageChannelJoined m"
    by blast
  then have "pending (join_next m) = xs \<and> in_order (join_next m)"
  proof cases
    case user
    then show ?thesis using assms by (auto simp: join_next_def pending_def in_order_def)
  next
    case global
    then show ?thesis using assms by (auto simp: join_next_def pending_def in_order_def)
  next
    case msg
    then show ?thesis using assms by (auto simp: join_next_def pending_def in_order_def)
  next
    case chan
    then have n: "join_next m = m\<lparr>channels := mark_first (channels m)\<rparr>" by (auto simp: join_next_def)
    have o: "list_all (\<lambda>c. \<not> joined c) (dropWhile joined (channels m))" using assms(1) by (simp add: in_order_def)
    obtain c ds where f: "filter (\<lambda>c. \<not> joined c) (channels m) = c # ds" "xs = map ChannelId ds"
      using assms(2) chan by (auto simp: pending_def)
    obtain as where as: "channels m = as @ c # ds" "list_all joined as" "\<not> joined c" "list_all (\<lambda>c. \<not> joined c) ds"
      using first_unjoined [OF o f(1)] by blast
    have n': "join_next m = m\<lparr>channels := (as @ [c\<lparr>joined := True\<rparr>]) @ ds\<rparr>"
      using as by (simp add: n mark_first_append)
    have as': "list_all joined (as @ [c\<lparr>joined := True\<rparr>])" using as(2) by simp
    have "pending (join_next m) = xs"
      unfolding n' using chan in_order_append(1) [OF as' as(4)] f(2) by (simp only: pending_def rdpMcs.simps) simp
    moreover have "in_order (join_next m)"
      unfolding n' using chan in_order_append(2) [OF as' as(4)] as(4) by (simp only: in_order_def rdpMcs.simps) simp
    ultimately show ?thesis ..
  qed
  then show "pending (join_next m) = xs" "in_order (join_next m)" by simp_all
qed

lemma unjoined_filter: "\<not> list_ex joined cs \<Longrightarrow> filter (\<lambda>c. \<not> joined c) cs = cs"
  by (induction cs) auto

lemma join_first_channel_eq:
  assumes "\<not> list_ex joined (channels (mcs rdp))"
  shows "join_first_channel env rdp =
    (case map ChannelId (filter (\<lambda>c. \<not> joined c) (channels (mcs rdp))) of
       [] \<Rightarrow> Done True rdp
     | z # _ \<Rightarrow> run_bind (rdp_client_join_channel env z rdp) (\<lambda>_ rdp. Done False rdp))"
  unfolding unjoined_filter [OF assms] join_first_channel_def by (cases "channels (mcs rdp)") simp_all

lemma confirm_joined_eq:
  fixes rdp :: rdpRdp
  defines "m \<equiv> mcs rdp"
  assumes "in_order m" "pending m = x # xs"
  shows "confirm_joined env y rdp =
    (if y \<noteq> x then Fail rdp
     else if xs = [] then Done True (rdp\<lparr>mcs := join_next m\<rparr>)
     else run_bind (rdp_client_join_channel env (hd xs) (rdp\<lparr>mcs := join_next m\<rparr>))
            (\<lambda>_ r. Done (\<not> userChannelJoined m) r))"
proof -
  consider (user) "\<not> userChannelJoined m" | (global) "userChannelJoined m" "\<not> globalChannelJoined m"
    | (msg) "userChannelJoined m" "globalChannelJoined m" "messageChannelId m \<noteq> 0" "\<not> messageChannelJoined m"
    | (chan) "userChannelJoined m" "globalChannelJoined m" "messageChannelId m = 0 \<or> messageChannelJoined m"
    by blast
  then show ?thesis
  proof cases
    case user
    then have "\<not> globalChannelJoined m" using assms(2) by (simp add: in_order_def)
    then have "x = userId m" "xs \<noteq> []" "hd xs = MCS_GLOBAL_CHANNEL_ID"
      using user assms(3) by (auto simp: pending_def)
    then show ?thesis
      using user by (simp add: confirm_joined_def join_next_def flip: m_def)
  next
    case global
    then have n: "\<not> list_ex joined (channels m)" "messageChannelId m \<noteq> 0 \<Longrightarrow> \<not> messageChannelJoined m"
      using assms(2) by (auto simp: in_order_def)
    have x: "x = MCS_GLOBAL_CHANNEL_ID" "xs = (if messageChannelId m = 0 then [] else [messageChannelId m]) @
        map ChannelId (filter (\<lambda>c. \<not> joined c) (channels m))"
      using global n(2) assms(3) by (auto simp: pending_def)
    show ?thesis
      using global x n(1) join_first_channel_eq [of "rdp\<lparr>mcs := m\<lparr>globalChannelJoined := True\<rparr>\<rparr>" env]
      by (auto simp: confirm_joined_def join_next_def simp flip: m_def split: list.split)
  next
    case msg
    then have n: "\<not> list_ex joined (channels m)"
      using assms(2) by (auto simp: in_order_def)
    have x: "x = messageChannelId m" "xs = map ChannelId (filter (\<lambda>c. \<not> joined c) (channels m))"
      using msg assms(3) by (auto simp: pending_def)
    show ?thesis
      using msg x n join_first_channel_eq [of "rdp\<lparr>mcs := m\<lparr>messageChannelJoined := True\<rparr>\<rparr>" env]
      by (auto simp: confirm_joined_def join_next_def simp flip: m_def split: list.split)
  next
    case chan
    have o: "list_all (\<lambda>c. \<not> joined c) (dropWhile joined (channels m))" using assms(2) by (simp add: in_order_def)
    obtain c ds where f: "filter (\<lambda>c. \<not> joined c) (channels m) = c # ds" "x = ChannelId c" "xs = map ChannelId ds"
      using assms(3) chan by (auto simp: pending_def)
    obtain as where as: "channels m = as @ c # ds" "list_all joined as" "\<not> joined c"
      using first_unjoined [OF o f(1)] by blast
    have n: "join_next m = m\<lparr>channels := as @ c\<lparr>joined := True\<rparr> # ds\<rparr>"
      using as chan mark_first_append [of as c ds] by (auto simp: join_next_def)
    have cc: "confirm_channel y (channels m) =
        (if x = y then Some (length as, as @ c\<lparr>joined := True\<rparr> # ds) else None)"
      using confirm_channel_prefix [OF as(2,3), of y ds] as(1) f(2) by simp
    have b: "\<not> (messageChannelId m \<noteq> 0 \<and> \<not> messageChannelJoined m)" using chan by blast
    have len: "length as + 1 < length (as @ c\<lparr>joined := True\<rparr> # ds) \<longleftrightarrow> xs \<noteq> []" using f(3) by simp
    have nth: "xs \<noteq> [] \<Longrightarrow> ChannelId ((as @ c\<lparr>joined := True\<rparr> # ds) ! (length as + 1)) = hd xs"
      using f(3) by (cases ds) (simp_all add: nth_append)
    show ?thesis
      unfolding confirm_joined_def m_def [symmetric] Let_def n
      unfolding if_not_P [OF b] cc using chan(1,2) len nth by simp
  qed
qed

lemma client_confirm_eq:
  fixes rdp :: rdpRdp
  defines "m \<equiv> mcs rdp"
  assumes "in_order m" "MCS_BASE_CHANNEL_ID \<le> userId m" "pending m = x # xs" "mcs_recv_channel_join_confirm s = Done y t"
  shows "rdp_client_connect_mcs_channel_join_confirm env s rdp =
    (if y \<noteq> x then Fail rdp
     else if xs = [] then rdp_client_send_client_info_and_change_state env (rdp\<lparr>mcs := join_next m\<rparr>)
     else rdp_client_join_channel env (hd xs) (rdp\<lparr>mcs := join_next m\<rparr>))"
proof -
  let ?r = "rdp\<lparr>mcs := join_next m\<rparr>"
  have recv: "rdp_recv (\<lambda>m s. run_bind (mcs_recv_channel_join_confirm s) (\<lambda>c s. Done (c, m) s)) s rdp = Done y rdp"
    using assms(5) by (simp add: rdp_recv_def)
  note eq = confirm_joined_eq [OF assms(2,4) [unfolded m_def], of env y, folded m_def]
  show ?thesis
  proof (cases "y = x \<and> xs \<noteq> []")
    case True
    have "userId (mcs ?r) = userId m" by simp
    then consider (ok) r where "rdp_client_join_channel env (hd xs) ?r = Done () r" "mcs r = join_next m"
      | (fail) r where "rdp_client_join_channel env (hd xs) ?r = Fail r"
      using join_channel [of ?r env "hd xs"] assms(3) by (auto simp: awaits_def)
    then show ?thesis
    proof cases
      case ok
      have "\<not> userChannelJoined m \<Longrightarrow> \<not> globalChannelJoined (join_next m)"
        using assms(2) by (simp add: join_next_def in_order_def)
      then show ?thesis
        using True recv eq ok by (auto simp: rdp_client_connect_mcs_channel_join_confirm_def)
    qed (use True recv eq in \<open>simp add: rdp_client_connect_mcs_channel_join_confirm_def\<close>)
  next
    case False
    have "xs = [] \<Longrightarrow> userChannelJoined (join_next m) \<and> globalChannelJoined (join_next m)"
      using pending_join_next(1) [OF assms(2,4)] pending_Nil [of "join_next m"] by simp
    then show ?thesis
      using False recv eq by (auto simp: rdp_client_connect_mcs_channel_join_confirm_def)
  qed
qed

section \<open>Runs of the client\<close>

text \<open>One packet handled with success, in the two states of the phase; the packet is any stream.\<close>

inductive client_step :: "connection_env \<Rightarrow> rdpRdp \<Rightarrow> rdpRdp \<Rightarrow> bool" for env where
  attached: "rdpState rdp = CONNECTION_STATE_MCS_ATTACH_USER_CONFIRM \<Longrightarrow> readable s \<Longrightarrow>
    client_attach_user_confirm env s rdp = Done () rdp' \<Longrightarrow> client_step env rdp rdp'"
| confirmed: "rdpState rdp = CONNECTION_STATE_MCS_CHANNEL_JOIN_RESPONSE \<Longrightarrow> readable s \<Longrightarrow>
    rdp_client_connect_mcs_channel_join_confirm env s rdp = Done () rdp' \<Longrightarrow> client_step env rdp rdp'"

inductive_cases client_stepE: "client_step env rdp rdp'"

text \<open>Before the phase nothing is joined.\<close>

definition client_start :: "rdpRdp \<Rightarrow> bool" where
  "client_start rdp \<longleftrightarrow> rdpState rdp = CONNECTION_STATE_MCS_ATTACH_USER_CONFIRM \<and>
     \<not> userChannelJoined (mcs rdp) \<and> \<not> globalChannelJoined (mcs rdp) \<and> \<not> messageChannelJoined (mcs rdp) \<and>
     \<not> list_ex joined (channels (mcs rdp))"

definition client_waits :: "rdpRdp \<Rightarrow> bool" where
  "client_waits rdp \<longleftrightarrow> rdpState rdp = CONNECTION_STATE_MCS_CHANNEL_JOIN_RESPONSE \<and>
     in_order (mcs rdp) \<and> MCS_BASE_CHANNEL_ID \<le> userId (mcs rdp) \<and> pending (mcs rdp) \<noteq> [] \<and>
     sent rdp \<noteq> [] \<and> last (sent rdp) = join_request_packet (userId (mcs rdp)) (hd (pending (mcs rdp)))"

definition client_joined :: "rdpRdp \<Rightarrow> bool" where
  "client_joined rdp \<longleftrightarrow> rdpState rdp = CONNECTION_STATE_CONNECT_TIME_AUTO_DETECT_REQUEST \<and>
     pending (mcs rdp) = []"

lemma client_info_Done:
  assumes "rdp_client_send_client_info_and_change_state env rdp = Done () rdp'"
  shows "mcs rdp' = mcs rdp" "sent rdp' = sent rdp" "rdpState rdp' = CONNECTION_STATE_CONNECT_TIME_AUTO_DETECT_REQUEST"
  using assms
  by (auto simp: rdp_client_send_client_info_and_change_state_def rdp_client_establish_keys_def run_guard_def
      rdp_client_transition_to_state_def rdp_set_state_def Let_def split: if_splits)

lemma client_info_ok:
  assumes "client_info_sent env" "UseRdpSecurityLayer env \<longrightarrow> keys_established env"
  shows "\<exists>rdp'. rdp_client_send_client_info_and_change_state env rdp = Done () rdp'"
  using assms
  by (auto simp: rdp_client_send_client_info_and_change_state_def rdp_client_establish_keys_def run_guard_def
      rdp_client_transition_to_state_def Let_def)

lemma start_in_order: "client_start rdp \<Longrightarrow> in_order (mcs rdp)"
proof -
  have "\<not> list_ex joined cs \<Longrightarrow> list_all (\<lambda>c. \<not> joined c) (dropWhile joined cs)" for cs
    by (cases cs) (auto simp: list_all_iff list_ex_iff)
  then show "client_start rdp \<Longrightarrow> in_order (mcs rdp)"
    unfolding client_start_def in_order_def by blast
qed

lemma join_channel_waits:
  assumes "rdp_client_join_channel env c rdp = Done () rdp'" "MCS_BASE_CHANNEL_ID \<le> userId (mcs rdp)"
    "in_order (mcs rdp)" "pending (mcs rdp) = c # cs"
  shows "client_waits rdp'" "mcs rdp' = mcs rdp"
proof -
  have "awaits (mcs rdp) (sent rdp) c rdp'"
    using join_channel [OF assms(2), of env c] assms(1) by (cases "can_request env (userId (mcs rdp)) c") auto
  then show "client_waits rdp'" "mcs rdp' = mcs rdp"
    using assms(2-4) by (simp_all add: awaits_def client_waits_def)
qed

lemma confirmed_step:
  assumes "client_waits rdp" "readable s" "rdp_client_connect_mcs_channel_join_confirm env s rdp = Done () rdp'"
  shows "mcs rdp' = join_next (mcs rdp)" "client_waits rdp' \<or> client_joined rdp'"
proof -
  let ?m = "mcs rdp" and ?r = "rdp\<lparr>mcs := join_next (mcs rdp)\<rparr>"
  obtain x xs where p: "pending ?m = x # xs" and o: "in_order ?m" "MCS_BASE_CHANNEL_ID \<le> userId ?m"
    using assms(1) by (cases "pending ?m") (auto simp: client_waits_def)
  obtain y t where y: "mcs_recv_channel_join_confirm s = Done y t"
    using assms(3) by (cases "mcs_recv_channel_join_confirm s")
      (auto simp: rdp_client_connect_mcs_channel_join_confirm_def rdp_recv_def)
  note eq = client_confirm_eq [OF o p y, of env]
  note nx = pending_join_next [OF o(1) p]
  have "mcs rdp' = join_next ?m \<and> (client_waits rdp' \<or> client_joined rdp')"
  proof (cases xs)
    case Nil
    then have "rdp_client_send_client_info_and_change_state env ?r = Done () rdp'"
      using eq assms(3) by (simp split: if_splits)
    from client_info_Done [OF this] show ?thesis using nx Nil by (simp add: client_joined_def)
  next
    case (Cons z zs)
    then have "rdp_client_join_channel env z ?r = Done () rdp'"
      using eq assms(3) by (simp split: if_splits)
    from join_channel_waits [OF this, of zs] show ?thesis using nx Cons o by simp
  qed
  then show "mcs rdp' = join_next ?m" "client_waits rdp' \<or> client_joined rdp'" by simp_all
qed

lemma all_channels_joined_pending: "pending (all_channels_joined m) = []"
  by (simp add: pending_Nil all_channels_joined_def list_all_iff)

lemma attached_step:
  assumes "client_start rdp" "readable s" "client_attach_user_confirm env s rdp = Done () rdp'"
  shows "client_waits rdp' \<and> length (pending (mcs rdp')) = length (pending (mcs rdp)) \<or> client_joined rdp'"
proof -
  have c: "consumes 0 (mcs_recv_attach_user_confirm (mcs rdp))
      (\<lambda>m. MCS_BASE_CHANNEL_ID \<le> userId m \<and> m = (mcs rdp)\<lparr>userId := userId m\<rparr>) 0"
    by (rule mcs_recv_consumes)
  obtain m t where r: "mcs_recv_attach_user_confirm (mcs rdp) s = Done m t"
    using assms(3) by (cases "mcs_recv_attach_user_confirm (mcs rdp) s")
      (auto simp: client_attach_user_confirm_def rdp_recv_def)
  have m: "MCS_BASE_CHANNEL_ID \<le> userId m" "m = (mcs rdp)\<lparr>userId := userId m\<rparr>"
    using consumes_run [OF c assms(2)] r by simp_all
  let ?r = "rdp\<lparr>mcs := m\<rparr>"
  have h: "(if \<not> SupportSkipChannelJoin env then rdp_client_join_channel env (userId m) ?r
      else rdp_client_skip_mcs_channel_join env ?r) = Done () rdp'"
    using assms(3) r by (cases "SupportSkipChannelJoin env") (simp_all add: client_attach_user_confirm_def rdp_recv_def)
  have st: "in_order m" "pending m = userId m # tl (pending m)" "length (pending m) = length (pending (mcs rdp))"
    using start_in_order [OF assms(1)] assms(1)
    by (subst m(2), simp add: in_order_def pending_def client_start_def)+
  show ?thesis
  proof (cases "SupportSkipChannelJoin env")
    case True
    then have "rdp_client_send_client_info_and_change_state env (rdp\<lparr>mcs := all_channels_joined m\<rparr>) = Done () rdp'"
      using h by (simp add: rdp_client_skip_mcs_channel_join_def)
    from client_info_Done [OF this] show ?thesis by (simp add: client_joined_def all_channels_joined_pending)
  next
    case False
    then have "rdp_client_join_channel env (userId m) ?r = Done () rdp'" using h by simp
    from join_channel_waits [OF this, of "tl (pending m)"] show ?thesis using st m(1) by simp
  qed
qed

lemma no_step_when_joined: "client_joined rdp \<Longrightarrow> \<not> client_step env rdp rdp'"
  by (auto simp: client_joined_def elim: client_stepE)

lemma waiting_step:
  assumes "client_waits rdp" "client_step env rdp rdp'"
  shows "client_waits rdp' \<or> client_joined rdp'" "Suc (length (pending (mcs rdp'))) = length (pending (mcs rdp))"
proof -
  obtain s where s: "readable s" "rdp_client_connect_mcs_channel_join_confirm env s rdp = Done () rdp'"
    using assms by (auto simp: client_waits_def elim: client_stepE)
  note c = confirmed_step [OF assms(1) s]
  show "client_waits rdp' \<or> client_joined rdp'" by (rule c(2))
  obtain x xs where "pending (mcs rdp) = x # xs" "in_order (mcs rdp)"
    using assms(1) by (cases "pending (mcs rdp)") (auto simp: client_waits_def)
  then show "Suc (length (pending (mcs rdp'))) = length (pending (mcs rdp))"
    using pending_join_next(1) c(1) by simp
qed

lemma start_step:
  assumes "client_start rdp" "client_step env rdp rdp'"
  shows "client_waits rdp' \<and> length (pending (mcs rdp')) = length (pending (mcs rdp)) \<or> client_joined rdp'"
proof -
  obtain s where "readable s" "client_attach_user_confirm env s rdp = Done () rdp'"
    using assms by (auto simp: client_start_def elim: client_stepE)
  then show ?thesis by (rule attached_step [OF assms(1)])
qed

lemma joined_final: "client_joined rdp \<Longrightarrow> (client_step env ^^ n) rdp rdp' \<Longrightarrow> n = 0"
  using relpowp_Suc_D2 no_step_when_joined by (metis not0_implies_Suc)

lemma length_pending: "length (pending m) \<le> 3 + length (channels m)"
proof -
  have one: "length (if b then [] else [y]) \<le> 1" for b and y :: u16 by simp
  show ?thesis
    using length_filter_le [of "\<lambda>c. \<not> joined c" "channels m"]
      one [of "userChannelJoined m" "userId m"] one [of "globalChannelJoined m" MCS_GLOBAL_CHANNEL_ID]
      one [of "messageChannelId m = 0 \<or> messageChannelJoined m" "messageChannelId m"]
    unfolding pending_def length_append length_map by linarith
qed

lemma waiting_bound:
  "client_waits rdp \<Longrightarrow> (client_step env ^^ n) rdp rdp' \<Longrightarrow> n \<le> length (pending (mcs rdp))"
proof (induction n arbitrary: rdp)
  case (Suc n)
  obtain r where r: "client_step env rdp r" "(client_step env ^^ n) r rdp'"
    using relpowp_Suc_D2 [OF Suc.prems(2)] by blast
  show ?case
  proof (cases "client_joined r")
    case True
    then have "n = 0" using r(2) by (rule joined_final)
    then show ?thesis using waiting_step(2) [OF Suc.prems(1) r(1)] by simp
  next
    case False
    then show ?thesis
      using Suc.IH [of r] r(2) waiting_step [OF Suc.prems(1) r(1)] by auto
  qed
qed simp

lemma start_bound:
  assumes "client_start rdp" "(client_step env ^^ n) rdp rdp'"
  shows "n \<le> 4 + length (channels (mcs rdp))"
proof (cases n)
  case (Suc k)
  then obtain r where r: "client_step env rdp r" "(client_step env ^^ k) r rdp'"
    using relpowp_Suc_D2 [of k "client_step env" rdp rdp'] assms(2) by blast
  show ?thesis
  proof (cases "client_joined r")
    case True
    then have "k = 0" using r(2) by (rule joined_final)
    then show ?thesis using Suc by simp
  next
    case False
    then show ?thesis
      using waiting_bound [of r k env rdp'] r(2) start_step [OF assms(1) r(1)] length_pending [of "mcs rdp"] Suc by auto
  qed
qed simp

lemma reachable_states:
  assumes "client_start rdp" "(client_step env)\<^sup>*\<^sup>* rdp rdp'"
  shows "rdp' = rdp \<or> client_waits rdp' \<or> client_joined rdp'"
  using assms(2)
proof (induction rule: rtranclp_induct)
  case (step y z)
  then show ?case
    using start_step [OF assms(1), of env z] waiting_step(1) [of y env z] no_step_when_joined [of y env z] by blast
qed simp

section \<open>The server's handler\<close>

definition join_confirm_packet :: "u16 \<Rightarrow> u16 \<Rightarrow> byte list" where
  "join_confirm_packet user channelId =
     mcs_packet DomainMCSPDU_ChannelJoinConfirm 2 (join_confirm_body user channelId)"

definition can_confirm :: "connection_env \<Rightarrow> u16 \<Rightarrow> u16 \<Rightarrow> bool" where
  "can_confirm env user channelId \<longleftrightarrow>
     Stream_New (env_alloc env) None 15 \<noteq> None \<and> env_tx env (join_confirm_packet user channelId)"

lemma server_transition:
  obtains rdp' where "rdp_server_transition_to_state st rdp = Done () rdp'"
    "mcs rdp' = mcs rdp" "sent rdp' = sent rdp" "rdpState rdp' = st"
  by (auto simp: rdp_server_transition_to_state_def rdp_set_state_def Let_def)

lemma server_accept:
  assumes "rdpState rdp = CONNECTION_STATE_MCS_CHANNEL_JOIN_REQUEST" "MCS_BASE_CHANNEL_ID \<le> userId (mcs rdp)"
    "mcs_recv_channel_join_request (TransportDumpReplay env) (mcs rdp) s = Done (channelId, mcs rdp) t"
    "can_confirm env (userId (mcs rdp)) channelId"
  shows "\<exists>rdp'. rdp_server_accept_mcs_channel_join_request env s rdp = Done () rdp' \<and>
    mcs rdp' = mark_joined channelId (mcs rdp) \<and>
    sent rdp' = sent rdp @ [join_confirm_packet (userId (mcs rdp)) channelId] \<and>
    rdpState rdp' = (if pending (mcs rdp') = [] then CONNECTION_STATE_RDP_SECURITY_COMMENCEMENT
      else CONNECTION_STATE_MCS_CHANNEL_JOIN_REQUEST)"
proof -
  let ?m = "mcs rdp"
  obtain r1 where r1: "rdp_server_transition_to_state CONNECTION_STATE_MCS_CHANNEL_JOIN_RESPONSE rdp = Done () r1"
    "mcs r1 = ?m" "sent r1 = sent rdp"
    by (rule server_transition)
  have len: "length (join_confirm_packet u c) = 15" for u c
    by (simp add: join_confirm_packet_def join_confirm_body_def)
  have s: "mcs_send_channel_join_confirm (env_alloc env) (env_tx env) channelId ?m =
      Done (join_confirm_packet (userId ?m) channelId) ?m"
    using mcs_send_join_confirm_packet [OF assms(2), of "env_alloc env" "env_tx env" channelId] assms(4) len
    by (simp add: can_confirm_def flip: join_confirm_packet_def)
  let ?r2 = "r1\<lparr>sent := sent r1 @ [join_confirm_packet (userId ?m) channelId], mcs := mark_joined channelId ?m\<rparr>"
  let ?rc = "if pending (mark_joined channelId ?m) = [] then CONNECTION_STATE_RDP_SECURITY_COMMENCEMENT
      else CONNECTION_STATE_MCS_CHANNEL_JOIN_REQUEST"
  obtain r3 where r3: "rdp_server_transition_to_state ?rc ?r2 = Done () r3"
    "mcs r3 = mcs ?r2" "sent r3 = sent ?r2" "rdpState r3 = ?rc"
    by (rule server_transition)
  have rc: "(if userChannelJoined (mark_joined channelId ?m) \<and> globalChannelJoined (mark_joined channelId ?m) \<and>
        (messageChannelId (mark_joined channelId ?m) = 0 \<or> messageChannelJoined (mark_joined channelId ?m)) \<and>
        list_all joined (channels (mark_joined channelId ?m)) then CONNECTION_STATE_RDP_SECURITY_COMMENCEMENT
      else CONNECTION_STATE_MCS_CHANNEL_JOIN_REQUEST) = ?rc"
    by (simp only: pending_Nil)
  have "rdp\<lparr>mcs := ?m\<rparr> = rdp" by simp
  then have "rdp_server_accept_mcs_channel_join_request env s rdp = Done () r3"
    unfolding rdp_server_accept_mcs_channel_join_request_def
    using assms(1,3) r1 s r3(1) by (simp add: rdp_recv_def rdp_send_def Let_def rc del: mark_joined_simps split del: if_split)
  then show ?thesis using r3 r1(3) by simp
qed

lemma server_refuses:
  assumes "rdpState rdp = CONNECTION_STATE_MCS_CHANNEL_JOIN_REQUEST" "MCS_BASE_CHANNEL_ID \<le> userId (mcs rdp)"
    "mcs_recv_channel_join_request (TransportDumpReplay env) (mcs rdp) s = Done (channelId, mcs rdp) t"
    "\<not> can_confirm env (userId (mcs rdp)) channelId"
  shows "\<exists>rdp'. rdp_server_accept_mcs_channel_join_request env s rdp = Fail rdp' \<and> mcs rdp' = mcs rdp \<and>
    sent rdp' = sent rdp"
proof -
  obtain r1 where r1: "rdp_server_transition_to_state CONNECTION_STATE_MCS_CHANNEL_JOIN_RESPONSE rdp = Done () r1"
    "mcs r1 = mcs rdp" "sent r1 = sent rdp"
    by (rule server_transition)
  have "length (join_confirm_packet u c) = 15" for u c
    by (simp add: join_confirm_packet_def join_confirm_body_def)
  then have "mcs_send_channel_join_confirm (env_alloc env) (env_tx env) channelId (mcs rdp) = Fail (mcs rdp)"
    using mcs_send_join_confirm_packet [OF assms(2), of "env_alloc env" "env_tx env" channelId] assms(4)
    by (auto simp: can_confirm_def simp flip: join_confirm_packet_def)
  then show ?thesis
    using assms(1,3) r1 by (simp add: rdp_server_accept_mcs_channel_join_request_def rdp_recv_def rdp_send_def)
qed

section \<open>Both sides together\<close>

text \<open>Rounds of the phase: the server handles the client's last packet, the client the server's.\<close>

fun exchange :: "connection_env \<Rightarrow> connection_env \<Rightarrow> nat \<Rightarrow> rdpRdp \<Rightarrow> rdpRdp \<Rightarrow> (rdpRdp \<times> rdpRdp) option" where
  "exchange ec es 0 c s = Some (c, s)"
| "exchange ec es (Suc n) c s =
     (case rdp_server_accept_mcs_channel_join_request es (packet_stream (last (sent c))) s of
        Done _ s \<Rightarrow>
          (case rdp_client_connect_mcs_channel_join_confirm ec (packet_stream (last (sent s))) c of
             Done _ c \<Rightarrow> exchange ec es n c s
           | _ \<Rightarrow> None)
      | _ \<Rightarrow> None)"

definition join_phase :: "connection_env \<Rightarrow> connection_env \<Rightarrow> nat \<Rightarrow> rdpRdp \<Rightarrow> rdpRdp \<Rightarrow> (rdpRdp \<times> rdpRdp) option" where
  "join_phase ec es n c s =
     (case rdp_server_accept_mcs_attach_user_request es (packet_stream (last (sent c))) s of
        Done _ s \<Rightarrow>
          (case client_attach_user_confirm ec (packet_stream (last (sent s))) c of
             Done _ c \<Rightarrow> exchange ec es n c s
           | _ \<Rightarrow> None)
      | _ \<Rightarrow> None)"

text \<open>An environment in which nothing outside the protocol fails.\<close>

definition unobstructed :: "connection_env \<Rightarrow> bool" where
  "unobstructed env \<longleftrightarrow> (\<forall>n. alloc_ok (env_alloc env) n) \<and> (\<forall>p. env_tx env p) \<and>
     keys_established env \<and> client_info_sent env"

lemma unobstructed_new: "unobstructed env \<Longrightarrow> 0 < n \<Longrightarrow> n \<le> 15 \<Longrightarrow> Stream_New (env_alloc env) None n \<noteq> None"
  by (simp add: unobstructed_def Stream_New_def c_calloc_def PTRDIFF_MAX_def)

lemma unobstructed_can: "unobstructed env \<Longrightarrow> can_request env u c" "unobstructed env \<Longrightarrow> can_confirm env u c"
  using unobstructed_new [of env 12] unobstructed_new [of env 15]
  by (simp_all add: can_request_def can_confirm_def unobstructed_def)

lemma server_hears:
  assumes "MCS_BASE_CHANNEL_ID \<le> userId m"
  shows "\<exists>t. mcs_recv_channel_join_request replay m (packet_stream (join_request_packet (userId m) x)) = Done (x, m) t"
  using mcs_recv_join_request_packet [OF assms, of replay m x] by (auto simp: join_request_packet_def)

lemma client_hears:
  assumes "MCS_BASE_CHANNEL_ID \<le> user"
  shows "\<exists>t. mcs_recv_channel_join_confirm (packet_stream (join_confirm_packet user x)) = Done x t"
  using mcs_recv_join_confirm_packet [OF assms, of x] by (auto simp: join_confirm_packet_def)

lemma exchange_completes:
  assumes "unobstructed ec" "unobstructed es"
    and "client_waits c" "rdpState s = CONNECTION_STATE_MCS_CHANNEL_JOIN_REQUEST" "userId (mcs s) = userId (mcs c)"
    and "pending (mcs c) = ps" "pending (mcs s) = ps" "distinct ps"
  shows "\<exists>c' s'. exchange ec es (length ps) c s = Some (c', s') \<and> client_joined c' \<and> pending (mcs s') = [] \<and>
    rdpState s' = CONNECTION_STATE_RDP_SECURITY_COMMENCEMENT"
  using assms(3-8)
proof (induction ps arbitrary: c s)
  case Nil
  then show ?case by (simp add: client_waits_def)
next
  case (Cons x xs)
  let ?m = "mcs c"
  have w: "in_order ?m" "MCS_BASE_CHANNEL_ID \<le> userId ?m" "last (sent c) = join_request_packet (userId ?m) x"
    using Cons.prems(1,4) by (simp_all add: client_waits_def)
  have b: "MCS_BASE_CHANNEL_ID \<le> userId (mcs s)" using w(2) Cons.prems(3) by simp
  obtain t where t: "mcs_recv_channel_join_request (TransportDumpReplay es) (mcs s) (packet_stream (last (sent c))) = Done (x, mcs s) t"
    using server_hears [OF b, of "TransportDumpReplay es" x] w(3) Cons.prems(3) by auto
  obtain s' where s': "rdp_server_accept_mcs_channel_join_request es (packet_stream (last (sent c))) s = Done () s'"
    "mcs s' = mark_joined x (mcs s)" "sent s' = sent s @ [join_confirm_packet (userId (mcs s)) x]"
    "rdpState s' = (if pending (mcs s') = [] then CONNECTION_STATE_RDP_SECURITY_COMMENCEMENT
      else CONNECTION_STATE_MCS_CHANNEL_JOIN_REQUEST)"
    using server_accept [OF Cons.prems(2) b t unobstructed_can(2) [OF assms(2)]] by blast
  have ps': "pending (mcs s') = xs"
    using s'(2) pending_mark_joined [of x "mcs s"] Cons.prems(5,6) by (simp add: removeAll_id)
  obtain u where u: "mcs_recv_channel_join_confirm (packet_stream (last (sent s'))) = Done x u"
    using client_hears [OF b, of x] s'(3) by auto
  note eq = client_confirm_eq [OF w(1,2) Cons.prems(4) u, of ec]
  let ?r = "c\<lparr>mcs := join_next ?m\<rparr>"
  obtain c' where c': "rdp_client_connect_mcs_channel_join_confirm ec (packet_stream (last (sent s'))) c = Done () c'"
  proof (cases xs)
    case Nil
    then show ?thesis
      using that eq client_info_ok [of ec ?r] assms(1) by (auto simp: unobstructed_def)
  next
    case (Cons z zs)
    then show ?thesis
      using that eq join_channel(1) [of ?r ec z] w(2) unobstructed_can(1) [OF assms(1)] by auto
  qed
  have "readable (packet_stream (last (sent s')))"
    using s'(3) readable_static [of "join_confirm_packet (userId (mcs s)) x"]
    by (simp add: join_confirm_packet_def join_confirm_body_def PTRDIFF_MAX_def)
  note st = confirmed_step [OF Cons.prems(1) this c']
  have pc: "pending (mcs c') = xs" using pending_join_next(1) [OF w(1) Cons.prems(4)] st(1) by simp
  show ?case
  proof (cases "xs = []")
    case True
    then have "client_joined c'" using st(2) pc by (auto simp: client_waits_def)
    then show ?thesis using True s'(1,4) c' ps' by simp
  next
    case False
    then have "client_waits c'" using st(2) pc by (auto simp: client_joined_def)
    moreover have "userId (mcs s') = userId (mcs c')" using st(1) s'(2) Cons.prems(3) by simp
    ultimately show ?thesis
      using Cons.IH [of c' s'] False s'(1,4) c' ps' pc Cons.prems(6) by simp
  qed
qed

lemma server_attach:
  assumes "unobstructed es" "\<not> SupportSkipChannelJoin es" "MCS_BASE_CHANNEL_ID \<le> baseChannelId (mcs s)"
  shows "\<exists>s'. rdp_server_accept_mcs_attach_user_request es (packet_stream (mcs_packet DomainMCSPDU_AttachUserRequest 0 [])) s = Done () s' \<and>
    mcs s' = (mcs s)\<lparr>userId := baseChannelId (mcs s), baseChannelId := baseChannelId (mcs s) + 1\<rparr> \<and>
    last (sent s') = mcs_packet DomainMCSPDU_AttachUserConfirm 2
      ([0] @ winpr_Data_Write_UINT16_BE (baseChannelId (mcs s) - MCS_BASE_CHANNEL_ID)) \<and>
    rdpState s' = CONNECTION_STATE_MCS_CHANNEL_JOIN_REQUEST"
proof -
  let ?m = "(mcs s)\<lparr>userId := baseChannelId (mcs s), baseChannelId := baseChannelId (mcs s) + 1\<rparr>"
  let ?p = "mcs_packet DomainMCSPDU_AttachUserConfirm 2
      ([0] @ winpr_Data_Write_UINT16_BE (baseChannelId (mcs s) - MCS_BASE_CHANNEL_ID))"
  obtain t where t: "mcs_recv_attach_user_request (mcs s) (packet_stream (mcs_packet DomainMCSPDU_AttachUserRequest 0 [])) = Done (mcs s) t"
    using mcs_recv_attach_request_packet [of "mcs s"] by blast
  obtain r1 where r1: "rdp_server_transition_to_state CONNECTION_STATE_MCS_ATTACH_USER_CONFIRM s = Done () r1"
    "mcs r1 = mcs s" "sent r1 = sent s"
    by (rule server_transition)
  have snd: "mcs_send_attach_user_confirm (env_alloc es) (env_tx es) (mcs s) = Done ?p ?m"
    using mcs_send_attach_confirm_packet [OF assms(3), of "env_alloc es" "env_tx es"] assms(1)
      unobstructed_new [OF assms(1), of 11] by (simp add: unobstructed_def)
  obtain r2 where r2: "rdp_server_transition_to_state CONNECTION_STATE_MCS_CHANNEL_JOIN_REQUEST
      (r1\<lparr>mcs := ?m, sent := sent s @ [?p]\<rparr>) = Done () r2"
    "mcs r2 = ?m" "sent r2 = sent s @ [?p]" "rdpState r2 = CONNECTION_STATE_MCS_CHANNEL_JOIN_REQUEST"
    by (rule server_transition [of CONNECTION_STATE_MCS_CHANNEL_JOIN_REQUEST "r1\<lparr>mcs := ?m, sent := sent s @ [?p]\<rparr>"]) simp
  have "rdp_recv (\<lambda>m s. run_bind (mcs_recv_attach_user_request m s) (\<lambda>m s. Done ((), m) s))
      (packet_stream (mcs_packet DomainMCSPDU_AttachUserRequest 0 [])) s = Done () s"
    by (simp only: rdp_recv_def t run_bind.simps outcome.case prod.case) simp
  then have "rdp_server_accept_mcs_attach_user_request es (packet_stream (mcs_packet DomainMCSPDU_AttachUserRequest 0 [])) s = Done () r2"
    by (simp only: rdp_server_accept_mcs_attach_user_request_def run_bind.simps r1 rdp_send_def snd outcome.case assms(2) if_False r2(1))
  then show ?thesis using r2 by auto
qed

lemma client_attach:
  assumes "unobstructed ec" "\<not> SupportSkipChannelJoin ec" "client_start c" "MCS_BASE_CHANNEL_ID \<le> b"
    "p = mcs_packet DomainMCSPDU_AttachUserConfirm 2 ([0] @ winpr_Data_Write_UINT16_BE (b - MCS_BASE_CHANNEL_ID))"
  shows "\<exists>c'. client_attach_user_confirm ec (packet_stream p) c = Done () c' \<and> client_waits c' \<and> mcs c' = (mcs c)\<lparr>userId := b\<rparr>"
proof -
  let ?m = "(mcs c)\<lparr>userId := b\<rparr>"
  obtain t where t: "mcs_recv_attach_user_confirm (mcs c) (packet_stream p) = Done ?m t"
    using mcs_recv_attach_confirm_packet [OF assms(4), of "mcs c"] assms(5) by blast
  obtain c' where c': "rdp_client_join_channel ec b (c\<lparr>mcs := ?m\<rparr>) = Done () c'"
    using join_channel(1) [of "c\<lparr>mcs := ?m\<rparr>" ec b] assms(4) unobstructed_can(1) [OF assms(1)] by auto
  have "in_order ?m" using start_in_order [OF assms(3)] by (simp add: in_order_def)
  moreover have "pending ?m = b # tl (pending ?m)" using assms(3) by (simp add: pending_def client_start_def)
  ultimately have w: "client_waits c'" "mcs c' = ?m"
    using join_channel_waits [OF c'] assms(4) by simp_all
  have "client_attach_user_confirm ec (packet_stream p) c = Done () c'"
    using t c' assms(2) by (simp add: client_attach_user_confirm_def rdp_recv_def)
  then show ?thesis using w by blast
qed

section \<open>Properties\<close>

text \<open>C1. Two sides that agree complete the join phase. A client that has sent its attach request and a
  server that waits for it, both with nothing joined, with the same channel ids and message channel,
  and with all the ids to be joined different, run the attach exchange and one round per channel; the
  client then has sent its client info, the server is at the security commencement, and on both
  sides every channel is joined.\<close>

theorem join_phase_completes:
  assumes "unobstructed ec" "unobstructed es" "\<not> SupportSkipChannelJoin ec" "\<not> SupportSkipChannelJoin es"
    and "client_start c" "last (sent c) = mcs_packet DomainMCSPDU_AttachUserRequest 0 []"
    and "MCS_BASE_CHANNEL_ID \<le> baseChannelId (mcs s)"
    and "\<not> userChannelJoined (mcs s)" "\<not> globalChannelJoined (mcs s)" "\<not> messageChannelJoined (mcs s)"
      "\<not> list_ex joined (channels (mcs s))"
    and "messageChannelId (mcs s) = messageChannelId (mcs c)"
      "map ChannelId (channels (mcs s)) = map ChannelId (channels (mcs c))"
    and "ids = [baseChannelId (mcs s), MCS_GLOBAL_CHANNEL_ID] @
      (if messageChannelId (mcs c) = 0 then [] else [messageChannelId (mcs c)]) @ map ChannelId (channels (mcs c))"
      "distinct ids"
  shows "\<exists>c' s'. join_phase ec es (length ids) c s = Some (c', s') \<and>
    rdpState c' = CONNECTION_STATE_CONNECT_TIME_AUTO_DETECT_REQUEST \<and> pending (mcs c') = [] \<and>
    rdpState s' = CONNECTION_STATE_RDP_SECURITY_COMMENCEMENT \<and> pending (mcs s') = []"
proof -
  let ?b = "baseChannelId (mcs s)"
  obtain s1 where s1: "rdp_server_accept_mcs_attach_user_request es (packet_stream (last (sent c))) s = Done () s1"
    "mcs s1 = (mcs s)\<lparr>userId := ?b, baseChannelId := ?b + 1\<rparr>"
    "last (sent s1) = mcs_packet DomainMCSPDU_AttachUserConfirm 2 ([0] @ winpr_Data_Write_UINT16_BE (?b - MCS_BASE_CHANNEL_ID))"
    "rdpState s1 = CONNECTION_STATE_MCS_CHANNEL_JOIN_REQUEST"
    using server_attach [OF assms(2,4,7)] unfolding assms(6) by blast
  obtain c1 where c1: "client_attach_user_confirm ec (packet_stream (last (sent s1))) c = Done () c1"
    "client_waits c1" "mcs c1 = (mcs c)\<lparr>userId := ?b\<rparr>"
    using client_attach [OF assms(1,3,5,7) s1(3)] by blast
  have "pending (mcs c1) = ids"
    using assms(5) unjoined_filter [of "channels (mcs c)"] by (simp add: pending_def c1(3) assms(14) client_start_def)
  moreover have "pending (mcs s1) = ids"
    using assms(8-13) unjoined_filter [of "channels (mcs s)"] by (simp add: pending_def s1(2) assms(14))
  moreover have "userId (mcs s1) = userId (mcs c1)" by (simp add: s1(2) c1(3))
  ultimately have "\<exists>c' s'. exchange ec es (length ids) c1 s1 = Some (c', s') \<and> client_joined c' \<and> pending (mcs s') = [] \<and>
      rdpState s' = CONNECTION_STATE_RDP_SECURITY_COMMENCEMENT"
    using exchange_completes [OF assms(1,2) c1(2) s1(4)] assms(15) by blast
  then show ?thesis
    using s1(1) c1(1) by (auto simp: join_phase_def client_joined_def)
qed

text \<open>A client and a server fresh from \<open>mcs_new\<close> with two static channels.\<close>

definition sample_env :: connection_env where
  "sample_env = \<lparr>env_alloc = plain_allocator, env_tx = (\<lambda>_. True), SupportSkipChannelJoin = False,
     TransportDumpReplay = False, UseRdpSecurityLayer = False, keys_established = True, client_info_sent = True\<rparr>"

definition sample_channel :: "u16 \<Rightarrow> rdpMcsChannel" where
  "sample_channel c = \<lparr>channelName = replicate 8 0, channelOptions = 0, ChannelId = c, joined = False\<rparr>"

definition sample_rdp :: "bool \<Rightarrow> CONNECTION_STATE \<Rightarrow> byte list list \<Rightarrow> rdpRdp" where
  "sample_rdp server st packets =
     \<lparr>rdpState = st, mcs = (the (mcs_new True))\<lparr>channels := [sample_channel 1010, sample_channel 1011]\<rparr>,
      serverMode = server, peerActivated = False, deactivateReactivate = False, sent = packets, events = []\<rparr>"

lemmas sample_defs = sample_env_def sample_rdp_def sample_channel_def mcs_new_def MCS_GLOBAL_CHANNEL_ID_def
  MCS_BASE_CHANNEL_ID_def unobstructed_def plain_allocator_def client_start_def

theorem join_phase_completes_witness:
  "\<exists>c' s'. join_phase sample_env sample_env 4
     (sample_rdp False CONNECTION_STATE_MCS_ATTACH_USER_CONFIRM [mcs_packet DomainMCSPDU_AttachUserRequest 0 []])
     (sample_rdp True CONNECTION_STATE_MCS_ATTACH_USER []) = Some (c', s') \<and>
     rdpState c' = CONNECTION_STATE_CONNECT_TIME_AUTO_DETECT_REQUEST \<and> pending (mcs c') = [] \<and>
     rdpState s' = CONNECTION_STATE_RDP_SECURITY_COMMENCEMENT \<and> pending (mcs s') = []"
proof -
  have four: "length [1004, 1003, 1010, 1011 :: u16] = 4" by simp
  show ?thesis
    unfolding four [symmetric] by (rule join_phase_completes) (simp_all add: sample_defs)
qed

text \<open>C2. The client never leaves the join phase early, whatever the server sends. From a start with
  nothing joined, every state it reaches by handling packets with success is the start, or waits for
  the confirm of the first channel still pending, whose request was the last packet sent, or is past
  the client info with the user, global, message and all static channels joined.\<close>

theorem client_never_leaves_early:
  assumes "client_start rdp" "(client_step env)\<^sup>*\<^sup>* rdp rdp'"
  shows "rdp' = rdp
    \<or> rdpState rdp' = CONNECTION_STATE_MCS_CHANNEL_JOIN_RESPONSE \<and> pending (mcs rdp') \<noteq> [] \<and>
      last (sent rdp') = join_request_packet (userId (mcs rdp')) (hd (pending (mcs rdp')))
    \<or> rdpState rdp' = CONNECTION_STATE_CONNECT_TIME_AUTO_DETECT_REQUEST \<and> userChannelJoined (mcs rdp') \<and>
      globalChannelJoined (mcs rdp') \<and> (messageChannelId (mcs rdp') = 0 \<or> messageChannelJoined (mcs rdp')) \<and>
      list_all joined (channels (mcs rdp'))"
  using reachable_states [OF assms] by (auto simp: client_waits_def client_joined_def pending_Nil)

lemma sample_attached:
  "\<exists>rdp'. client_step sample_env (sample_rdp False CONNECTION_STATE_MCS_ATTACH_USER_CONFIRM []) rdp' \<and>
     client_waits rdp' \<and> userId (mcs rdp') = 1004"
proof -
  let ?c = "sample_rdp False CONNECTION_STATE_MCS_ATTACH_USER_CONFIRM []"
  let ?p = "mcs_packet DomainMCSPDU_AttachUserConfirm 2 ([0] @ winpr_Data_Write_UINT16_BE (1004 - MCS_BASE_CHANNEL_ID))"
  have "unobstructed sample_env" "\<not> SupportSkipChannelJoin sample_env" "client_start ?c" "MCS_BASE_CHANNEL_ID \<le> 1004"
    "rdpState ?c = CONNECTION_STATE_MCS_ATTACH_USER_CONFIRM"
    by (simp_all add: sample_defs)
  moreover from this obtain c' where "client_attach_user_confirm sample_env (packet_stream ?p) ?c = Done () c'"
    "client_waits c'" "mcs c' = (mcs ?c)\<lparr>userId := 1004\<rparr>"
    using client_attach [of sample_env ?c 1004 ?p] by blast
  moreover have "readable (packet_stream ?p)"
    by (rule readable_static) (simp add: PTRDIFF_MAX_def)
  ultimately show ?thesis by (auto intro!: client_step.attached)
qed

theorem client_never_leaves_early_witness:
  "\<exists>rdp'. (client_step sample_env)\<^sup>*\<^sup>* (sample_rdp False CONNECTION_STATE_MCS_ATTACH_USER_CONFIRM []) rdp' \<and>
     rdpState rdp' = CONNECTION_STATE_MCS_CHANNEL_JOIN_RESPONSE \<and>
     last (sent rdp') = join_request_packet (userId (mcs rdp')) (hd (pending (mcs rdp')))"
proof -
  let ?c = "sample_rdp False CONNECTION_STATE_MCS_ATTACH_USER_CONFIRM []"
  obtain r where r: "client_step sample_env ?c r" "client_waits r"
    using sample_attached by blast
  have "client_start ?c" by (simp add: sample_defs)
  from client_never_leaves_early [OF this r_into_rtranclp [of "client_step sample_env", OF r(1)]]
  have "rdpState r = CONNECTION_STATE_MCS_CHANNEL_JOIN_RESPONSE \<and>
      last (sent r) = join_request_packet (userId (mcs r)) (hd (pending (mcs r)))"
    using r(2) by (auto simp: client_waits_def sample_rdp_def)
  then show ?thesis using r(1) by blast
qed

text \<open>C11. The client's join phase ends. From a start with nothing joined, at most four packets more
  than there are static channels can be handled with success, whatever they are: one attach user
  confirm and one confirm each for the user, global, message and static channels.\<close>

theorem client_join_phase_terminates:
  assumes "client_start rdp" "(client_step env ^^ n) rdp rdp'"
  shows "n \<le> 4 + length (channels (mcs rdp))"
  by (rule start_bound [OF assms])

theorem client_join_phase_terminates_witness:
  "\<exists>rdp'. (client_step sample_env ^^ 1) (sample_rdp False CONNECTION_STATE_MCS_ATTACH_USER_CONFIRM []) rdp' \<and>
     (1 :: nat) \<le> 4 + length (channels (mcs (sample_rdp False CONNECTION_STATE_MCS_ATTACH_USER_CONFIRM [])))"
proof -
  let ?c = "sample_rdp False CONNECTION_STATE_MCS_ATTACH_USER_CONFIRM []"
  obtain r where r: "(client_step sample_env ^^ 1) ?c r"
    using sample_attached by auto
  moreover have "client_start ?c" by (simp add: sample_defs)
  ultimately show ?thesis using client_join_phase_terminates [of ?c 1 sample_env r] by blast
qed

text \<open>C10. Both handlers refine the list of pending channels. A waiting client accepts exactly the
  confirm of the first pending channel and refuses any other without a change; on success that
  channel is the one removed. The server, on a request for a channel, removes the channel wherever
  it is pending, answers with its confirm, and is at the security commencement exactly when nothing
  is left.\<close>

theorem join_handlers_refine_pending:
  assumes "client_waits c" "readable p" "mcs_recv_channel_join_confirm p = Done y t"
    and "rdpState s = CONNECTION_STATE_MCS_CHANNEL_JOIN_REQUEST" "MCS_BASE_CHANNEL_ID \<le> userId (mcs s)"
      "mcs_recv_channel_join_request (TransportDumpReplay es) (mcs s) q = Done (x, mcs s) u"
      "can_confirm es (userId (mcs s)) x"
  shows "(y \<noteq> hd (pending (mcs c)) \<longrightarrow> rdp_client_connect_mcs_channel_join_confirm ec p c = Fail c)
    \<and> (\<forall>c'. rdp_client_connect_mcs_channel_join_confirm ec p c = Done () c' \<longrightarrow>
        y = hd (pending (mcs c)) \<and> pending (mcs c') = tl (pending (mcs c)) \<and> (client_waits c' \<or> client_joined c'))
    \<and> (\<exists>s'. rdp_server_accept_mcs_channel_join_request es q s = Done () s' \<and>
        pending (mcs s') = removeAll x (pending (mcs s)) \<and>
        sent s' = sent s @ [join_confirm_packet (userId (mcs s)) x] \<and>
        rdpState s' = (if pending (mcs s') = [] then CONNECTION_STATE_RDP_SECURITY_COMMENCEMENT
          else CONNECTION_STATE_MCS_CHANNEL_JOIN_REQUEST))"
proof -
  obtain z zs where p: "pending (mcs c) = z # zs" and o: "in_order (mcs c)" "MCS_BASE_CHANNEL_ID \<le> userId (mcs c)"
    using assms(1) by (cases "pending (mcs c)") (auto simp: client_waits_def)
  have wrong: "y \<noteq> z \<Longrightarrow> rdp_client_connect_mcs_channel_join_confirm ec p c = Fail c"
    using client_confirm_eq [OF o p assms(3), of ec] by simp
  have right: "y = z \<and> pending (mcs c') = zs \<and> (client_waits c' \<or> client_joined c')"
    if "rdp_client_connect_mcs_channel_join_confirm ec p c = Done () c'" for c'
    using wrong confirmed_step [OF assms(1,2) that] pending_join_next(1) [OF o(1) p] that by auto
  show ?thesis
    using wrong right p server_accept [OF assms(4-7)] pending_mark_joined [of x "mcs s"] by auto
qed

theorem join_handlers_refine_pending_witness:
  "\<exists>c s s'. client_waits c \<and> hd (pending (mcs c)) = 1004 \<and>
     rdp_client_connect_mcs_channel_join_confirm sample_env (packet_stream (join_confirm_packet 1004 1003)) c = Fail c \<and>
     rdp_server_accept_mcs_channel_join_request sample_env (packet_stream (join_request_packet 1004 1010)) s = Done () s' \<and>
     pending (mcs s) = [1004, 1003, 1010, 1011] \<and> pending (mcs s') = [1004, 1003, 1011]"
proof -
  define attach where "attach rdp = rdp\<lparr>mcs := (mcs rdp)\<lparr>userId := 1004\<rparr>\<rparr>" for rdp :: rdpRdp
  define c where "c = attach (sample_rdp False CONNECTION_STATE_MCS_CHANNEL_JOIN_RESPONSE [join_request_packet 1004 1004])"
  define s where "s = attach (sample_rdp True CONNECTION_STATE_MCS_CHANNEL_JOIN_REQUEST [])"
  let ?p = "packet_stream (join_confirm_packet 1004 1003)" and ?q = "packet_stream (join_request_packet 1004 1010)"
  have pend: "pending (mcs c) = [1004, 1003, 1010, 1011]" "pending (mcs s) = [1004, 1003, 1010, 1011]"
    by (simp_all add: sample_defs pending_def c_def s_def attach_def)
  have cw: "client_waits c"
    unfolding client_waits_def pend(1) by (simp add: sample_defs in_order_def c_def attach_def)
  have st: "rdpState s = CONNECTION_STATE_MCS_CHANNEL_JOIN_REQUEST" "userId (mcs s) = 1004"
    by (simp_all add: sample_defs s_def attach_def)
  have b: "MCS_BASE_CHANNEL_ID \<le> 1004" by (simp add: MCS_BASE_CHANNEL_ID_def)
  obtain t where t: "mcs_recv_channel_join_confirm ?p = Done 1003 t"
    using client_hears [OF b, of 1003] by blast
  obtain u where u: "mcs_recv_channel_join_request (TransportDumpReplay sample_env) (mcs s) ?q = Done (1010, mcs s) u"
    using server_hears [of "mcs s" "TransportDumpReplay sample_env" 1010] b unfolding st(2) by blast
  have r: "readable ?p"
    by (rule readable_static) (simp add: join_confirm_packet_def join_confirm_body_def PTRDIFF_MAX_def)
  have "can_confirm sample_env (userId (mcs s)) 1010"
    by (rule unobstructed_can) (simp add: sample_defs)
  note all = join_handlers_refine_pending [OF cw r t st(1) b [folded st(2)] u this, of sample_env]
  have f: "rdp_client_connect_mcs_channel_join_confirm sample_env ?p c = Fail c"
    using all unfolding pend(1) by simp
  obtain s' where "rdp_server_accept_mcs_channel_join_request sample_env ?q s = Done () s'"
    "pending (mcs s') = removeAll 1010 [1004, 1003, 1010, 1011]"
    using all unfolding pend(2) by blast
  then show ?thesis using cw f pend by (intro exI [of _ c] exI [of _ s] exI [of _ s']) simp
qed

text \<open>C12. The server's join handler is safe on every input. On any readable stream, in the state that
  waits for a join request and with no transport dump being replayed, it does not abort. It succeeds
  exactly when the stream holds a join request of the server's own user and the confirm can be sent;
  then the channel of that request, and no other, is marked joined, the confirm for it is the one
  packet sent, and the next state is the security commencement when every channel is joined and the
  state that waits for a join request otherwise. A failure leaves the whole MCS state, its channels
  included, and the packets sent as they were.\<close>

theorem server_join_safe:
  assumes "readable p" "rdpState s = CONNECTION_STATE_MCS_CHANNEL_JOIN_REQUEST"
    "MCS_BASE_CHANNEL_ID \<le> userId (mcs s)" "\<not> TransportDumpReplay env"
  shows "case rdp_server_accept_mcs_channel_join_request env p s of
      Abort \<Rightarrow> False
    | Fail s' \<Rightarrow> mcs s' = mcs s \<and> sent s' = sent s \<and>
        (\<forall>x m t. mcs_recv_channel_join_request False (mcs s) p = Done (x, m) t \<longrightarrow>
          \<not> can_confirm env (userId (mcs s)) x)
    | Done _ s' \<Rightarrow> \<exists>x t. mcs_recv_channel_join_request False (mcs s) p = Done (x, mcs s) t \<and>
        can_confirm env (userId (mcs s)) x \<and>
        mcs s' = mark_joined x (mcs s) \<and>
        sent s' = sent s @ [join_confirm_packet (userId (mcs s)) x] \<and>
        rdpState s' =
          (if userChannelJoined (mcs s') \<and> globalChannelJoined (mcs s') \<and>
              (messageChannelId (mcs s') = 0 \<or> messageChannelJoined (mcs s')) \<and> list_all joined (channels (mcs s'))
           then CONNECTION_STATE_RDP_SECURITY_COMMENCEMENT else CONNECTION_STATE_MCS_CHANNEL_JOIN_REQUEST)"
proof -
  have "consumes 0 (mcs_recv_channel_join_request False (mcs s)) (\<lambda>(_, m). m = mcs s) 0"
    by (rule mcs_recv_consumes)
  note safe = consumes_run [OF this assms(1)]
  show ?thesis
  proof (cases "mcs_recv_channel_join_request False (mcs s) p")
    case Abort
    then show ?thesis using safe by simp
  next
    case (Fail t)
    then show ?thesis
      using assms(2,4) by (simp add: rdp_server_accept_mcs_channel_join_request_def rdp_recv_def)
  next
    case (Done r t)
    then obtain x where x: "mcs_recv_channel_join_request False (mcs s) p = Done (x, mcs s) t"
      using safe by (cases r) auto
    then have r: "mcs_recv_channel_join_request (TransportDumpReplay env) (mcs s) p = Done (x, mcs s) t"
      using assms(4) by simp
    show ?thesis
    proof (cases "can_confirm env (userId (mcs s)) x")
      case True
      obtain s' where s': "rdp_server_accept_mcs_channel_join_request env p s = Done () s'"
        "mcs s' = mark_joined x (mcs s)" "sent s' = sent s @ [join_confirm_packet (userId (mcs s)) x]"
        "rdpState s' = (if pending (mcs s') = [] then CONNECTION_STATE_RDP_SECURITY_COMMENCEMENT
          else CONNECTION_STATE_MCS_CHANNEL_JOIN_REQUEST)"
        using server_accept [OF assms(2,3) r True] by blast
      show ?thesis
        unfolding s'(1) outcome.case
        using x True s'(2-4) unfolding pending_Nil by (intro exI [of _ x] exI [of _ t] conjI)
    next
      case False
      obtain s' where "rdp_server_accept_mcs_channel_join_request env p s = Fail s'" "mcs s' = mcs s" "sent s' = sent s"
        using server_refuses [OF assms(2,3) r False] by blast
      then show ?thesis using x False by simp
    qed
  qed
qed

theorem server_join_safe_witness:
  "\<exists>s s'. pending (mcs s) = [1004, 1003, 1010, 1011] \<and>
     rdp_server_accept_mcs_channel_join_request sample_env (packet_stream (join_request_packet 1004 1010)) s = Done () s' \<and>
     mcs s' = mark_joined 1010 (mcs s) \<and> rdpState s' = CONNECTION_STATE_MCS_CHANNEL_JOIN_REQUEST"
proof -
  define s where "s = (sample_rdp True CONNECTION_STATE_MCS_CHANNEL_JOIN_REQUEST [])
    \<lparr>mcs := (mcs (sample_rdp True CONNECTION_STATE_MCS_CHANNEL_JOIN_REQUEST []))\<lparr>userId := 1004\<rparr>\<rparr>"
  let ?p = "packet_stream (join_request_packet 1004 1010)"
  have st: "rdpState s = CONNECTION_STATE_MCS_CHANNEL_JOIN_REQUEST" "MCS_BASE_CHANNEL_ID \<le> userId (mcs s)"
    "\<not> TransportDumpReplay sample_env" and u: "userId (mcs s) = 1004" "\<not> userChannelJoined (mcs s)"
    "pending (mcs s) = [1004, 1003, 1010, 1011]"
    by (simp_all add: sample_defs s_def pending_def)
  have p: "readable ?p"
    by (rule readable_static) (simp add: join_request_packet_def PTRDIFF_MAX_def)
  obtain t where t: "mcs_recv_channel_join_request False (mcs s) ?p = Done (1010, mcs s) t"
    using server_hears [OF st(2), of False 1010] unfolding u(1) by blast
  have can: "can_confirm sample_env (userId (mcs s)) 1010"
    by (rule unobstructed_can) (simp add: sample_defs)
  from server_join_safe [OF p st] t can obtain s' where
    "rdp_server_accept_mcs_channel_join_request sample_env ?p s = Done () s'" "mcs s' = mark_joined 1010 (mcs s)"
    "rdpState s' = CONNECTION_STATE_MCS_CHANNEL_JOIN_REQUEST"
    using u(1,2) by (auto split: outcome.splits)
  then show ?thesis using u(3) by blast
qed

end
