(* ===== verification/Ring_Buffer.thy ===== *)
theory Ring_Buffer
  imports Prelude
begin

text \<open>
  The growing ring buffer of \<open>libfreerdp/utils/ringbuffer.c\<close>: a byte queue in one block, read at
  \<open>readPtr\<close> and written at \<open>writePtr\<close>, both modulo the block's size, with a count of free bytes. The
  block grows when a write does not fit and shrinks back to its initial size when little is used.
  The operations are modelled with their \<open>size_t\<close> arithmetic and every copy checked against its
  block; a pointer into the buffer is an offset. The theory shows that, below an almost full buffer,
  the operations implement a byte queue, and what happens at an exactly full one.
\<close>

section \<open>The operations\<close>

record RingBuffer =
  initialSize :: nat
  freeSize :: nat
  rb_size :: nat
  readPtr :: nat
  writePtr :: nat
  rb_buffer :: "byte list"

record DataChunk =
  chunk_size :: nat
  chunk_data :: nat

definition ringbuffer_init :: "allocator \<Rightarrow> nat \<Rightarrow> RingBuffer \<Rightarrow> (unit, RingBuffer) outcome" where
  "ringbuffer_init A initial rb =
     (case c_malloc A initial of
        None \<Rightarrow> Fail (rb\<lparr>rb_buffer := []\<rparr>)
      | Some b \<Rightarrow> Done () (rb\<lparr>rb_buffer := b, readPtr := 0, writePtr := 0,
          initialSize := initial, rb_size := initial, freeSize := initial\<rparr>))"

definition ringbuffer_used :: "RingBuffer \<Rightarrow> nat" where
  "ringbuffer_used rb = size_sub (rb_size rb) (freeSize rb)"

definition ringbuffer_capacity :: "RingBuffer \<Rightarrow> nat" where
  "ringbuffer_capacity rb = rb_size rb"

text \<open>A null buffer is the empty block, to which every access aborts.\<close>

definition ringbuffer_destroy :: "RingBuffer \<Rightarrow> RingBuffer" where
  "ringbuffer_destroy rb = rb\<lparr>rb_buffer := []\<rparr>"

definition rb_resized :: "nat \<Rightarrow> RingBuffer \<Rightarrow> (unit, RingBuffer) outcome" where
  "rb_resized targetSize rb =
     Done () (rb\<lparr>freeSize := size_add (freeSize rb) (size_sub targetSize (rb_size rb)),
       rb_size := targetSize\<rparr>)"

definition rb_copy_used :: "RingBuffer \<Rightarrow> byte list \<Rightarrow> byte list option" where
  "rb_copy_used rb newData =
     (if readPtr rb < writePtr rb then
        Option.bind (mem_read (rb_buffer rb) (readPtr rb) (ringbuffer_used rb)) (mem_write newData 0)
      else
        Option.bind (mem_read (rb_buffer rb) (readPtr rb) (size_sub (rb_size rb) (readPtr rb))) (\<lambda>d.
        Option.bind (mem_write newData 0 d) (\<lambda>dst.
          if writePtr rb \<noteq> 0 then
            Option.bind (mem_read (rb_buffer rb) 0 (writePtr rb))
              (mem_write dst (size_sub (rb_size rb) (readPtr rb)))
          else Some dst)))"

definition ringbuffer_realloc :: "allocator \<Rightarrow> nat \<Rightarrow> RingBuffer \<Rightarrow> (unit, RingBuffer) outcome" where
  "ringbuffer_realloc A targetSize rb =
     (if writePtr rb = readPtr rb then
        (case c_realloc A (rb_buffer rb) targetSize of
           None \<Rightarrow> Fail rb
         | Some newData \<Rightarrow>
             rb_resized targetSize (rb\<lparr>readPtr := 0, writePtr := 0, rb_buffer := newData\<rparr>))
      else if writePtr rb \<ge> readPtr rb \<and> writePtr rb < targetSize then
        (case c_realloc A (rb_buffer rb) targetSize of
           None \<Rightarrow> Fail rb
         | Some newData \<Rightarrow> rb_resized targetSize (rb\<lparr>rb_buffer := newData\<rparr>))
      else
        (case c_malloc A targetSize of
           None \<Rightarrow> Fail rb
         | Some newData \<Rightarrow>
             (case rb_copy_used rb newData of
                None \<Rightarrow> Abort
              | Some newData \<Rightarrow>
                  rb_resized targetSize
                    (rb\<lparr>writePtr := size_sub (rb_size rb) (freeSize rb), readPtr := 0,
                       rb_buffer := newData\<rparr>))))"

definition ringbuffer_write :: "allocator \<Rightarrow> byte list \<Rightarrow> RingBuffer \<Rightarrow> (unit, RingBuffer) outcome" where
  "ringbuffer_write A ptr rb =
     (let sz = length ptr in
      run_bind (if freeSize rb \<le> sz then ringbuffer_realloc A (size_add (rb_size rb) sz) rb else Done () rb)
        (\<lambda>_ rb.
          let toWrite = (if size_sub (rb_size rb) (writePtr rb) < sz
                         then size_sub (rb_size rb) (writePtr rb) else sz);
              remaining = sz - toWrite
          in
          case (if toWrite \<noteq> 0 then mem_write (rb_buffer rb) (writePtr rb) (take toWrite ptr)
                else Some (rb_buffer rb)) of
            None \<Rightarrow> Abort
          | Some b \<Rightarrow>
              (case (if remaining \<noteq> 0 then mem_write b 0 (drop toWrite ptr) else Some b) of
                 None \<Rightarrow> Abort
               | Some b \<Rightarrow>
                   if rb_size rb = 0 then Abort
                   else Done () (rb\<lparr>rb_buffer := b,
                          writePtr := size_add (writePtr rb) sz mod rb_size rb,
                          freeSize := size_sub (freeSize rb) sz\<rparr>))))"

definition ringbuffer_ensure_linear_write ::
    "allocator \<Rightarrow> nat \<Rightarrow> RingBuffer \<Rightarrow> (nat, RingBuffer) outcome" where
  "ringbuffer_ensure_linear_write A sz rb =
     run_bind
       (if freeSize rb < sz then
          ringbuffer_realloc A (size_add (size_sub (size_add (rb_size rb) sz) (freeSize rb)) 32) rb
        else Done () rb)
       (\<lambda>_ rb.
         let rb = (if writePtr rb = readPtr rb then rb\<lparr>writePtr := 0, readPtr := 0\<rparr> else rb) in
         if size_add (writePtr rb) sz < rb_size rb then Done (writePtr rb) rb
         else
           case Option.bind
               (mem_read (rb_buffer rb) (readPtr rb) (size_sub (writePtr rb) (readPtr rb)))
               (mem_write (rb_buffer rb) 0) of
             None \<Rightarrow> Abort
           | Some b \<Rightarrow>
               let used = size_sub (rb_size rb) (freeSize rb) in
               Done used (rb\<lparr>rb_buffer := b, readPtr := 0, writePtr := used\<rparr>))"

definition ringbuffer_commit_written_bytes :: "nat \<Rightarrow> RingBuffer \<Rightarrow> (unit, RingBuffer) outcome" where
  "ringbuffer_commit_written_bytes sz rb =
     (if sz < 1 then Done () rb
      else if size_add (writePtr rb) sz > rb_size rb then Fail rb
      else if rb_size rb = 0 then Abort
      else Done () (rb\<lparr>writePtr := size_add (writePtr rb) sz mod rb_size rb,
             freeSize := size_sub (freeSize rb) sz\<rparr>))"

definition ringbuffer_peek :: "nat \<Rightarrow> RingBuffer \<Rightarrow> DataChunk list" where
  "ringbuffer_peek sz rb =
     (if sz < 1 then []
      else
        let remaining = (if size_sub (rb_size rb) (freeSize rb) < sz
                         then size_sub (rb_size rb) (freeSize rb) else sz);
            toRead = (if size_add (readPtr rb) remaining > rb_size rb
                      then size_sub (rb_size rb) (readPtr rb) else remaining)
        in
        (if toRead \<noteq> 0 then [\<lparr>chunk_size = toRead, chunk_data = readPtr rb\<rparr>] else []) @
        (if size_sub remaining toRead \<noteq> 0
         then [\<lparr>chunk_size = size_sub remaining toRead, chunk_data = 0\<rparr>] else []))"

text \<open>The result of the shrinking \<open>ringbuffer_realloc\<close> is ignored: where it fails the buffer stays.\<close>

definition ringbuffer_commit_read_bytes :: "allocator \<Rightarrow> nat \<Rightarrow> RingBuffer \<Rightarrow> (unit, RingBuffer) outcome" where
  "ringbuffer_commit_read_bytes A sz rb =
     (if sz < 1 then Done () rb
      else
        run_bind (run_assert (size_sub (rb_size rb) (freeSize rb) \<ge> sz) rb) (\<lambda>_ rb.
          if rb_size rb = 0 then Abort
          else
            let rb = rb\<lparr>readPtr := size_add (readPtr rb) sz mod rb_size rb,
                        freeSize := size_add (freeSize rb) sz\<rparr>
            in
            if rb_size rb \<noteq> initialSize rb \<and> ringbuffer_used rb < initialSize rb div 2 then
              (case ringbuffer_realloc A (initialSize rb) rb of
                 Abort \<Rightarrow> Abort
               | Fail rb \<Rightarrow> Done () rb
               | Done _ rb \<Rightarrow> Done () rb)
            else Done () rb))"

section \<open>The queue of bytes\<close>

definition chunk_bytes :: "RingBuffer \<Rightarrow> DataChunk \<Rightarrow> byte list option" where
  "chunk_bytes rb c = mem_read (rb_buffer rb) (chunk_data c) (chunk_size c)"

definition rb_used :: "RingBuffer \<Rightarrow> nat" where
  "rb_used rb = rb_size rb - freeSize rb"

definition rb_content :: "RingBuffer \<Rightarrow> byte list" where
  "rb_content rb = take (rb_used rb) (drop (readPtr rb) (rb_buffer rb @ rb_buffer rb))"

text \<open>Well-formed and not exactly full: \<open>readPtr = writePtr\<close> then means empty, as the code assumes.\<close>

definition rb_inv :: "RingBuffer \<Rightarrow> bool" where
  "rb_inv rb \<longleftrightarrow> length (rb_buffer rb) = rb_size rb \<and> rb_size rb \<le> PTRDIFF_MAX \<and>
     0 < initialSize rb \<and> initialSize rb \<le> PTRDIFF_MAX \<and> 0 < freeSize rb \<and> freeSize rb \<le> rb_size rb \<and>
     readPtr rb < rb_size rb \<and>
     writePtr rb = (if readPtr rb + rb_used rb < rb_size rb then readPtr rb + rb_used rb
                    else readPtr rb + rb_used rb - rb_size rb)"

section \<open>The invariant and the content\<close>

lemma size_small:
  "a \<le> PTRDIFF_MAX \<Longrightarrow> b \<le> PTRDIFF_MAX \<Longrightarrow> size_add a b = a + b"
  "a \<le> PTRDIFF_MAX \<Longrightarrow> b \<le> a \<Longrightarrow> size_sub a b = a - b"
  by (simp_all add: PTRDIFF_MAX_def)

lemma rb_invD:
  assumes "rb_inv rb"
  shows "length (rb_buffer rb) = rb_size rb" "rb_size rb \<le> PTRDIFF_MAX" "initialSize rb \<le> PTRDIFF_MAX"
    "0 < initialSize rb" "freeSize rb \<le> rb_size rb" "readPtr rb < rb_size rb" "writePtr rb < rb_size rb"
    "rb_used rb < rb_size rb" "freeSize rb = rb_size rb - rb_used rb"
  using assms by (auto simp: rb_inv_def rb_used_def)

lemma rb_sizes [simp]:
  assumes "rb_inv rb"
  shows "ringbuffer_used rb = rb_used rb" "size_sub (rb_size rb) (freeSize rb) = rb_used rb"
    "size_sub (rb_size rb) (readPtr rb) = rb_size rb - readPtr rb"
    "size_sub (rb_size rb) (writePtr rb) = rb_size rb - writePtr rb"
  using rb_invD(2,5-8) [OF assms] by (simp_all add: ringbuffer_used_def rb_used_def size_small)

lemma length_rb_content [simp]: "rb_inv rb \<Longrightarrow> length (rb_content rb) = rb_used rb"
  using rb_invD [of rb] by (simp add: rb_content_def)

lemma rb_empty: "rb_inv rb \<Longrightarrow> writePtr rb = readPtr rb \<longleftrightarrow> rb_used rb = 0"
  by (auto simp: rb_inv_def rb_used_def split: if_splits)

lemma rb_linear:
  assumes "rb_inv rb" "readPtr rb \<le> writePtr rb"
  shows "writePtr rb = readPtr rb + rb_used rb"
    "rb_content rb = take (rb_used rb) (drop (readPtr rb) (rb_buffer rb))"
  using assms by (auto simp: rb_inv_def rb_used_def rb_content_def split: if_splits)

lemma rb_wrapped:
  assumes "rb_inv rb" "writePtr rb < readPtr rb"
  shows "writePtr rb + rb_size rb = readPtr rb + rb_used rb"
    "rb_content rb = drop (readPtr rb) (rb_buffer rb) @ take (writePtr rb) (rb_buffer rb)"
  using assms by (auto simp: rb_inv_def rb_used_def rb_content_def split: if_splits)

text \<open>Establishing the invariant, for the two shapes of a buffer.\<close>

lemma rb_linearI:
  assumes "length (rb_buffer rb) = rb_size rb" "rb_size rb \<le> PTRDIFF_MAX" "0 < initialSize rb"
    "initialSize rb \<le> PTRDIFF_MAX" "used < rb_size rb" "freeSize rb = rb_size rb - used"
    "readPtr rb + used < rb_size rb" "writePtr rb = readPtr rb + used"
  shows "rb_inv rb" "rb_content rb = take used (drop (readPtr rb) (rb_buffer rb))"
  using assms by (auto simp: rb_inv_def rb_used_def rb_content_def)

lemma resize_free:
  assumes "used \<le> sz" "used \<le> target" "sz \<le> PTRDIFF_MAX" "target \<le> PTRDIFF_MAX"
  shows "size_add (sz - used) (size_sub target sz) = target - used"
proof -
  have "size_add (sz - used) (size_sub target sz) = (sz - used + (target + (2 ^ 64 - sz))) mod 2 ^ 64"
  proof -
    have "sz mod 2 ^ 64 = sz" using assms by (simp add: PTRDIFF_MAX_def)
    then show ?thesis by (simp only: size_add_def size_sub_def mod_add_right_eq)
  qed
  also have "sz - used + (target + (2 ^ 64 - sz)) = target - used + 2 ^ 64"
    using assms by (simp add: PTRDIFF_MAX_def)
  finally have "size_add (sz - used) (size_sub target sz) = (target - used) mod 2 ^ 64"
    by (simp only: mod_add_self2)
  moreover have "target - used < 2 ^ 64" using assms by (simp add: PTRDIFF_MAX_def)
  ultimately show ?thesis by (simp only: mod_less)
qed

lemma rb_copy_used_eq:
  assumes "rb_inv rb" "rb_used rb \<noteq> 0" "rb_used rb < length newData"
  shows "rb_copy_used rb newData = Some (rb_content rb @ drop (rb_used rb) newData)"
proof (cases "readPtr rb < writePtr rb")
  case True
  then show ?thesis
    using assms rb_linear [OF assms(1)] rb_invD [OF assms(1)]
    by (simp add: rb_copy_used_def mem_read_def mem_write_def)
next
  case False
  then have "writePtr rb < readPtr rb" using rb_empty [OF assms(1)] assms(2) by simp
  then have w: "rb_size rb - readPtr rb + writePtr rb = rb_used rb"
      "rb_content rb = drop (readPtr rb) (rb_buffer rb) @ take (writePtr rb) (rb_buffer rb)"
    using rb_wrapped [OF assms(1)] rb_invD(6) [OF assms(1)] by simp_all
  have len: "length (drop (readPtr rb) (rb_buffer rb)) = rb_size rb - readPtr rb"
    "rb_size rb - readPtr rb \<le> rb_used rb" "readPtr rb + (rb_size rb - readPtr rb) \<le> length (rb_buffer rb)"
    "writePtr rb \<le> length (rb_buffer rb)"
    using w(1) rb_invD [OF assms(1)] by simp_all
  then have "mem_read (rb_buffer rb) (readPtr rb) (rb_size rb - readPtr rb) = Some (drop (readPtr rb) (rb_buffer rb))"
    "mem_read (rb_buffer rb) 0 (writePtr rb) = Some (take (writePtr rb) (rb_buffer rb))"
    "mem_write newData 0 (drop (readPtr rb) (rb_buffer rb)) =
       Some (drop (readPtr rb) (rb_buffer rb) @ drop (rb_size rb - readPtr rb) newData)"
    using assms(3) by (simp_all add: mem_read_def mem_write_def)
  moreover have "mem_write (drop (readPtr rb) (rb_buffer rb) @ drop (rb_size rb - readPtr rb) newData)
      (rb_size rb - readPtr rb) (take (writePtr rb) (rb_buffer rb)) =
      Some (rb_content rb @ drop (rb_used rb) newData)"
    using len w assms(3) by (simp add: mem_write_def add.commute)
  ultimately show ?thesis
    using False w assms(1) by (auto simp: rb_copy_used_def)
qed

lemma realloc_spec:
  assumes "rb_inv rb" "rb_used rb < target"
  shows "(ringbuffer_realloc A target rb = Fail rb) \<or>
    (\<exists>r. ringbuffer_realloc A target rb = Done () r \<and> rb_inv r \<and> rb_content r = rb_content rb \<and>
      rb_size r = target \<and> initialSize r = initialSize rb)"
proof -
  note inv = rb_invD [OF assms(1)]
  have free: "size_add (freeSize rb) (size_sub target (rb_size rb)) = target - rb_used rb" if "target \<le> PTRDIFF_MAX"
    using inv assms(2) that resize_free [of "rb_used rb" "rb_size rb" target] by simp
  show ?thesis
  proof (cases "writePtr rb = readPtr rb")
    case True
    then have "rb_used rb = 0" using rb_empty assms(1) by simp
    then have "rb_content rb = []" by (simp add: rb_content_def)
    have "rb_inv r \<and> rb_content r = rb_content rb"
      if "length b = target" "target \<le> PTRDIFF_MAX"
        "r = rb\<lparr>readPtr := 0, writePtr := 0, rb_buffer := b, freeSize := target - rb_used rb, rb_size := target\<rparr>" for b r
      using rb_linearI [of r 0] that inv \<open>rb_used rb = 0\<close> \<open>rb_content rb = []\<close> assms(2) by simp
    then show ?thesis
      using True free c_realloc_length [of A "rb_buffer rb" target]
      by (cases "c_realloc A (rb_buffer rb) target") (simp_all add: ringbuffer_realloc_def rb_resized_def)
  next
    case False
    show ?thesis
    proof (cases "writePtr rb \<ge> readPtr rb \<and> writePtr rb < target")
      case True
      have lin: "writePtr rb = readPtr rb + rb_used rb"
        "rb_content rb = take (rb_used rb) (drop (readPtr rb) (rb_buffer rb))"
        using rb_linear [OF assms(1)] True by simp_all
      have "rb_inv r \<and> rb_content r = rb_content rb"
        if "c_realloc A (rb_buffer rb) target = Some b"
          "r = rb\<lparr>rb_buffer := b, freeSize := target - rb_used rb, rb_size := target\<rparr>" for b r
      proof -
        have "take (readPtr rb + rb_used rb) b = take (readPtr rb + rb_used rb) (rb_buffer rb)"
          using c_realloc_take [OF that(1)] lin inv True by simp
        then have "take (rb_used rb) (drop (readPtr rb) b) = rb_content rb"
          by (simp add: lin take_drop add.commute)
        then show ?thesis
          using rb_linearI [of r "rb_used rb"] c_realloc_length [OF that(1)] True lin inv assms(2) that(2)
            assms(1)
          by (simp add: rb_inv_def)
      qed
      then show ?thesis
        using True False free c_realloc_length [of A "rb_buffer rb" target]
        by (cases "c_realloc A (rb_buffer rb) target") (simp_all add: ringbuffer_realloc_def rb_resized_def)
    next
      case no: False
      have "rb_inv r \<and> rb_content r = rb_content rb"
        if "length b = target" "target \<le> PTRDIFF_MAX"
          "r = rb\<lparr>writePtr := rb_used rb, readPtr := 0, rb_buffer := rb_content rb @ drop (rb_used rb) b,
             freeSize := target - rb_used rb, rb_size := target\<rparr>" for b r
        using rb_linearI [of r "rb_used rb"] that assms inv by (simp add: rb_inv_def)
      then show ?thesis
        using False free assms rb_copy_used_eq [OF assms(1)] rb_empty [OF assms(1)]
          c_malloc_length [of A target]
        by (cases "c_malloc A target")
          (simp_all add: ringbuffer_realloc_def if_not_P [OF no] rb_resized_def)
    qed
  qed
qed

section \<open>Writing\<close>

definition ring_store :: "byte list \<Rightarrow> nat \<Rightarrow> byte list \<Rightarrow> byte list option" where
  "ring_store buf w bs =
     (let k = min (length buf - w) (length bs) in
      Option.bind (mem_write buf w (take k bs)) (\<lambda>b. mem_write b 0 (drop k bs)))"

lemma block_write_nth:
  assumes "mem_write m off xs = Some m'"
  shows "length m' = length m" "j < length m \<Longrightarrow>
    m' ! j = (if off \<le> j \<and> j < off + length xs then xs ! (j - off) else m ! j)"
  using assms by (auto simp: mem_write_def nth_append split: if_splits)

lemma ring_store_nth:
  assumes "w < length buf" "length bs < length buf"
  obtains b where "ring_store buf w bs = Some b" "length b = length buf"
    "\<And>j. j < length buf \<Longrightarrow> j < w \<Longrightarrow> w + length bs \<le> length buf + j \<Longrightarrow> b ! j = buf ! j"
    "\<And>j. j < length buf \<Longrightarrow> w + length bs \<le> j \<Longrightarrow> b ! j = buf ! j"
    "\<And>i. i < length bs \<Longrightarrow> b ! ring_pos (length buf) w i = bs ! i"
proof -
  define k where "k = min (length buf - w) (length bs)"
  have k: "w + length (take k bs) \<le> length buf" "length (drop k bs) \<le> length buf" "length (take k bs) = k"
    "k \<le> length bs"
    using assms by (simp_all add: k_def)
  from k(1) obtain c where c: "mem_write buf w (take k bs) = Some c" by (simp add: mem_write_def)
  then have "length c = length buf" by (rule block_write_nth)
  with k(2) obtain b where b: "mem_write c 0 (drop k bs) = Some b" by (simp add: mem_write_def)
  have nth: "b ! j = (if j < length bs - k then bs ! (k + j)
      else if w \<le> j \<and> j < w + k then bs ! (j - w) else buf ! j)" if "j < length buf" for j
    using block_write_nth(2) [OF b, of j] block_write_nth(2) [OF c, of j] that k(3,4) \<open>length c = length buf\<close>
    by auto
  show thesis
  proof
    show "ring_store buf w bs = Some b" using b c by (simp add: ring_store_def k_def Let_def)
    show "length b = length buf" using block_write_nth(1) [OF b] block_write_nth(1) [OF c] by simp
    show "b ! j = buf ! j" if "j < length buf" "j < w" "w + length bs \<le> length buf + j" for j
      using nth [OF that(1)] that by (auto simp: k_def min_def)
    show "b ! j = buf ! j" if "j < length buf" "w + length bs \<le> j" for j
      using nth [OF that(1)] that by (auto simp: k_def min_def)
    show "b ! ring_pos (length buf) w i = bs ! i" if "i < length bs" for i
      using nth [of "ring_pos (length buf) w i"] that assms
      by (auto simp: ring_pos_def k_def min_def)
  qed
qed

lemma ring_store_content:
  assumes "length buf = n" "r < n" "u + length bs < n" "w = ring_pos n r u"
  obtains b where "ring_store buf w bs = Some b" "length b = n"
    "take (u + length bs) (drop r (b @ b)) = take u (drop r (buf @ buf)) @ bs"
proof -
  have w: "w < length buf" using assms by (auto simp: ring_pos_def)
  have bs: "length bs < length buf" using assms(1,3) by simp
  obtain b where b: "ring_store buf w bs = Some b" "length b = length buf"
    "\<And>j. j < length buf \<Longrightarrow> j < w \<Longrightarrow> w + length bs \<le> length buf + j \<Longrightarrow> b ! j = buf ! j"
    "\<And>j. j < length buf \<Longrightarrow> w + length bs \<le> j \<Longrightarrow> b ! j = buf ! j"
    "\<And>i. i < length bs \<Longrightarrow> b ! ring_pos (length buf) w i = bs ! i"
    using ring_store_nth [OF w bs] by blast
  have "b ! ring_pos n r i = buf ! ring_pos n r i" if "i < u" for i
  proof -
    have "ring_pos n r i < n" using assms that by (auto simp: ring_pos_def)
    moreover have "ring_pos n r i < w \<and> w + length bs \<le> n + ring_pos n r i \<or> w + length bs \<le> ring_pos n r i"
      using assms that by (auto simp: ring_pos_def)
    ultimately show ?thesis using b(3,4) assms(1) by blast
  qed
  moreover have "ring_pos n r (u + i) = ring_pos n w i" if "i < length bs" for i
    using assms that by (auto simp: ring_pos_def)
  ultimately show thesis
    using ring_extend [of buf n b r u bs] b assms(1-3) by (intro that [of b]) simp_all
qed

definition rb_push :: "nat \<Rightarrow> byte list \<Rightarrow> RingBuffer \<Rightarrow> RingBuffer" where
  "rb_push n b rb = rb\<lparr>rb_buffer := b, writePtr := size_add (writePtr rb) n mod rb_size rb,
     freeSize := size_sub (freeSize rb) n\<rparr>"

lemma rb_writePtr: "rb_inv rb \<Longrightarrow> writePtr rb = ring_pos (rb_size rb) (readPtr rb) (rb_used rb)"
  by (simp add: rb_inv_def ring_pos_def)

lemma rb_push_inv:
  assumes "rb_inv rb" "n < freeSize rb" "length b = rb_size rb"
  shows "rb_inv (rb_push n b rb)" "rb_used (rb_push n b rb) = rb_used rb + n"
    "initialSize (rb_push n b rb) = initialSize rb" "rb_size (rb_push n b rb) = rb_size rb"
proof -
  note inv = rb_invD [OF assms(1)]
  have bounds: "rb_used rb + n < rb_size rb" "n \<le> PTRDIFF_MAX" "writePtr rb \<le> PTRDIFF_MAX"
    "freeSize rb \<le> PTRDIFF_MAX"
    using assms(2) inv by simp_all
  have free: "size_sub (freeSize rb) n = freeSize rb - n" "size_add (writePtr rb) n = writePtr rb + n"
    using bounds assms(2) by (simp_all add: size_small)
  show used: "rb_used (rb_push n b rb) = rb_used rb + n"
    using assms(2) inv(5) by (simp add: rb_push_def rb_used_def free)
  have "(writePtr rb + n) mod rb_size rb = ring_pos (rb_size rb) (readPtr rb) (rb_used rb + n)"
  proof -
    have "m mod k = (if m < k then m else m - k)" if "m < 2 * k" for m k :: nat
      using that by (simp add: mod_if)
    then show ?thesis
      using bounds(1) inv(6) by (auto simp: rb_writePtr [OF assms(1)] ring_pos_def)
  qed
  then show "rb_inv (rb_push n b rb)"
    unfolding rb_inv_def used ring_pos_def [symmetric]
    using assms(2,3) inv free by (simp add: rb_push_def) 
  show "initialSize (rb_push n b rb) = initialSize rb" "rb_size (rb_push n b rb) = rb_size rb"
    by (simp_all add: rb_push_def)
qed

lemma rb_push_content:
  assumes "rb_inv rb" "length bs < freeSize rb"
  obtains b where "ring_store (rb_buffer rb) (writePtr rb) bs = Some b" "length b = rb_size rb"
    "rb_content (rb_push (length bs) b rb) = rb_content rb @ bs"
proof -
  note inv = rb_invD [OF assms(1)]
  have "rb_used rb + length bs < rb_size rb" using assms(2) inv by simp
  then obtain b where b: "ring_store (rb_buffer rb) (writePtr rb) bs = Some b" "length b = rb_size rb"
    "take (rb_used rb + length bs) (drop (readPtr rb) (b @ b)) =
       take (rb_used rb) (drop (readPtr rb) (rb_buffer rb @ rb_buffer rb)) @ bs"
    using ring_store_content [OF inv(1,6) _ rb_writePtr [OF assms(1)]] by blast
  moreover have "readPtr (rb_push (length bs) b rb) = readPtr rb" "rb_buffer (rb_push (length bs) b rb) = b"
    by (simp_all add: rb_push_def)
  ultimately show thesis
    using rb_push_inv(2) [OF assms b(2)] by (intro that [of b]) (simp_all add: rb_content_def)
qed

lemma mem_write_Nil: "off \<le> length m \<Longrightarrow> mem_write m off [] = Some m"
  by (simp add: mem_write_def)

lemma write_fits:
  assumes "rb_inv rb" "length ptr < freeSize rb"
  shows "\<exists>r. ringbuffer_write A ptr rb = Done () r \<and> rb_inv r \<and> rb_content r = rb_content rb @ ptr \<and>
    initialSize r = initialSize rb"
proof -
  note inv = rb_invD [OF assms(1)]
  obtain b where b: "ring_store (rb_buffer rb) (writePtr rb) ptr = Some b" "length b = rb_size rb"
    "rb_content (rb_push (length ptr) b rb) = rb_content rb @ ptr"
    using rb_push_content [OF assms] by blast
  define k where "k = min (rb_size rb - writePtr rb) (length ptr)"
  have k: "(if rb_size rb - writePtr rb < length ptr then rb_size rb - writePtr rb else length ptr) = k"
    by (simp add: k_def)
  obtain c where c: "mem_write (rb_buffer rb) (writePtr rb) (take k ptr) = Some c" "mem_write c 0 (drop k ptr) = Some b"
    using b(1) inv(1) by (auto simp: ring_store_def k_def Let_def split: bind_splits)
  have 1: "(if k \<noteq> 0 then mem_write (rb_buffer rb) (writePtr rb) (take k ptr) else Some (rb_buffer rb)) = Some c"
    using c(1) inv(1,7) by (auto simp: mem_write_Nil)
  have 2: "(if length ptr - k \<noteq> 0 then mem_write c 0 (drop k ptr) else Some c) = Some b"
    using c(2) by (auto simp: mem_write_Nil)
  have "ringbuffer_write A ptr rb = Done () (rb_push (length ptr) b rb)"
  proof -
    have "\<not> freeSize rb \<le> length ptr" "rb_size rb \<noteq> 0" using assms(2) inv(6) by simp_all
    then show ?thesis
      by (simp only: ringbuffer_write_def Let_def run_bind.simps rb_sizes [OF assms(1)] k 1 2
          option.case if_False rb_push_def)
  qed
  then show ?thesis
    using b rb_push_inv [OF assms b(2)] by simp
qed


text \<open>A write that does not fit first grows the block by its own size.\<close>

lemma write_spec:
  assumes "rb_inv rb" "length ptr \<le> PTRDIFF_MAX"
  shows "ringbuffer_write A ptr rb = Fail rb \<or>
    (\<exists>r. ringbuffer_write A ptr rb = Done () r \<and> rb_inv r \<and> rb_content r = rb_content rb @ ptr \<and>
      initialSize r = initialSize rb)"
proof (cases "freeSize rb \<le> length ptr")
  case False
  then show ?thesis using write_fits [OF assms(1)] by simp
next
  case True
  note inv = rb_invD [OF assms(1)]
  have sum: "size_add (rb_size rb) (length ptr) = rb_size rb + length ptr"
    using inv(2) assms(2) by (simp add: size_small)
  have "rb_used rb < rb_size rb + length ptr" using inv(8) by simp
  from realloc_spec [OF assms(1) this, of A]
  consider "ringbuffer_realloc A (rb_size rb + length ptr) rb = Fail rb"
    | r where "ringbuffer_realloc A (rb_size rb + length ptr) rb = Done () r" "rb_inv r"
        "rb_content r = rb_content rb" "rb_size r = rb_size rb + length ptr" "initialSize r = initialSize rb"
    by blast
  then show ?thesis
  proof cases
    case 1
    then show ?thesis using True sum by (simp add: ringbuffer_write_def)
  next
    case 2
    have "rb_used r = rb_used rb"
      using length_rb_content [OF assms(1)] length_rb_content [OF 2(2)] 2(3) by simp
    then have "length ptr < freeSize r"
      using rb_invD(9) [OF 2(2)] 2(4) inv(8) by simp
    moreover from this have "ringbuffer_write A ptr rb = ringbuffer_write A ptr r"
      using True 2(1) sum by (simp add: ringbuffer_write_def)
    ultimately show ?thesis
      using write_fits [OF 2(2)] 2(3,5) by simp
  qed
qed

section \<open>Linear writes\<close>

text \<open>After \<open>ringbuffer_ensure_linear_write\<close> the free bytes at the returned offset are contiguous.\<close>

lemma rb_reset:
  assumes "rb_inv rb" "writePtr rb = readPtr rb"
  shows "rb_inv (rb\<lparr>writePtr := 0, readPtr := 0\<rparr>)"
    "rb_content (rb\<lparr>writePtr := 0, readPtr := 0\<rparr>) = rb_content rb"
proof -
  have "rb_used rb = 0" using rb_empty assms by simp
  then have "rb_content rb = []" by (simp add: rb_content_def)
  then show "rb_inv (rb\<lparr>writePtr := 0, readPtr := 0\<rparr>)"
    "rb_content (rb\<lparr>writePtr := 0, readPtr := 0\<rparr>) = rb_content rb"
    using rb_linearI [of "rb\<lparr>writePtr := 0, readPtr := 0\<rparr>" 0] rb_invD [OF assms(1)] \<open>rb_used rb = 0\<close>
    by simp_all
qed

lemma ensure_linear_fits:
  assumes "rb_inv rb" "sz \<le> freeSize rb" "sz \<le> PTRDIFF_MAX"
  shows "\<exists>r. ringbuffer_ensure_linear_write A sz rb = Done (writePtr r) r \<and> rb_inv r \<and>
    rb_content r = rb_content rb \<and> initialSize r = initialSize rb \<and> freeSize r = freeSize rb \<and>
    writePtr r + sz \<le> rb_size r"
proof -
  define q where "q = (if writePtr rb = readPtr rb then rb\<lparr>writePtr := 0, readPtr := 0\<rparr> else rb)"
  have q: "rb_inv q" "rb_content q = rb_content rb" "initialSize q = initialSize rb" "freeSize q = freeSize rb"
      "rb_size q = rb_size rb"
    using rb_reset [OF assms(1)] assms(1) by (simp_all add: q_def)
  note inv = rb_invD [OF q(1)]
  have sum: "size_add (writePtr q) sz = writePtr q + sz"
    using inv(2,7) assms(3) by (simp add: size_small)
  have run: "ringbuffer_ensure_linear_write A sz rb =
    (if writePtr q + sz < rb_size q then Done (writePtr q) q
     else case Option.bind (mem_read (rb_buffer q) (readPtr q) (size_sub (writePtr q) (readPtr q)))
            (mem_write (rb_buffer q) 0) of
          None \<Rightarrow> Abort
        | Some b \<Rightarrow> Done (rb_used q) (q\<lparr>rb_buffer := b, readPtr := 0, writePtr := rb_used q\<rparr>))"
  proof -
    have "\<not> freeSize rb < sz" using assms(2) by simp
    then show ?thesis
      by (simp only: ringbuffer_ensure_linear_write_def Let_def if_False run_bind.simps q_def [symmetric]
          sum rb_sizes(2) [OF q(1)])
  qed
  show ?thesis
  proof (cases "writePtr q + sz < rb_size q")
    case True
    then show ?thesis using run q by (intro exI [of _ q]) simp
  next
    case False
    have lin: "readPtr q \<le> writePtr q"
    proof (rule ccontr)
      assume "\<not> readPtr q \<le> writePtr q"
      then have "writePtr q + rb_size q = readPtr q + rb_used q"
        using rb_wrapped(1) [OF q(1)] by simp
      then show False using False assms(2) inv q(4) by simp
    qed
    note l = rb_linear [OF q(1) lin]
    have sub: "size_sub (writePtr q) (readPtr q) = rb_used q"
      using lin l(1) inv(2,7) by (simp add: size_small)
    define b where "b = rb_content q @ drop (rb_used q) (rb_buffer q)"
    have len: "length (rb_content q) = rb_used q" using q(1) by simp
    have "mem_read (rb_buffer q) (readPtr q) (rb_used q) = Some (rb_content q)"
      using l inv by (simp add: mem_read_def)
    moreover have "mem_write (rb_buffer q) 0 (rb_content q) = Some b"
      using len inv by (simp add: mem_write_def b_def)
    ultimately have res: "ringbuffer_ensure_linear_write A sz rb =
        Done (rb_used q) (q\<lparr>rb_buffer := b, readPtr := 0, writePtr := rb_used q\<rparr>)"
      using run False sub by simp
    let ?r = "q\<lparr>rb_buffer := b, readPtr := 0, writePtr := rb_used q\<rparr>"
    have "rb_inv ?r" "rb_content ?r = take (rb_used q) b"
      using rb_linearI [of ?r "rb_used q"] inv len by (simp_all add: b_def)
    moreover have "take (rb_used q) b = rb_content q" using len by (simp add: b_def)
    moreover have "rb_used q + sz \<le> rb_size q" using assms(2) inv q(4) by simp
    ultimately show ?thesis
      using res q by (intro exI [of _ ?r]) simp
  qed
qed

lemma ensure_linear_spec:
  assumes "rb_inv rb" "sz + 32 \<le> PTRDIFF_MAX"
  shows "ringbuffer_ensure_linear_write A sz rb = Fail rb \<or>
    (\<exists>r. ringbuffer_ensure_linear_write A sz rb = Done (writePtr r) r \<and> rb_inv r \<and>
      rb_content r = rb_content rb \<and> initialSize r = initialSize rb \<and>
      sz \<le> freeSize r \<and> writePtr r + sz \<le> rb_size r)"
proof (cases "freeSize rb < sz")
  case False
  then show ?thesis using ensure_linear_fits [OF assms(1), of sz A] assms(2) by force
next
  case True
  note inv = rb_invD [OF assms(1)]
  define target where "target = rb_used rb + sz + 32"
  have sum: "size_add (size_sub (size_add (rb_size rb) sz) (freeSize rb)) 32 = target"
  proof -
    have "size_add (rb_size rb) sz = rb_size rb + sz" using inv(2) assms(2) by (simp add: size_small)
    moreover have "size_sub (rb_size rb + sz) (freeSize rb) = rb_used rb + sz"
      using inv(2,5,8,9) assms(2) by (simp add: PTRDIFF_MAX_def)
    moreover have "size_add (rb_used rb + sz) 32 = target"
      using inv(2,8) assms(2) by (simp add: PTRDIFF_MAX_def target_def)
    ultimately show ?thesis by simp
  qed
  have "rb_used rb < target" by (simp add: target_def)
  from realloc_spec [OF assms(1) this, of A]
  consider "ringbuffer_realloc A target rb = Fail rb"
    | r where "ringbuffer_realloc A target rb = Done () r" "rb_inv r"
        "rb_content r = rb_content rb" "rb_size r = target" "initialSize r = initialSize rb"
    by blast
  then show ?thesis
  proof cases
    case 1
    then show ?thesis using True sum by (simp add: ringbuffer_ensure_linear_write_def)
  next
    case 2
    have "rb_used r = rb_used rb"
      using length_rb_content [OF assms(1)] length_rb_content [OF 2(2)] 2(3) by simp
    then have fits: "sz \<le> freeSize r" "sz \<le> PTRDIFF_MAX"
      using rb_invD(9) [OF 2(2)] 2(4) assms(2) by (simp_all add: target_def)
    moreover from this have "ringbuffer_ensure_linear_write A sz rb = ringbuffer_ensure_linear_write A sz r"
      using True 2(1) sum by (simp add: ringbuffer_ensure_linear_write_def)
    ultimately show ?thesis
      using ensure_linear_fits [OF 2(2) fits, of A] 2(3,5) by auto
  qed
qed

lemma commit_written_spec:
  assumes "rb_inv rb" "length bs < freeSize rb" "writePtr rb + length bs \<le> rb_size rb"
  obtains b r where "mem_write (rb_buffer rb) (writePtr rb) bs = Some b"
    "ringbuffer_commit_written_bytes (length bs) (rb\<lparr>rb_buffer := b\<rparr>) = Done () r"
    "rb_inv r" "rb_content r = rb_content rb @ bs" "initialSize r = initialSize rb"
proof -
  note inv = rb_invD [OF assms(1)]
  obtain b where b: "ring_store (rb_buffer rb) (writePtr rb) bs = Some b" "length b = rb_size rb"
    "rb_content (rb_push (length bs) b rb) = rb_content rb @ bs"
    using rb_push_content [OF assms(1,2)] by blast
  have w: "mem_write (rb_buffer rb) (writePtr rb) bs = Some b"
    using b(1) assms(3) inv(1)
    by (auto simp: ring_store_def Let_def min_def mem_write_Nil split: if_splits bind_splits)
  show thesis
  proof (cases "bs = []")
    case True
    then have "b = rb_buffer rb" using w inv(1,7) by (simp add: mem_write_Nil)
    then show thesis using True assms(1) w
      by (intro that [of b rb]) (simp_all add: ringbuffer_commit_written_bytes_def)
  next
    case False
    have "size_add (writePtr rb) (length bs) = writePtr rb + length bs"
      using assms(2,3) inv by (simp add: size_small)
    then have "ringbuffer_commit_written_bytes (length bs) (rb\<lparr>rb_buffer := b\<rparr>) = Done () (rb_push (length bs) b rb)"
      using False assms(3) inv(6) by (simp add: ringbuffer_commit_written_bytes_def rb_push_def Suc_le_eq)
    then show thesis
      using that [OF w _ rb_push_inv(1) [OF assms(1,2) b(2)] b(3)] rb_push_inv(3) [OF assms(1,2) b(2)] by simp
  qed
qed

section \<open>Reading\<close>

lemma peek_block:
  assumes inv: "length (rb_buffer rb) = rb_size rb" "rb_size rb \<le> PTRDIFF_MAX" "freeSize rb \<le> rb_size rb"
    "readPtr rb < rb_size rb"
  shows "\<exists>ds. map (chunk_bytes rb) (ringbuffer_peek sz rb) = map Some ds \<and>
    concat ds = take sz (rb_content rb) \<and> length ds \<le> 2"
proof -
  have used: "rb_used rb \<le> rb_size rb" "size_sub (rb_size rb) (freeSize rb) = rb_used rb"
    "size_sub (rb_size rb) (readPtr rb) = rb_size rb - readPtr rb" "length (rb_content rb) = rb_used rb"
    using inv by (simp_all add: rb_used_def rb_content_def size_small)
  define m where "m = min sz (rb_used rb)"
  define k where "k = min m (rb_size rb - readPtr rb)"
  have m: "(if rb_used rb < sz then rb_used rb else sz) = m" by (simp add: m_def)
  have small: "m \<le> PTRDIFF_MAX" "readPtr rb \<le> PTRDIFF_MAX" "m \<le> rb_size rb"
    using inv used(1) by (simp_all add: m_def min_def)
  then have add: "size_add (readPtr rb) m = readPtr rb + m" by (simp add: size_small)
  have k: "(if rb_size rb < readPtr rb + m then rb_size rb - readPtr rb else m) = k"
    using inv(4) by (simp add: k_def)
  have sub: "size_sub m k = m - k" using small by (simp add: k_def size_small)
  have peek: "ringbuffer_peek sz rb = (if sz < 1 then [] else
      (if k \<noteq> 0 then [\<lparr>chunk_size = k, chunk_data = readPtr rb\<rparr>] else []) @
      (if m - k \<noteq> 0 then [\<lparr>chunk_size = m - k, chunk_data = 0\<rparr>] else []))"
    by (simp only: ringbuffer_peek_def Let_def used m add k sub)
  have "take sz (rb_content rb) = take m (rb_content rb)"
    using used(4) by (simp add: m_def min_def)
  also have "\<dots> = take k (drop (readPtr rb) (rb_buffer rb)) @ take (m - k) (rb_buffer rb)"
    unfolding rb_content_def k_def
    using ring_take [OF inv(1,4), of "rb_used rb" m] used(1) by (simp add: m_def)
  finally have content: "take sz (rb_content rb) =
      take k (drop (readPtr rb) (rb_buffer rb)) @ take (m - k) (rb_buffer rb)" .
  have chunks: "chunk_bytes rb \<lparr>chunk_size = k, chunk_data = readPtr rb\<rparr> = Some (take k (drop (readPtr rb) (rb_buffer rb)))"
    "chunk_bytes rb \<lparr>chunk_size = m - k, chunk_data = 0\<rparr> = Some (take (m - k) (rb_buffer rb))"
    using inv(1,4) small by (auto simp: chunk_bytes_def mem_read_def k_def)
  show ?thesis
  proof (cases "sz < 1")
    case True
    then show ?thesis using peek by (intro exI [of _ "[]"]) simp
  next
    case False
    then show ?thesis
      using peek content chunks
      by (intro exI [of _ "(if k \<noteq> 0 then [take k (drop (readPtr rb) (rb_buffer rb))] else []) @
          (if m - k \<noteq> 0 then [take (m - k) (rb_buffer rb)] else [])"]) auto
  qed
qed

lemma peek_spec:
  assumes "rb_inv rb"
  shows "\<exists>ds. map (chunk_bytes rb) (ringbuffer_peek sz rb) = map Some ds \<and>
    concat ds = take sz (rb_content rb) \<and> length ds \<le> 2"
  by (rule peek_block [OF rb_invD(1,2,5,6) [OF assms]])

definition rb_pop :: "nat \<Rightarrow> RingBuffer \<Rightarrow> RingBuffer" where
  "rb_pop n rb = rb\<lparr>readPtr := size_add (readPtr rb) n mod rb_size rb, freeSize := size_add (freeSize rb) n\<rparr>"

lemma rb_pop_inv:
  assumes "rb_inv rb" "n \<le> rb_used rb"
  shows "rb_inv (rb_pop n rb)" "rb_content (rb_pop n rb) = drop n (rb_content rb)"
    "rb_used (rb_pop n rb) = rb_used rb - n"
proof -
  note inv = rb_invD [OF assms(1)]
  define p where "p = ring_pos (rb_size rb) (readPtr rb) n"
  have sums: "size_add (readPtr rb) n = readPtr rb + n" "size_add (freeSize rb) n = freeSize rb + n"
    using inv assms(2) by (simp_all add: size_small)
  have mod: "(readPtr rb + n) mod rb_size rb = p"
    using inv(6,8) assms(2) by (simp add: p_def ring_pos_def mod_if)
  have p: "p < rb_size rb" using inv(6,8) assms(2) by (auto simp: p_def ring_pos_def)
  have pop: "rb_pop n rb = rb\<lparr>readPtr := p, freeSize := freeSize rb + n\<rparr>"
    by (simp add: rb_pop_def sums mod)
  show used: "rb_used (rb_pop n rb) = rb_used rb - n"
    using inv(5) assms(2) by (simp add: pop rb_used_def)
  have "writePtr rb = ring_pos (rb_size rb) p (rb_used rb - n)"
    using rb_writePtr [OF assms(1)] inv(6,8) assms(2) by (auto simp: p_def ring_pos_def)
  then show "rb_inv (rb_pop n rb)"
    unfolding rb_inv_def used ring_pos_def [symmetric]
    using inv p assms(2) by (simp add: pop)
  have "take (rb_used rb - n) (drop p (rb_buffer rb @ rb_buffer rb)) =
      drop n (take (rb_used rb) (drop (readPtr rb) (rb_buffer rb @ rb_buffer rb)))" (is "?l = ?r")
  proof (rule nth_equalityI)
    show "length ?l = length ?r" using inv(1,6,8) p assms(2) by (simp del: take_append drop_append)
    fix i assume "i < length ?l"
    then have i: "i < rb_used rb - n" "n + i < rb_used rb" by simp_all
    have "?l ! i = rb_buffer rb ! ring_pos (rb_size rb) p i"
      using ring_nth [OF inv(1) p _ i(1)] inv(8) by simp
    also have "ring_pos (rb_size rb) p i = ring_pos (rb_size rb) (readPtr rb) (n + i)"
      using i inv(6,8) by (auto simp: p_def ring_pos_def)
    also have "rb_buffer rb ! \<dots> = ?r ! i"
      using ring_nth [OF inv(1,6) _ i(2)] inv(1,6,8) i by (simp del: take_append drop_append)
    finally show "?l ! i = ?r ! i" .
  qed
  then show "rb_content (rb_pop n rb) = drop n (rb_content rb)"
    unfolding rb_content_def used by (simp add: pop)
qed

lemma commit_read_spec:
  assumes "rb_inv rb" "sz \<le> rb_used rb"
  shows "\<exists>r. ringbuffer_commit_read_bytes A sz rb = Done () r \<and> rb_inv r \<and>
    rb_content r = drop sz (rb_content rb) \<and> initialSize r = initialSize rb"
proof (cases "sz < 1")
  case True
  then show ?thesis using assms by (simp add: ringbuffer_commit_read_bytes_def)
next
  case False
  note inv = rb_invD [OF assms(1)]
  let ?p = "rb_pop sz rb"
  note pop = rb_pop_inv [OF assms]
  have eq: "initialSize ?p = initialSize rb" "rb_size ?p = rb_size rb" by (simp_all add: rb_pop_def)
  have run: "ringbuffer_commit_read_bytes A sz rb =
      (if rb_size rb \<noteq> initialSize rb \<and> rb_used ?p < initialSize rb div 2 then
         (case ringbuffer_realloc A (initialSize rb) ?p of
            Abort \<Rightarrow> Abort | Fail rb \<Rightarrow> Done () rb | Done _ rb \<Rightarrow> Done () rb)
       else Done () ?p)"
  proof -
    have "rb_size rb \<noteq> 0" "(rb_used rb \<ge> sz) = True" using inv(6) assms(2) by simp_all
    then show ?thesis
      using False
      by (simp only: ringbuffer_commit_read_bytes_def Let_def rb_sizes(2) [OF assms(1)] run_assert_def
          if_True if_False run_bind.simps rb_pop_def [symmetric] eq rb_sizes(1) [OF pop(1)])
  qed
  show ?thesis
  proof (cases "rb_size rb \<noteq> initialSize rb \<and> rb_used ?p < initialSize rb div 2")
    case True
    then have "rb_used ?p < initialSize rb" by linarith
    from realloc_spec [OF pop(1) this, of A] show ?thesis
      using run True pop eq(1) by auto
  next
    case False
    have "ringbuffer_commit_read_bytes A sz rb = Done () ?p"
      using run by (simp only: if_not_P [OF False])
    then show ?thesis using pop eq(1) by simp
  qed
qed

section \<open>The queue interface\<close>

text \<open>
  What a client of a byte queue does: it pushes blocks, which may be refused, and pulls up to \<open>n\<close>
  bytes by looking at them and then dropping what it saw. \<open>fifo_run\<close> runs a sequence of such requests
  and collects the bytes accepted and the bytes delivered; \<open>None\<close> is an abort.
\<close>

datatype fifo_op = Push "byte list" | Pull nat

fun fifo_run ::
    "(byte list \<Rightarrow> 's \<Rightarrow> (unit, 's) outcome) \<Rightarrow> (nat \<Rightarrow> 's \<Rightarrow> byte list option) \<Rightarrow>
     (nat \<Rightarrow> 's \<Rightarrow> (unit, 's) outcome) \<Rightarrow> fifo_op list \<Rightarrow> 's \<Rightarrow> (byte list \<times> byte list \<times> 's) option" where
  "fifo_run push view pop [] s = Some ([], [], s)"
| "fifo_run push view pop (Push bs # ops) s =
     (case push bs s of
        Abort \<Rightarrow> None
      | Fail t \<Rightarrow> fifo_run push view pop ops t
      | Done _ t \<Rightarrow> map_option (\<lambda>(inp, out, u). (bs @ inp, out, u)) (fifo_run push view pop ops t))"
| "fifo_run push view pop (Pull n # ops) s =
     (case view n s of
        None \<Rightarrow> None
      | Some bs \<Rightarrow>
          (case pop (length bs) s of
             Done _ t \<Rightarrow> map_option (\<lambda>(inp, out, u). (inp, bs @ out, u)) (fifo_run push view pop ops t)
           | _ \<Rightarrow> None))"

definition pushes_below :: "nat \<Rightarrow> fifo_op list \<Rightarrow> bool" where
  "pushes_below n ops = list_all (\<lambda>p. case p of Push bs \<Rightarrow> length bs \<le> n | Pull _ \<Rightarrow> True) ops"

locale byte_fifo =
  fixes inv :: "'s \<Rightarrow> bool"
    and content :: "'s \<Rightarrow> byte list"
    and push :: "byte list \<Rightarrow> 's \<Rightarrow> (unit, 's) outcome"
    and view :: "nat \<Rightarrow> 's \<Rightarrow> byte list option"
    and pop :: "nat \<Rightarrow> 's \<Rightarrow> (unit, 's) outcome"
    and limit :: nat
  assumes push_law: "inv s \<Longrightarrow> length bs \<le> limit \<Longrightarrow> push bs s = Fail s \<or>
      (\<exists>t. push bs s = Done () t \<and> inv t \<and> content t = content s @ bs)"
    and view_law: "inv s \<Longrightarrow> view n s = Some (take n (content s))"
    and pop_law: "inv s \<Longrightarrow> n \<le> length (content s) \<Longrightarrow>
      \<exists>t. pop n s = Done () t \<and> inv t \<and> content t = drop n (content s)"
begin

lemma pull_step:
  assumes "inv s"
  shows "\<exists>t. view n s = Some (take n (content s)) \<and> pop (length (take n (content s))) s = Done () t \<and>
    inv t \<and> content s = take n (content s) @ content t"
proof -
  let ?n = "length (take n (content s))"
  from pop_law [OF assms, of ?n] obtain t where
    "pop ?n s = Done () t" "inv t" "content t = drop ?n (content s)" by auto
  moreover have "drop ?n (content s) = drop n (content s)" by (cases "n \<le> length (content s)") simp_all
  ultimately show ?thesis using view_law [OF assms] by (intro exI [of _ t]) simp
qed

lemma fifo_order:
  "inv s \<Longrightarrow> pushes_below limit ops \<Longrightarrow>
   \<exists>inp out t. fifo_run push view pop ops s = Some (inp, out, t) \<and> inv t \<and>
     content s @ inp = out @ content t"
proof (induction ops arbitrary: s)
  case Nil
  then show ?case by simp
next
  case (Cons p ops)
  then have ops: "pushes_below limit ops" by (simp add: pushes_below_def)
  show ?case
  proof (cases p)
    case (Push bs)
    then have "length bs \<le> limit" using Cons.prems(2) by (simp add: pushes_below_def)
    from push_law [OF Cons.prems(1) this] show ?thesis
    proof (elim disjE exE conjE)
      assume "push bs s = Fail s"
      then show ?thesis using Cons.IH [OF Cons.prems(1) ops] Push by simp
    next
      fix t assume "push bs s = Done () t" "inv t" "content t = content s @ bs"
      then show ?thesis using Cons.IH [OF _ ops, of t] Push by force
    qed
  next
    case (Pull n)
    from pull_step [OF Cons.prems(1), of n] obtain t where t: "view n s = Some (take n (content s))"
      "pop (length (take n (content s))) s = Done () t" "inv t" "content s = take n (content s) @ content t"
      by blast
    from Cons.IH [OF t(3) ops] obtain inp out u where
      "fifo_run push view pop ops t = Some (inp, out, u)" "inv u" "content t @ inp = out @ content u" by blast
    then show ?thesis
      using t Pull by (intro exI [of _ inp] exI [of _ "take n (content s) @ out"] exI [of _ u])
        (simp del: length_take, metis append.assoc)
  qed
qed

end

definition ringbuffer_peek_bytes :: "nat \<Rightarrow> RingBuffer \<Rightarrow> byte list option" where
  "ringbuffer_peek_bytes n rb = map_option concat (those (map (chunk_bytes rb) (ringbuffer_peek n rb)))"

lemma those_map_Some: "those (map Some xs) = Some xs"
  by (induction xs) simp_all

interpretation ringq: byte_fifo rb_inv rb_content "ringbuffer_write A" ringbuffer_peek_bytes
    "ringbuffer_commit_read_bytes A" PTRDIFF_MAX for A
proof
  show "ringbuffer_write A bs s = Fail s \<or>
      (\<exists>t. ringbuffer_write A bs s = Done () t \<and> rb_inv t \<and> rb_content t = rb_content s @ bs)"
    if "rb_inv s" "length bs \<le> PTRDIFF_MAX" for s bs
    using write_spec [OF that, of A] by blast
  show "ringbuffer_peek_bytes n s = Some (take n (rb_content s))" if "rb_inv s" for s n
    using peek_spec [OF that, of n] by (auto simp: ringbuffer_peek_bytes_def those_map_Some)
  show "\<exists>t. ringbuffer_commit_read_bytes A n s = Done () t \<and> rb_inv t \<and> rb_content t = drop n (rb_content s)"
    if "rb_inv s" "n \<le> length (rb_content s)" for s n
    using commit_read_spec [OF that(1), of n A] that by auto
qed

section \<open>The exactly full buffer\<close>

definition rb_full :: "RingBuffer \<Rightarrow> bool" where
  "rb_full rb \<longleftrightarrow> length (rb_buffer rb) = rb_size rb \<and> rb_size rb \<le> PTRDIFF_MAX \<and>
     readPtr rb < rb_size rb \<and> freeSize rb = 0"

lemma rb_full_content:
  "rb_full rb \<Longrightarrow> rb_content rb = drop (readPtr rb) (rb_buffer rb) @ take (readPtr rb) (rb_buffer rb)"
  by (simp add: rb_full_def rb_content_def rb_used_def)

lemma peek_bytes_full: "rb_full rb \<Longrightarrow> ringbuffer_peek_bytes n rb = Some (take n (rb_content rb))"
  using peek_block [of rb n] by (auto simp: rb_full_def ringbuffer_peek_bytes_def those_map_Some)

lemma fill_spec:
  assumes "rb_inv rb" "length bs = freeSize rb" "writePtr rb + length bs \<le> rb_size rb"
  obtains b where "mem_write (rb_buffer rb) (writePtr rb) bs = Some b" "length b = rb_size rb"
    "ringbuffer_commit_written_bytes (length bs) (rb\<lparr>rb_buffer := b\<rparr>) =
      Done () (rb\<lparr>rb_buffer := b, writePtr := readPtr rb, freeSize := 0\<rparr>)"
    "rb_content rb @ bs = drop (readPtr rb) b @ take (readPtr rb) b"
proof -
  note inv = rb_invD [OF assms(1)]
  let ?b = "take (writePtr rb) (rb_buffer rb) @ bs @ drop (writePtr rb + length bs) (rb_buffer rb)"
  have pos: "writePtr rb + length bs = (if readPtr rb = 0 then rb_size rb else readPtr rb)"
    "readPtr rb = 0 \<longleftrightarrow> readPtr rb \<le> writePtr rb"
    using assms by (auto simp: rb_inv_def rb_used_def split: if_splits)
  have "size_add (writePtr rb) (length bs) = writePtr rb + length bs"
    using assms(2,3) inv by (simp add: size_small)
  moreover have "size_sub (freeSize rb) (length bs) = 0" "0 < length bs"
    using assms(1,2) inv(2,5) by (simp_all add: size_small rb_inv_def)
  ultimately have commit: "ringbuffer_commit_written_bytes (length bs) (rb\<lparr>rb_buffer := ?b\<rparr>) =
      Done () (rb\<lparr>rb_buffer := ?b, writePtr := readPtr rb, freeSize := 0\<rparr>)"
    using assms(3) pos(1) inv(6) by (simp add: ringbuffer_commit_written_bytes_def)
  have content: "rb_content rb @ bs = drop (readPtr rb) ?b @ take (readPtr rb) ?b"
  proof (cases "readPtr rb = 0")
    case True
    then show ?thesis using rb_linear [OF assms(1)] pos inv(1) by simp
  next
    case False
    then show ?thesis using rb_wrapped(2) [OF assms(1)] pos inv(1,6) by simp
  qed
  show thesis
    by (rule that [OF _ _ commit content]) (use assms(3) inv(1) in \<open>simp_all add: mem_write_def\<close>)
qed

lemma full_write:
  assumes "rb_full rb" "writePtr rb = readPtr rb" "xs \<noteq> []" "length xs \<le> PTRDIFF_MAX"
  shows "ringbuffer_write A xs rb = Fail rb \<or>
    (\<exists>fresh r. length fresh = length xs \<and> ringbuffer_write A xs rb = Done () r \<and>
      (\<forall>n. ringbuffer_peek_bytes n r = Some (take n (xs @ drop (length xs) (rb_buffer rb @ fresh)))))"
proof (cases "c_realloc A (rb_buffer rb) (rb_size rb + length xs)")
  case None
  then show ?thesis
    using assms by (simp add: ringbuffer_write_def ringbuffer_realloc_def rb_full_def size_small Let_def)
next
  case (Some d)
  note full = assms(1) [unfolded rb_full_def]
  have d: "length d = rb_size rb + length xs" "rb_size rb + length xs \<le> PTRDIFF_MAX"
    "take (rb_size rb) d = rb_buffer rb"
    using c_realloc_length [OF Some] c_realloc_take [OF Some, of "rb_size rb"] full by simp_all
  then have fresh: "d = rb_buffer rb @ drop (rb_size rb) d" "length (drop (rb_size rb) d) = length xs"
    using append_take_drop_id [of "rb_size rb" d] by simp_all
  let ?r = "rb\<lparr>rb_buffer := xs @ drop (length xs) d, rb_size := rb_size rb + length xs, readPtr := 0,
    writePtr := length xs, freeSize := 0\<rparr>"
  have size: "size_add 0 (size_sub (rb_size rb + length xs) (rb_size rb)) = length xs"
    "size_add (rb_size rb) (length xs) = rb_size rb + length xs"
    "size_sub (rb_size rb + length xs) 0 = rb_size rb + length xs" "size_sub (length xs) (length xs) = 0"
    "size_add 0 (length xs) = length xs"
    using d(2) full assms(4) by (simp_all add: size_small)
  have "ringbuffer_write A xs rb = Done () ?r"
    using Some assms(2,3) full d(1) size
    by (simp add: ringbuffer_write_def ringbuffer_realloc_def rb_resized_def Let_def mem_write_def)
  moreover have r: "rb_full ?r" using d full assms(3) by (simp add: rb_full_def)
  moreover have "rb_content ?r = xs @ drop (length xs) (rb_buffer rb @ drop (rb_size rb) d)"
    using rb_full_content [OF r] fresh(1) by simp
  ultimately show ?thesis using peek_bytes_full [OF r] fresh(2) by metis
qed

section \<open>Properties\<close>

text \<open>C4. The ring buffer is a byte queue. From a ring buffer that is not exactly full, whatever the
  allocator does, any sequence of writes and of reads (a peek followed by committing what was seen)
  runs without an abort: no copy leaves its block through any number of wrap-arounds, growths and
  shrinks. The bytes held at the start followed by the bytes of the accepted writes are exactly the
  bytes read followed by the bytes still held, in order, and the buffer stays well formed.\<close>

theorem ringbuffer_fifo:
  assumes "rb_inv rb" "pushes_below PTRDIFF_MAX ops"
  shows "\<exists>inp out r. fifo_run (ringbuffer_write A) ringbuffer_peek_bytes (ringbuffer_commit_read_bytes A) ops rb
      = Some (inp, out, r) \<and> rb_inv r \<and> rb_content rb @ inp = out @ rb_content r"
  by (rule ringq.fifo_order [OF assms])

theorem ringbuffer_fifo_witness:
  "\<exists>inp out r. fifo_run (ringbuffer_write plain_allocator) ringbuffer_peek_bytes
      (ringbuffer_commit_read_bytes plain_allocator) [Push [1, 2, 3], Pull 2, Push [4, 5, 6, 7], Pull 9]
      \<lparr>initialSize = 4, freeSize = 4, rb_size = 4, readPtr = 0, writePtr = 0, rb_buffer = [0, 0, 0, 0]\<rparr>
      = Some (inp, out, r) \<and> rb_inv r \<and> inp = out @ rb_content r"
proof -
  let ?rb = "\<lparr>initialSize = 4, freeSize = 4, rb_size = 4, readPtr = 0, writePtr = 0,
    rb_buffer = [0, 0, 0, 0]\<rparr>"
  have "rb_inv ?rb" "pushes_below PTRDIFF_MAX [Push [1, 2, 3], Pull 2, Push [4, 5, 6, 7], Pull 9]"
    "rb_content ?rb = []"
    by (simp_all add: rb_inv_def rb_used_def PTRDIFF_MAX_def pushes_below_def rb_content_def)
  with ringbuffer_fifo [of ?rb _ plain_allocator] show ?thesis by fastforce
qed

text \<open>C29. A linear write appends. Asking for \<open>sz\<close> contiguous bytes either fails and changes nothing
  or keeps the content and returns the write offset, with \<open>sz\<close> bytes of the block free behind it.
  Filling in a block of at most \<open>sz\<close> bytes there and committing it appends it to the content,
  provided one byte of the buffer is left free.\<close>

theorem ringbuffer_linear_write:
  assumes "rb_inv rb" "sz + 32 \<le> PTRDIFF_MAX" "length bs \<le> sz"
  shows "ringbuffer_ensure_linear_write A sz rb = Fail rb \<or>
    (\<exists>r. ringbuffer_ensure_linear_write A sz rb = Done (writePtr r) r \<and> rb_inv r \<and>
      rb_content r = rb_content rb \<and> sz \<le> freeSize r \<and>
      (length bs < freeSize r \<longrightarrow>
        (\<exists>b r'. mem_write (rb_buffer r) (writePtr r) bs = Some b \<and>
          ringbuffer_commit_written_bytes (length bs) (r\<lparr>rb_buffer := b\<rparr>) = Done () r' \<and>
          rb_inv r' \<and> rb_content r' = rb_content rb @ bs)))"
proof -
  have "\<exists>b r'. mem_write (rb_buffer r) (writePtr r) bs = Some b \<and>
      ringbuffer_commit_written_bytes (length bs) (r\<lparr>rb_buffer := b\<rparr>) = Done () r' \<and>
      rb_inv r' \<and> rb_content r' = rb_content rb @ bs"
    if "rb_inv r" "length bs < freeSize r" "writePtr r + sz \<le> rb_size r" "rb_content r = rb_content rb" for r
  proof -
    have "writePtr r + length bs \<le> rb_size r" using that(3) assms(3) by simp
    from commit_written_spec [OF that(1,2) this] show ?thesis unfolding that(4) by blast
  qed
  then show ?thesis
    using ensure_linear_spec [OF assms(1,2), of A] by (elim disjE exE conjE) auto
qed

theorem ringbuffer_linear_write_witness:
  "\<exists>r b r'. ringbuffer_ensure_linear_write plain_allocator 2
        \<lparr>initialSize = 4, freeSize = 4, rb_size = 4, readPtr = 3, writePtr = 3, rb_buffer = [0, 0, 0, 0]\<rparr>
        = Done (writePtr r) r \<and>
      mem_write (rb_buffer r) (writePtr r) [7, 8] = Some b \<and>
      ringbuffer_commit_written_bytes 2 (r\<lparr>rb_buffer := b\<rparr>) = Done () r' \<and> rb_content r' = [7, 8]"
proof -
  let ?rb = "\<lparr>initialSize = 4, freeSize = 4, rb_size = 4, readPtr = 3, writePtr = 3,
    rb_buffer = [0, 0, 0, 0]\<rparr>"
  let ?r = "?rb\<lparr>readPtr := 0, writePtr := 0\<rparr>"
  have rb: "rb_inv ?rb" "(2 :: nat) + 32 \<le> PTRDIFF_MAX" "length [7, 8 :: byte] \<le> 2" "rb_content ?rb = []"
    by (simp_all add: rb_inv_def rb_used_def PTRDIFF_MAX_def rb_content_def)
  have run: "ringbuffer_ensure_linear_write plain_allocator 2 ?rb = Done 0 ?r"
    by (simp add: ringbuffer_ensure_linear_write_def size_add_def Let_def)
  from ringbuffer_linear_write [OF rb(1-3), of plain_allocator]
  obtain b r' where "mem_write (rb_buffer ?r) (writePtr ?r) [7, 8] = Some b"
    "ringbuffer_commit_written_bytes 2 (?r\<lparr>rb_buffer := b\<rparr>) = Done () r'" "rb_content r' = [7, 8]"
    unfolding run rb(4) by (auto simp: numeral_2_eq_2)
  then show ?thesis unfolding run by (intro exI [of _ ?r] exI [of _ b] exI [of _ r']) simp
qed

text \<open>C38. An exactly full buffer is taken for an empty one. In every buffer that is not exactly full
  and whose free bytes lie in one piece behind \<open>writePtr\<close>, \<open>ringbuffer_commit_written_bytes\<close> accepts a
  commit of all of them. Both heads are then equal, and the bytes held are still read in order: they
  are the block \<open>b\<close>, read from \<open>readPtr\<close> round to \<open>readPtr\<close>. But the next \<open>ringbuffer_write\<close> grows the
  block as if nothing was stored. It fails for want of memory, or it reports success and the queue
  starts with the bytes just written, which lie over as many bytes from the start of the block; the
  rest of the block and as many bytes of fresh memory follow, in place of the bytes held before,
  followed by the bytes just written.\<close>

theorem ringbuffer_full_overwritten:
  assumes "rb_inv rb" "length bs = freeSize rb" "writePtr rb + length bs \<le> rb_size rb"
    "xs \<noteq> []" "length xs \<le> PTRDIFF_MAX"
  shows "\<exists>b full. mem_write (rb_buffer rb) (writePtr rb) bs = Some b \<and>
    ringbuffer_commit_written_bytes (length bs) (rb\<lparr>rb_buffer := b\<rparr>) = Done () full \<and>
    writePtr full = readPtr full \<and>
    (\<forall>n. ringbuffer_peek_bytes n full = Some (take n (rb_content rb @ bs))) \<and>
    rb_content rb @ bs = drop (readPtr rb) b @ take (readPtr rb) b \<and>
    (ringbuffer_write A xs full = Fail full \<or>
      (\<exists>fresh r. length fresh = length xs \<and> ringbuffer_write A xs full = Done () r \<and>
        (\<forall>n. ringbuffer_peek_bytes n r = Some (take n (xs @ drop (length xs) (b @ fresh))))))"
proof -
  obtain b where b: "mem_write (rb_buffer rb) (writePtr rb) bs = Some b" "length b = rb_size rb"
    "ringbuffer_commit_written_bytes (length bs) (rb\<lparr>rb_buffer := b\<rparr>) =
      Done () (rb\<lparr>rb_buffer := b, writePtr := readPtr rb, freeSize := 0\<rparr>)"
    "rb_content rb @ bs = drop (readPtr rb) b @ take (readPtr rb) b"
    using fill_spec [OF assms(1-3)] by blast
  let ?full = "rb\<lparr>rb_buffer := b, writePtr := readPtr rb, freeSize := 0\<rparr>"
  note inv = rb_invD [OF assms(1)]
  have full: "rb_full ?full" using b(2) inv by (simp add: rb_full_def)
  have "rb_content ?full = rb_content rb @ bs" using rb_full_content [OF full] b(4) by simp
  then have "\<forall>n. ringbuffer_peek_bytes n ?full = Some (take n (rb_content rb @ bs))"
    using peek_bytes_full [OF full] by simp
  moreover note full_write [OF full _ assms(4,5), of A]
  ultimately show ?thesis
    using b by (intro exI [of _ b] exI [of _ ?full]) simp
qed

theorem ringbuffer_full_overwritten_witness:
  "\<exists>full r fresh. ringbuffer_commit_written_bytes 2
      \<lparr>initialSize = 2, freeSize = 2, rb_size = 2, readPtr = 0, writePtr = 0, rb_buffer = [1, 2]\<rparr> = Done () full \<and>
     ringbuffer_peek_bytes 2 full = Some [1, 2] \<and>
     ringbuffer_write plain_allocator [9] full = Done () r \<and>
     ringbuffer_peek_bytes 3 r = Some [9, 2, fresh]"
proof -
  let ?rb = "\<lparr>initialSize = 2, freeSize = 2, rb_size = 2, readPtr = 0, writePtr = 0, rb_buffer = [1, 2]\<rparr>"
  let ?full = "?rb\<lparr>freeSize := 0\<rparr>"
  have rb: "rb_inv ?rb" "length [1, 2 :: byte] = freeSize ?rb" "writePtr ?rb + length [1, 2 :: byte] \<le> rb_size ?rb"
    "[9 :: byte] \<noteq> []" "length [9 :: byte] \<le> PTRDIFF_MAX" "rb_content ?rb = []"
    by (simp_all add: rb_inv_def rb_used_def rb_content_def PTRDIFF_MAX_def)
  have w: "mem_write (rb_buffer ?rb) (writePtr ?rb) [1, 2] = Some [1, 2]"
    "ringbuffer_commit_written_bytes 2 ?rb = Done () ?full"
    by (simp_all add: mem_write_def ringbuffer_commit_written_bytes_def size_add_def size_sub_def)
  have run: "ringbuffer_write plain_allocator [9] ?full \<noteq> Fail ?full"
    by (simp add: ringbuffer_write_def ringbuffer_realloc_def rb_resized_def c_realloc_def plain_allocator_def
        PTRDIFF_MAX_def size_add_def size_sub_def Let_def mem_write_def upt_rec)
  from ringbuffer_full_overwritten [OF rb(1-5), of plain_allocator] w run rb(6)
  obtain fresh r where "length fresh = 1" "ringbuffer_peek_bytes 2 ?full = Some [1, 2]"
    "ringbuffer_write plain_allocator [9] ?full = Done () r" "ringbuffer_peek_bytes 3 r = Some (take 3 ([9, 2] @ fresh))"
    by (auto simp: numeral_2_eq_2)
  moreover then obtain f where "fresh = [f]" by (cases fresh) auto
  ultimately show ?thesis
    using w(2) by (intro exI [of _ ?full] exI [of _ r] exI [of _ f]) simp
qed

end
