(* ===== verification/Collections.thy ===== *)
theory Collections
  imports Prelude
begin

text \<open>
  What the object collections of \<open>winpr/libwinpr/utils/collections\<close> share. An object is a pointer, a
  64-bit word with 0 for the null pointer. A collection is configured with the three functions of a
  \<open>wObject\<close>: one that copies an object on entry, if set, one that releases it, and one that compares
  two objects; they are the application's, and what the release function was called on is recorded.
  Arrays of pointers come from the allocator of the prelude, eight bytes each. The locks are not
  modelled: each operation runs alone.
\<close>

type_synonym ptr = u64

record wObject =
  fnObjectNew :: "(ptr \<Rightarrow> ptr) option"
  fnObjectFree :: bool
  fnObjectEquals :: "ptr \<Rightarrow> ptr \<Rightarrow> bool"

definition default_object :: wObject where
  "default_object = \<lparr>fnObjectNew = None, fnObjectFree = False, fnObjectEquals = (=)\<rparr>"

definition new_object :: "wObject \<Rightarrow> ptr \<Rightarrow> ptr" where
  "new_object ob p = (case fnObjectNew ob of None \<Rightarrow> p | Some f \<Rightarrow> f p)"

definition free_object :: "wObject \<Rightarrow> ptr \<Rightarrow> ptr list" where
  "free_object ob p = (if fnObjectFree ob then [p] else [])"

text \<open>An access outside a block aborts.\<close>

definition run_mem :: "'m option \<Rightarrow> ('m \<Rightarrow> ('a, 's) outcome) \<Rightarrow> ('a, 's) outcome" where
  "run_mem m f = (case m of None \<Rightarrow> Abort | Some x \<Rightarrow> f x)"

lemma run_mem_simps [simp]: "run_mem None f = Abort" "run_mem (Some x) f = f x"
  by (simp_all add: run_mem_def)

definition array_get :: "'a list \<Rightarrow> nat \<Rightarrow> 'a option" where
  "array_get xs i = (if i < length xs then Some (xs ! i) else None)"

definition array_set :: "'a list \<Rightarrow> nat \<Rightarrow> 'a \<Rightarrow> 'a list option" where
  "array_set xs i x = (if i < length xs then Some (xs[i := x]) else None)"

lemma array_simps [simp]:
  "i < length xs \<Longrightarrow> array_get xs i = Some (xs ! i)"
  "i < length xs \<Longrightarrow> array_set xs i x = Some (xs[i := x])"
  by (simp_all add: array_get_def array_set_def)

text \<open>A fresh slot of a pointer array holds the eight bytes that happen to be there.\<close>

definition junk_ptr :: "allocator \<Rightarrow> nat \<Rightarrow> nat \<Rightarrow> ptr" where
  "junk_ptr A bytes i = of_nat (horner_sum unat 256 (map (\<lambda>j. junk A bytes (8 * i + j)) [0..<8]))"

definition realloc_array :: "allocator \<Rightarrow> ptr list \<Rightarrow> nat \<Rightarrow> ptr list option" where
  "realloc_array A xs bytes =
     (if alloc_ok A bytes \<and> bytes \<le> PTRDIFF_MAX
      then Some (take (bytes div 8) xs @ map (junk_ptr A bytes) [length xs..<bytes div 8])
      else None)"

definition calloc_array :: "allocator \<Rightarrow> nat \<Rightarrow> ptr list option" where
  "calloc_array A n =
     (if alloc_ok A (8 * n) \<and> 8 * n \<le> PTRDIFF_MAX then Some (replicate n 0) else None)"

lemma realloc_array_Some:
  assumes "realloc_array A xs (8 * n) = Some ys" "length xs \<le> n"
  shows "length ys = n" "take (length xs) ys = xs" "8 * n \<le> PTRDIFF_MAX"
  using assms by (auto simp: realloc_array_def split: if_splits)

lemma calloc_array_Some:
  "calloc_array A n = Some xs \<Longrightarrow> xs = replicate n 0 \<and> 8 * n \<le> PTRDIFF_MAX"
  by (auto simp: calloc_array_def split: if_splits)

text \<open>A loop over \<open>n\<close> slots from slot \<open>i\<close> that stops at the first match.\<close>

fun first_slot :: "(ptr \<Rightarrow> bool) \<Rightarrow> ptr list \<Rightarrow> nat \<Rightarrow> nat \<Rightarrow> nat option option" where
  "first_slot P a i 0 = Some None"
| "first_slot P a i (Suc n) =
     (case array_get a i of
        None \<Rightarrow> None
      | Some x \<Rightarrow> if P x then Some (Some i) else first_slot P a (i + 1) n)"

fun first_match :: "('a \<Rightarrow> bool) \<Rightarrow> 'a list \<Rightarrow> nat option" where
  "first_match P [] = None"
| "first_match P (x # xs) = (if P x then Some 0 else map_option Suc (first_match P xs))"

lemma first_slot_inside:
  "i + n \<le> length a \<Longrightarrow> first_slot P a i n = Some (map_option ((+) i) (first_match P (take n (drop i a))))"
proof (induction n arbitrary: i)
  case (Suc n)
  then have "take (Suc n) (drop i a) = a ! i # take n (drop (i + 1) a)"
    by (simp add: Cons_nth_drop_Suc [symmetric])
  then show ?case using Suc by (simp add: option.map_comp o_def)
qed simp

lemma first_slot_all:
  "n \<le> length a \<Longrightarrow> first_slot P a 0 n = Some (first_match P (take n a))"
  by (cases "first_match P (take n a)") (simp_all add: first_slot_inside)

lemma first_match_None: "first_match P xs = None \<longleftrightarrow> (\<forall>x\<in>set xs. \<not> P x)"
  by (induction xs) auto

lemma first_match_Some: "first_match P xs = Some i \<Longrightarrow> i < length xs \<and> P (xs ! i) \<and> (\<forall>j<i. \<not> P (xs ! j))"
  by (induction xs arbitrary: i) (auto simp: less_Suc_eq_0_disj split: if_splits)

section \<open>Simulation of an abstract container\<close>

text \<open>
  A run of operations on a collection and their results, and the same results checked against an
  abstract container: \<open>spec p r a\<close> is the container after operation \<open>p\<close> has answered \<open>r\<close>, if that is
  an answer the container may give.
\<close>

fun run_ops :: "('p \<Rightarrow> 's \<Rightarrow> ('r, 's) outcome) \<Rightarrow> 'p list \<Rightarrow> 's \<Rightarrow> ('r list \<times> 's) option" where
  "run_ops step [] s = Some ([], s)"
| "run_ops step (p # ps) s =
     (case step p s of
        Done r t \<Rightarrow> map_option (apfst ((#) r)) (run_ops step ps t)
      | _ \<Rightarrow> None)"

fun spec_ops :: "('p \<Rightarrow> 'r \<Rightarrow> 'a \<Rightarrow> 'a option) \<Rightarrow> 'p list \<Rightarrow> 'r list \<Rightarrow> 'a \<Rightarrow> 'a option" where
  "spec_ops spec [] [] a = Some a"
| "spec_ops spec (p # ps) (r # rs) a = Option.bind (spec p r a) (spec_ops spec ps rs)"
| "spec_ops spec _ _ a = None"

locale simulation =
  fixes inv :: "'s \<Rightarrow> bool"
    and abs :: "'s \<Rightarrow> 'a"
    and step :: "'p \<Rightarrow> 's \<Rightarrow> ('r, 's) outcome"
    and spec :: "'p \<Rightarrow> 'r \<Rightarrow> 'a \<Rightarrow> 'a option"
  assumes step_law: "inv s \<Longrightarrow> \<exists>r t. step p s = Done r t \<and> inv t \<and> spec p r (abs s) = Some (abs t)"
begin

lemma simulated:
  "inv s \<Longrightarrow> \<exists>rs t. run_ops step ps s = Some (rs, t) \<and> inv t \<and> spec_ops spec ps rs (abs s) = Some (abs t)"
proof (induction ps arbitrary: s)
  case (Cons p ps)
  obtain r t where t: "step p s = Done r t" "inv t" "spec p r (abs s) = Some (abs t)"
    using step_law [OF Cons.prems] by blast
  obtain rs u where "run_ops step ps t = Some (rs, u)" "inv u" "spec_ops spec ps rs (abs t) = Some (abs u)"
    using Cons.IH [OF t(2)] by blast
  then show ?case using t by (intro exI [of _ "r # rs"] exI [of _ u]) simp
qed simp

end

text \<open>The answers of the operations of a collection; a refused operation has failed.\<close>

datatype answer = Result bool | Object ptr | Number nat

fun result_of :: "(unit, 's) outcome \<Rightarrow> (answer, 's) outcome" where
  "result_of Abort = Abort"
| "result_of (Fail s) = Done (Result False) s"
| "result_of (Done _ s) = Done (Result True) s"

end
