(* ===== verification/Object_Queue.thy ===== *)
theory Object_Queue
  imports Collections
begin

text \<open>
  The object queue of \<open>winpr/libwinpr/utils/collections/Queue.c\<close>: a growing circular array. The
  theory shows that enqueue, dequeue and peek are those of a list, through wrap-around and growth,
  and where \<open>Queue_Enqueue\<close>, \<open>Queue_Clear\<close> and \<open>Queue_Contains\<close> depart from what they mean to do.
\<close>

section \<open>State and operations\<close>

record wQueue =
  q_capacity :: nat
  q_growthFactor :: nat
  q_head :: nat
  q_tail :: nat
  q_size :: nat
  q_array :: "ptr list"
  q_event :: bool
  q_object :: wObject
  q_freed :: "ptr list"

definition Queue_Count :: "wQueue \<Rightarrow> nat" where
  "Queue_Count q = q_size q"

definition Queue_Capacity :: "wQueue \<Rightarrow> nat" where
  "Queue_Capacity q = q_capacity q"

text \<open>The growth moves the wrapped entries behind the old end, as many as there is room for.\<close>

definition Queue_rearrange :: "nat \<Rightarrow> nat \<Rightarrow> wQueue \<Rightarrow> (unit, wQueue) outcome" where
  "Queue_rearrange old_capacity new_capacity q =
     (if q_tail q \<le> q_head q then
        let tocopy = q_tail q;
            slots = new_capacity - old_capacity;
            batch = (if tocopy < slots then tocopy else slots)
        in
        run_mem (mem_read (q_array q) 0 batch) (\<lambda>d.
        run_mem (mem_write (q_array q) old_capacity d) (\<lambda>a.
          if tocopy < slots then
            run_mem (mem_write a 0 (replicate batch 0)) (\<lambda>a.
              Done () (q\<lparr>q_array := a, q_tail := size_add (q_tail q) old_capacity\<rparr>))
          else
            let remain = q_tail q - batch in
            run_mem (mem_read a batch remain) (\<lambda>d.
            run_mem (mem_write a 0 d) (\<lambda>a.
            run_mem (mem_write a remain (replicate (q_tail q - remain) 0)) (\<lambda>a.
              Done () (q\<lparr>q_array := a, q_tail := q_tail q - batch\<rparr>))))))
      else Done () q)"

definition Queue_EnsureCapacity :: "allocator \<Rightarrow> nat \<Rightarrow> wQueue \<Rightarrow> (unit, wQueue) outcome" where
  "Queue_EnsureCapacity A count q =
     (if q_growthFactor q > SIZE_MAX div 32 then Fail q
      else
        let increment = 32 * q_growthFactor q in
        if q_size q > SIZE_MAX - count then Fail q
        else
          let required = size_add (q_size q) count in
          if required > q_capacity q then
            let old_capacity = q_capacity q in
            if required > SIZE_MAX - increment then Fail q
            else if increment = 0 then Abort
            else
              let new_capacity = required + increment - required mod increment in
              if new_capacity > SIZE_MAX div 8 then Fail q
              else
                (case realloc_array A (q_array q) (8 * new_capacity) of
                   None \<Rightarrow> Fail q
                 | Some newArray \<Rightarrow>
                     run_mem (mem_write newArray old_capacity (replicate (new_capacity - old_capacity) 0)) (\<lambda>a.
                       Queue_rearrange old_capacity new_capacity
                         (q\<lparr>q_capacity := new_capacity, q_array := a\<rparr>)))
          else Done () q)"

text \<open>The result is \<open>TRUE\<close> on every path, also when there was no room.\<close>

definition Queue_Enqueue :: "allocator \<Rightarrow> ptr \<Rightarrow> wQueue \<Rightarrow> (bool, wQueue) outcome" where
  "Queue_Enqueue A obj q =
     (case Queue_EnsureCapacity A 1 q of
        Abort \<Rightarrow> Abort
      | Fail q \<Rightarrow> Done True q
      | Done _ q \<Rightarrow>
          run_mem (array_set (q_array q) (q_tail q) (new_object (q_object q) obj)) (\<lambda>a.
            if q_capacity q = 0 then Abort
            else
              Done True (q\<lparr>q_array := a, q_tail := size_add (q_tail q) 1 mod q_capacity q,
                q_size := size_add (q_size q) 1, q_event := (if q_size q = 0 then True else q_event q)\<rparr>)))"

definition Queue_Dequeue :: "wQueue \<Rightarrow> (ptr, wQueue) outcome" where
  "Queue_Dequeue q =
     run_bind
       (if q_size q > 0 then
          run_mem (array_get (q_array q) (q_head q)) (\<lambda>obj.
          run_mem (array_set (q_array q) (q_head q) 0) (\<lambda>a.
            if q_capacity q = 0 then Abort
            else Done obj (q\<lparr>q_array := a, q_head := size_add (q_head q) 1 mod q_capacity q,
                   q_size := q_size q - 1\<rparr>)))
        else Done 0 q)
       (\<lambda>obj q. Done obj (if q_size q < 1 then q\<lparr>q_event := False\<rparr> else q))"

definition Queue_Peek :: "wQueue \<Rightarrow> (ptr, wQueue) outcome" where
  "Queue_Peek q =
     (if q_size q > 0 then run_mem (array_get (q_array q) (q_head q)) (\<lambda>obj. Done obj q)
      else Done 0 q)"

definition Queue_Discard :: "wQueue \<Rightarrow> (unit, wQueue) outcome" where
  "Queue_Discard q =
     run_bind (Queue_Dequeue q) (\<lambda>obj q.
       Done () (q\<lparr>q_freed := q_freed q @ free_object (q_object q) obj\<rparr>))"

text \<open>The loop of \<open>Queue_Clear\<close>; it need not end on a malformed queue.\<close>

partial_function (option) Queue_Clear_loop :: "nat \<Rightarrow> wQueue \<Rightarrow> (unit, wQueue) outcome option" where
  "Queue_Clear_loop index q =
     (if index = q_tail q then Some (Done () q)
      else if index \<ge> length (q_array q) then Some Abort
      else
        Queue_Clear_loop (size_add index 1 mod q_capacity q)
          (q\<lparr>q_array := (q_array q)[index := 0],
             q_freed := q_freed q @ free_object (q_object q) (q_array q ! index)\<rparr>))"

definition Queue_Clear :: "wQueue \<Rightarrow> (unit, wQueue) outcome option" where
  "Queue_Clear q =
     map_option (\<lambda>r. run_bind r (\<lambda>_ q.
         Done () (q\<lparr>q_size := 0, q_head := 0, q_tail := 0, q_event := False\<rparr>)))
       (Queue_Clear_loop (q_head q) q)"

text \<open>The comparison runs over the slots below the tail.\<close>

definition Queue_Contains :: "wQueue \<Rightarrow> ptr \<Rightarrow> (bool, wQueue) outcome" where
  "Queue_Contains q obj =
     (if list_ex (\<lambda>x. fnObjectEquals (q_object q) x obj) (take (q_tail q) (q_array q)) then Done True q
      else if q_tail q > length (q_array q) then Abort
      else Done False q)"

text \<open>The structure, the lock and the event can be created where \<open>ok\<close> holds.\<close>

definition Queue_New :: "allocator \<Rightarrow> bool \<Rightarrow> int \<Rightarrow> int \<Rightarrow> wQueue option" where
  "Queue_New A ok cap growth =
     (if \<not> ok then None
      else
        case Queue_EnsureCapacity A (if cap \<le> 0 then 32 else nat cap)
               \<lparr>q_capacity = 0, q_growthFactor = (if growth > 0 then nat growth else 2), q_head = 0, q_tail = 0,
                q_size = 0, q_array = [], q_event = False, q_object = default_object, q_freed = []\<rparr> of
          Done _ q \<Rightarrow> Some q
        | _ \<Rightarrow> None)"

text \<open>What the queue's release function has been called on when the queue is gone.\<close>

definition Queue_Free :: "wQueue \<Rightarrow> (ptr list, wQueue) outcome option" where
  "Queue_Free q = map_option (\<lambda>r. run_bind r (\<lambda>_ q. Done (q_freed q) q)) (Queue_Clear q)"

section \<open>The queue as a list\<close>

definition q_inv :: "wQueue \<Rightarrow> bool" where
  "q_inv q \<longleftrightarrow> 0 < q_capacity q \<and> length (q_array q) = q_capacity q \<and> 8 * q_capacity q \<le> PTRDIFF_MAX \<and>
     q_head q < q_capacity q \<and> q_size q \<le> q_capacity q \<and>
     q_tail q = ring_pos (q_capacity q) (q_head q) (q_size q) \<and> 0 < q_growthFactor q \<and>
     q_growthFactor q \<le> SIZE_MAX div 32"

definition q_content :: "wQueue \<Rightarrow> ptr list" where
  "q_content q = take (q_size q) (drop (q_head q) (q_array q @ q_array q))"

lemma q_invD:
  assumes "q_inv q"
  shows "0 < q_capacity q" "length (q_array q) = q_capacity q" "8 * q_capacity q \<le> PTRDIFF_MAX"
    "q_head q < q_capacity q" "q_size q \<le> q_capacity q" "q_tail q < q_capacity q" "0 < q_growthFactor q"
    "q_tail q = ring_pos (q_capacity q) (q_head q) (q_size q)" "q_capacity q < 2 ^ 60" "q_growthFactor q \<le> SIZE_MAX div 32"
  using assms by (auto simp: q_inv_def ring_pos_def PTRDIFF_MAX_def)

lemma length_q_content [simp]: "q_inv q \<Longrightarrow> length (q_content q) = q_size q"
  using q_invD [of q] by (simp add: q_content_def)

lemma size_add_small: "a < 2 ^ 63 \<Longrightarrow> b < 2 ^ 63 \<Longrightarrow> size_add a b = a + b"
  by (simp add: size_add_def)

lemma rearrange_full:
  assumes "length arr = n" "r < n" "n < m" "m < 2 ^ 60" "q_array q = arr @ replicate (m - n) 0"
    "q_head q = r" "q_tail q = r"
  shows "\<exists>b t. Queue_rearrange n m q = Done () (q\<lparr>q_array := b, q_tail := t\<rparr>) \<and> length b = m \<and>
    t = ring_pos m r n \<and> take n (drop r (b @ b)) = drop r arr @ take r arr"
proof (cases "r < m - n")
  case True
  let ?b = "replicate r 0 @ drop r arr @ take r arr @ replicate (m - n - r) 0"
  have "Queue_rearrange n m q = Done () (q\<lparr>q_array := ?b, q_tail := r + n\<rparr>)"
    using assms True
    by (simp add: Queue_rearrange_def Let_def mem_read_def mem_write_def size_add_small)
  moreover have "length ?b = m" using assms True by simp
  moreover have "r + n = ring_pos m r n" using True assms(3) by (simp add: ring_pos_def)
  moreover have "take n (drop r (?b @ ?b)) = drop r arr @ take r arr" using assms True by simp
  ultimately show ?thesis by blast
next
  case False
  define k where "k = m - n"
  let ?b = "take (r - k) (drop k arr) @ replicate k 0 @ drop r arr @ take k arr"
  have k: "0 < k" "k \<le> r" "m = n + k" using assms False by (simp_all add: k_def)
  let ?d = "take (r - k) (drop k arr)"
  have mem: "mem_read (q_array q) 0 k = Some (take k arr)"
      "mem_write (q_array q) n (take k arr) = Some (arr @ take k arr)"
      "mem_read (arr @ take k arr) k (r - k) = Some ?d"
      "mem_write (arr @ take k arr) 0 ?d = Some (?d @ drop (r - k) arr @ take k arr)"
      "mem_write (?d @ drop (r - k) arr @ take k arr) (r - k) (replicate k 0) = Some ?b"
    using assms(1,2,5) k by (simp_all add: mem_read_def mem_write_def)
  have n: "\<not> r < k" "r - (r - k) = k" using k by simp_all
  have "Queue_rearrange n m q = Done () (q\<lparr>q_array := ?b, q_tail := r - k\<rparr>)"
    unfolding Queue_rearrange_def Let_def assms(6,7) k_def [symmetric]
    by (simp only: n mem run_mem_simps if_False if_True order_refl)
  moreover have "length ?b = m" using assms k by simp
  moreover have "r - k = ring_pos m r n" using k by (simp add: ring_pos_def)
  moreover have "take n (drop r (?b @ ?b)) = drop r arr @ take r arr"
  proof -
    have "take r arr = take k arr @ take (r - k) (drop k arr)"
      using k by (metis le_add_diff_inverse take_add)
    then show ?thesis using assms k by simp
  qed
  ultimately show ?thesis by blast
qed

lemma full_content:
  assumes "q_inv q" "q_size q = q_capacity q"
  shows "q_content q = drop (q_head q) (q_array q) @ take (q_head q) (q_array q)" "q_tail q = q_head q"
proof -
  note inv = q_invD [OF assms(1)]
  show "q_content q = drop (q_head q) (q_array q) @ take (q_head q) (q_array q)"
    using inv(2,4) by (simp add: q_content_def assms(2))
  show "q_tail q = q_head q" using inv(8) assms(2) by (simp add: ring_pos_def)
qed

text \<open>Growing by one slot or more keeps the content; a refusal changes nothing.\<close>

lemma ensure_one:
  assumes "q_inv q"
  shows "Queue_EnsureCapacity A 1 q = Fail q \<and> q_size q = q_capacity q \<or>
    (\<exists>q'. Queue_EnsureCapacity A 1 q = Done () q' \<and> q_inv q' \<and> q_content q' = q_content q \<and>
      q_size q' = q_size q \<and> q_size q < q_capacity q' \<and> q_object q' = q_object q \<and> q_freed q' = q_freed q \<and>
      q_event q' = q_event q)"
proof -
  note inv = q_invD [OF assms]
  let ?n = "q_capacity q" and ?r = "q_head q"
  have small: "q_size q < 2 ^ 60" using inv(5,9) by simp
  then have req: "\<not> q_size q > SIZE_MAX - 1" "size_add (q_size q) 1 = q_size q + 1" "\<not> q_growthFactor q > SIZE_MAX div 32"
    using inv(10) by (simp_all add: size_add_small SIZE_MAX_def)
  show ?thesis
  proof (cases "q_size q < ?n")
    case True
    then have "Queue_EnsureCapacity A 1 q = Done () q"
      using req by (simp add: Queue_EnsureCapacity_def Let_def)
    then show ?thesis using assms True by blast
  next
    case False
    then have full: "q_size q = ?n" using inv(5) by simp
    define inc where "inc = 32 * q_growthFactor q"
    define m where "m = ?n + 1 + inc - (?n + 1) mod inc"
    have inc: "0 < inc" using inv(7) by (simp add: inc_def)
    then have "(?n + 1) mod inc < inc" by simp
    then have m: "?n < m" by (simp add: m_def)
    have eq: "Queue_EnsureCapacity A 1 q =
        (if ?n + 1 > SIZE_MAX - inc then Fail q else if m > SIZE_MAX div 8 then Fail q
         else case realloc_array A (q_array q) (8 * m) of None \<Rightarrow> Fail q
           | Some a \<Rightarrow> run_mem (mem_write a ?n (replicate (m - ?n) 0)) (\<lambda>a.
               Queue_rearrange ?n m (q\<lparr>q_capacity := m, q_array := a\<rparr>)))"
    proof -
      have c: "\<not> ?n > SIZE_MAX - 1" "size_add ?n 1 = ?n + 1" "?n + 1 > ?n" "inc \<noteq> 0"
        using req(1,2) inc unfolding full by simp_all
      show ?thesis
        unfolding Queue_EnsureCapacity_def Let_def full c(2) inc_def [symmetric] m_def [symmetric]
          if_not_P [OF req(3)] if_not_P [OF c(1)] if_P [OF c(3)] if_not_P [OF c(4)] by (rule refl)
    qed
    show ?thesis
    proof (cases "?n + 1 > SIZE_MAX - inc \<or> m > SIZE_MAX div 8 \<or> realloc_array A (q_array q) (8 * m) = None")
      case True
      then show ?thesis using eq full by (auto split: if_splits)
    next
      case no: False
      then obtain a where a: "realloc_array A (q_array q) (8 * m) = Some a" by blast
      have len: "length a = m" "take ?n a = q_array q" "8 * m \<le> PTRDIFF_MAX"
        using realloc_array_Some [OF a] inv(2) m by simp_all
      have w: "mem_write a ?n (replicate (m - ?n) 0) = Some (q_array q @ replicate (m - ?n) 0)"
        using len m by (simp add: mem_write_def)
      let ?q = "q\<lparr>q_capacity := m, q_array := q_array q @ replicate (m - ?n) 0\<rparr>"
      have m60: "m < 2 ^ 60" using len(3) by (simp add: PTRDIFF_MAX_def)
      obtain b t where b: "Queue_rearrange ?n m ?q = Done () (?q\<lparr>q_array := b, q_tail := t\<rparr>)" "length b = m"
        "t = ring_pos m ?r ?n" "take ?n (drop ?r (b @ b)) = drop ?r (q_array q) @ take ?r (q_array q)"
        using rearrange_full [of "q_array q" ?n ?r m ?q] inv(2,4) m m60 full_content(2) [OF assms full] by auto
      have "Queue_EnsureCapacity A 1 q = Done () (?q\<lparr>q_array := b, q_tail := t\<rparr>)"
        using eq no a w b(1) by simp
      moreover have "q_inv (?q\<lparr>q_array := b, q_tail := t\<rparr>)"
        using inv m len(3) b(2,3) full by (simp add: q_inv_def)
      moreover have "q_content (?q\<lparr>q_array := b, q_tail := t\<rparr>) = q_content q"
        using b(4) full_content(1) [OF assms full] full by (simp add: q_content_def)
      ultimately show ?thesis using m full by auto
    qed
  qed
qed

lemma enqueue_spec:
  assumes "q_inv q"
  shows "Queue_Enqueue A obj q = Done True q \<and> Queue_EnsureCapacity A 1 q = Fail q \<and> q_size q = q_capacity q \<or>
    (\<exists>q'. Queue_Enqueue A obj q = Done True q' \<and> q_inv q' \<and> q_content q' = q_content q @ [new_object (q_object q) obj] \<and>
      q_object q' = q_object q \<and> q_freed q' = q_freed q \<and> q_event q' = (q_size q = 0 \<or> q_event q))"
proof (cases "Queue_EnsureCapacity A 1 q = Fail q \<and> q_size q = q_capacity q")
  case True
  then show ?thesis by (simp add: Queue_Enqueue_def)
next
  case False
  then obtain p where p: "Queue_EnsureCapacity A 1 q = Done () p" "q_inv p" "q_content p = q_content q"
      "q_size p = q_size q" "q_size q < q_capacity p" "q_object p = q_object q" "q_freed p = q_freed q" "q_event p = q_event q"
    using ensure_one [OF assms, of A] by blast
  note inv = q_invD [OF p(2)]
  let ?x = "new_object (q_object q) obj" and ?n = "q_capacity p" and ?h = "q_head p" and ?u = "q_size q"
  let ?a = "(q_array p)[q_tail p := ?x]"
  let ?q = "p\<lparr>q_array := ?a, q_tail := (q_tail p + 1) mod ?n, q_size := ?u + 1, q_event := (if ?u = 0 then True else q_event q)\<rparr>"
  have t: "q_tail p = ring_pos ?n ?h ?u" using inv(8) p(4) by simp
  have "Queue_Enqueue A obj q = Done True ?q"
    using p inv by (simp add: Queue_Enqueue_def size_add_small)
  moreover have "(q_tail p + 1) mod ?n = ring_pos ?n ?h (?u + 1)"
    using t inv(4) p(5) by (auto simp: ring_pos_def mod_if)
  then have "q_inv ?q" using inv p(5) by (simp add: q_inv_def)
  moreover have "q_content ?q = q_content q @ [?x]"
  proof -
    have "?a ! ring_pos ?n ?h i = q_array p ! ring_pos ?n ?h i" if "i < ?u" for i
      using that t p(5) inv(4) by (auto simp: ring_pos_def nth_list_update)
    moreover have "?a ! ring_pos ?n ?h (?u + i) = [?x] ! i" if "i < length [?x]" for i
      using that t inv(2,6) by simp
    ultimately have "take (?u + length [?x]) (drop ?h (?a @ ?a)) = take ?u (drop ?h (q_array p @ q_array p)) @ [?x]"
      using inv(2,4) p(5) by (intro ring_extend [where n = ?n]) simp_all
    then show ?thesis using p(3,4) by (simp add: q_content_def)
  qed
  ultimately show ?thesis using p(6,7) by auto
qed

lemma dequeue_spec:
  assumes "q_inv q"
  shows "q_content q = [] \<Longrightarrow> Queue_Dequeue q = Done 0 (q\<lparr>q_event := False\<rparr>)"
    and "q_content q = x # xs \<Longrightarrow> \<exists>q'. Queue_Dequeue q = Done x q' \<and> q_inv q' \<and> q_content q' = xs \<and>
      q_object q' = q_object q \<and> q_freed q' = q_freed q \<and> q_event q' = (q_event q \<and> xs \<noteq> [])"
proof -
  note inv = q_invD [OF assms]
  have len: "length (q_content q) = q_size q" using assms by simp
  show "q_content q = [] \<Longrightarrow> Queue_Dequeue q = Done 0 (q\<lparr>q_event := False\<rparr>)"
    using len by (simp add: Queue_Dequeue_def)
  assume c: "q_content q = x # xs"
  let ?n = "q_capacity q" and ?h = "q_head q" and ?u = "q_size q" and ?a = "(q_array q)[q_head q := 0]"
  let ?h' = "(?h + 1) mod ?n"
  have u: "?u = length xs + 1" using len c by simp
  have h': "?h' < ?n" "\<And>i. i < ?u - 1 \<Longrightarrow> ring_pos ?n ?h' i = ring_pos ?n ?h (i + 1)"
    using inv(1,4,5) by (auto simp: ring_pos_def mod_if)
  have x: "q_array q ! ?h = x"
    using ring_nth [OF inv(2,4,5), of 0] u inv(4) c by (simp add: q_content_def ring_pos_def)
  let ?q = "q\<lparr>q_array := ?a, q_head := ?h', q_size := ?u - 1\<rparr>"
  have run: "Queue_Dequeue q = Done x (if ?u - 1 < 1 then ?q\<lparr>q_event := False\<rparr> else ?q)"
    using u inv x by (simp add: Queue_Dequeue_def size_add_small)
  have "q_tail q = ring_pos ?n ?h' (?u - 1)"
    using inv(8) inv(1,4,5) u by (auto simp: ring_pos_def mod_if)
  then have i: "q_inv ?q" using inv h'(1) by (simp add: q_inv_def)
  have ring_len: "length (take m (drop k (?a @ ?a))) = m" if "k < ?n" "m \<le> ?n" for k m
    using inv(2) that by simp
  have "take (?u - 1) (drop ?h' (?a @ ?a)) = xs"
  proof (rule nth_equalityI)
    show "length (take (?u - 1) (drop ?h' (?a @ ?a))) = length xs"
      using ring_len [OF h'(1), of "?u - 1"] inv(5) u by simp
    fix j assume "j < length (take (?u - 1) (drop ?h' (?a @ ?a)))"
    then have j: "j < ?u - 1" by simp
    have "take (?u - 1) (drop ?h' (?a @ ?a)) ! j = ?a ! ring_pos ?n ?h (j + 1)"
      using ring_nth [of ?a ?n ?h' "?u - 1" j] h' inv(2,5) j by simp
    also have "\<dots> = q_array q ! ring_pos ?n ?h (j + 1)"
      using inv(4,5) j by (auto simp: ring_pos_def nth_list_update)
    also have "\<dots> = q_content q ! (j + 1)"
      using ring_nth [OF inv(2,4,5), of "j + 1"] j by (simp add: q_content_def)
    finally show "take (?u - 1) (drop ?h' (?a @ ?a)) ! j = xs ! j" using c by simp
  qed
  then have "q_content ?q = xs" by (simp add: q_content_def)
  moreover have "q_inv (?q\<lparr>q_event := False\<rparr>)" "q_content (?q\<lparr>q_event := False\<rparr>) = q_content ?q"
    using i by (simp_all add: q_inv_def q_content_def)
  ultimately show "\<exists>q'. Queue_Dequeue q = Done x q' \<and> q_inv q' \<and> q_content q' = xs \<and>
      q_object q' = q_object q \<and> q_freed q' = q_freed q \<and> q_event q' = (q_event q \<and> xs \<noteq> [])"
    using run i u by (cases "?u - 1 < 1") auto
qed

lemma queue_peek_spec:
  assumes "q_inv q"
  shows "Queue_Peek q = Done (if q_content q = [] then 0 else hd (q_content q)) q"
proof (cases "q_content q")
  case Nil
  then have "q_size q = 0" using length_q_content [OF assms] by simp
  then show ?thesis using Nil by (simp add: Queue_Peek_def)
next
  case (Cons x xs)
  note inv = q_invD [OF assms]
  have "q_size q = length xs + 1" using length_q_content [OF assms] Cons by simp
  moreover from this have "q_array q ! q_head q = x"
    using ring_nth [OF inv(2,4,5), of 0] inv(4) Cons by (simp add: q_content_def ring_pos_def)
  ultimately show ?thesis using Cons inv by (simp add: Queue_Peek_def)
qed

section \<open>Clearing\<close>

lemma clear_loop:
  assumes "length (q_array q) = n" "n < 2 ^ 60" "h < n" "i \<le> u" "u < n" "q_tail q = ring_pos n h u" "q_capacity q = n"
  shows "Queue_Clear_loop (ring_pos n h i) q = Some (Done () (q\<lparr>
      q_array := fold (\<lambda>j a. a[ring_pos n h j := 0]) [i..<u] (q_array q),
      q_freed := q_freed q @ concat (map (\<lambda>j. free_object (q_object q) (q_array q ! ring_pos n h j)) [i..<u])\<rparr>))"
  using assms
proof (induction "u - i" arbitrary: i q)
  case 0
  then have "i = u" by simp
  then show ?case using 0 by (simp add: Queue_Clear_loop.simps)
next
  case (Suc k)
  then have i: "i < u" by simp
  let ?p = "ring_pos n h i"
  have p: "?p < n" "?p \<noteq> q_tail q" "size_add ?p 1 mod n = ring_pos n h (i + 1)"
    using i Suc.prems by (auto simp: ring_pos_def size_add_small mod_if)
  have other: "ring_pos n h j \<noteq> ?p" if "j \<in> set [i + 1..<u]" for j
    using that Suc.prems i by (auto simp: ring_pos_def)
  let ?q = "q\<lparr>q_array := (q_array q)[?p := 0], q_freed := q_freed q @ free_object (q_object q) (q_array q ! ?p)\<rparr>"
  have "Queue_Clear_loop ?p q = Queue_Clear_loop (ring_pos n h (i + 1)) ?q"
    using p Suc.prems(1,7) by (subst Queue_Clear_loop.simps) simp
  also have "\<dots> = Some (Done () (?q\<lparr>
      q_array := fold (\<lambda>j a. a[ring_pos n h j := 0]) [i + 1..<u] (q_array ?q),
      q_freed := q_freed ?q @ concat (map (\<lambda>j. free_object (q_object ?q) (q_array ?q ! ring_pos n h j)) [i + 1..<u])\<rparr>))"
    using Suc i by (intro Suc.hyps(1)) simp_all
  also have "map (\<lambda>j. free_object (q_object ?q) (q_array ?q ! ring_pos n h j)) [i + 1..<u] =
      map (\<lambda>j. free_object (q_object q) (q_array q ! ring_pos n h j)) [i + 1..<u]"
    by (rule map_cong [OF refl]) (simp add: nth_list_update_neq [OF other [symmetric]])
  finally show ?case using i by (simp add: upt_conv_Cons)
qed

lemma fold_zero_length: "length (fold (\<lambda>j a. a[f j := 0]) js xs) = length xs"
  by (induction js arbitrary: xs) simp_all

lemma queue_clear_spec:
  assumes "q_inv q"
  shows "\<exists>q'. Queue_Clear q = Some (Done () q') \<and> q_inv q' \<and> q_content q' = [] \<and> \<not> q_event q' \<and>
    q_freed q' = q_freed q @
      (if q_size q < q_capacity q then concat (map (free_object (q_object q)) (q_content q)) else [])"
proof -
  note inv = q_invD [OF assms]
  let ?n = "q_capacity q" and ?h = "q_head q"
  show ?thesis
  proof (cases "q_size q < ?n")
    case True
    have h0: "ring_pos ?n ?h 0 = ?h" using inv(4) by (simp add: ring_pos_def)
    let ?b = "fold (\<lambda>j a. a[ring_pos ?n ?h j := 0]) [0..<q_size q] (q_array q)"
    let ?f = "q_freed q @ concat (map (\<lambda>j. free_object (q_object q) (q_array q ! ring_pos ?n ?h j)) [0..<q_size q])"
    have "map (\<lambda>j. q_array q ! ring_pos ?n ?h j) [0..<q_size q] = q_content q"
      using ring_nth [OF inv(2,4,5)] length_q_content [OF assms]
      by (intro nth_equalityI) (simp_all add: q_content_def)
    then have f: "map (\<lambda>j. free_object (q_object q) (q_array q ! ring_pos ?n ?h j)) [0..<q_size q] =
        map (free_object (q_object q)) (q_content q)"
      by (metis (no_types, lifting) map_map o_def map_eq_conv)
    have "Queue_Clear q = Some (Done () (q\<lparr>q_array := ?b, q_freed := ?f, q_size := 0, q_head := 0, q_tail := 0, q_event := False\<rparr>))"
      using clear_loop [of q ?n ?h 0 "q_size q"] inv True h0 by (simp add: Queue_Clear_def)
    then show ?thesis
      using inv True f by (auto simp: q_inv_def q_content_def fold_zero_length ring_pos_def)
  next
    case False
    then have "q_tail q = ?h" using full_content(2) [OF assms] inv(5) by simp
    then have "Queue_Clear q = Some (Done () (q\<lparr>q_size := 0, q_head := 0, q_tail := 0, q_event := False\<rparr>))"
      by (simp add: Queue_Clear_def Queue_Clear_loop.simps)
    then show ?thesis
      using inv False by (auto simp: q_inv_def q_content_def ring_pos_def)
  qed
qed

lemma queue_new_inv:
  assumes "Queue_New A ok cap growth = Some q" "cap < 2 ^ 63"
  shows "q_inv q \<and> q_content q = [] \<and> \<not> q_event q"
proof -
  define c g where "c = (if cap \<le> 0 then 32 else nat cap)" and "g = (if growth > 0 then nat growth else 2)"
  let ?q = "\<lparr>q_capacity = 0, q_growthFactor = g, q_head = 0, q_tail = 0, q_size = 0, q_array = [], q_event = False,
    q_object = default_object, q_freed = []\<rparr>"
  have cg: "0 < c" "0 < g" by (simp_all add: c_def g_def)
  have run: "Queue_EnsureCapacity A c ?q = Done () q"
    using assms by (auto simp: Queue_New_def c_def g_def split: if_splits outcome.splits)
  define m where "m = c + 32 * g - c mod (32 * g)"
  have c63: "c < 2 ^ 63" using assms(2) by (auto simp: c_def)
  then have c64: "size_add 0 c = c" "\<not> 0 > SIZE_MAX - c" by (simp_all add: size_add_def)
  have g: "g \<le> SIZE_MAX div 32"
    using run by (rule contrapos_pp) (simp add: Queue_EnsureCapacity_def)
  have c: "c \<le> SIZE_MAX - 32 * g"
    using run by (rule contrapos_pp) (use g cg c64 in \<open>simp add: Queue_EnsureCapacity_def Let_def\<close>)
  have "c mod (32 * g) < 32 * g" using cg by simp
  then have m: "0 < m" unfolding m_def by linarith
  have "\<not> g > SIZE_MAX div 32" "\<not> 0 > SIZE_MAX - c" "c > 0" "\<not> c > SIZE_MAX - 32 * g" "32 * g \<noteq> 0"
    using g c cg by simp_all
  note conds = this
  have eq: "Queue_EnsureCapacity A c ?q =
      (if m > SIZE_MAX div 8 then Fail ?q else case realloc_array A [] (8 * m) of None \<Rightarrow> Fail ?q
       | Some a \<Rightarrow> run_mem (mem_write a 0 (replicate (m - 0) 0)) (\<lambda>a. Queue_rearrange 0 m (?q\<lparr>q_capacity := m, q_array := a\<rparr>)))"
    unfolding Queue_EnsureCapacity_def Let_def wQueue.select_convs c64(1) if_not_P [OF conds(1)] if_not_P [OF conds(2)]
      if_P [OF conds(3)] if_not_P [OF conds(4)] if_not_P [OF conds(5)] m_def [symmetric] by (rule refl)
  obtain a where a: "realloc_array A [] (8 * m) = Some a" "\<not> m > SIZE_MAX div 8"
    using run unfolding eq by (auto split: if_splits option.splits)
  have len: "length a = m" "8 * m \<le> PTRDIFF_MAX" using realloc_array_Some [OF a(1)] by simp_all
  have "mem_write a 0 (replicate (m - 0) 0) = Some (replicate m 0)" using len by (simp add: mem_write_def)
  then have "Done () q = Queue_rearrange 0 m (?q\<lparr>q_capacity := m, q_array := replicate m 0\<rparr>)"
    using run a unfolding eq by simp
  then have "q = ?q\<lparr>q_capacity := m, q_array := replicate m 0\<rparr>"
    using m by (simp add: Queue_rearrange_def Let_def mem_read_def mem_write_def size_add_def)
  then show ?thesis
    using m len(2) cg g by (simp add: q_inv_def q_content_def ring_pos_def)
qed

section \<open>The interface of a queue\<close>

datatype 'a queue_op = Enqueue 'a | Dequeue

text \<open>
  A run of operations, with the objects that were accepted, as they are stored, and the objects that
  came out. An enqueue counts as accepted when the queue has grown, a dequeue has an object when the
  queue was not empty.
\<close>

fun queue_run :: "('a \<Rightarrow> 's \<Rightarrow> (bool, 's) outcome) \<Rightarrow> ('s \<Rightarrow> ('a, 's) outcome) \<Rightarrow> ('s \<Rightarrow> nat) \<Rightarrow> ('a \<Rightarrow> 'a) \<Rightarrow>
    'a queue_op list \<Rightarrow> 's \<Rightarrow> ('a list \<times> 'a list \<times> 's) option" where
  "queue_run enq deq count copy [] s = Some ([], [], s)"
| "queue_run enq deq count copy (Enqueue x # ops) s =
     (case enq x s of
        Done _ t \<Rightarrow>
          (case queue_run enq deq count copy ops t of
             None \<Rightarrow> None
           | Some (inp, out, r) \<Rightarrow> Some ((if count s < count t then [copy x] else []) @ inp, out, r))
      | _ \<Rightarrow> None)"
| "queue_run enq deq count copy (Dequeue # ops) s =
     (case deq s of
        Done y t \<Rightarrow>
          (case queue_run enq deq count copy ops t of
             None \<Rightarrow> None
           | Some (inp, out, r) \<Rightarrow> Some (inp, (if count s = 0 then [] else [y]) @ out, r))
      | _ \<Rightarrow> None)"

locale object_fifo =
  fixes inv :: "'s \<Rightarrow> bool"
    and content :: "'s \<Rightarrow> 'a list"
    and enq :: "'a \<Rightarrow> 's \<Rightarrow> (bool, 's) outcome"
    and deq :: "'s \<Rightarrow> ('a, 's) outcome"
    and count :: "'s \<Rightarrow> nat"
    and copy :: "'a \<Rightarrow> 'a"
  assumes count_law: "inv s \<Longrightarrow> count s = length (content s)"
    and enq_law: "inv s \<Longrightarrow> \<exists>b t. enq x s = Done b t \<and> inv t \<and>
      (content t = content s \<or> content t = content s @ [copy x])"
    and deq_law: "inv s \<Longrightarrow> content s = y # ys \<Longrightarrow> \<exists>t. deq s = Done y t \<and> inv t \<and> content t = ys"
    and deq_empty_law: "inv s \<Longrightarrow> content s = [] \<Longrightarrow> \<exists>y t. deq s = Done y t \<and> inv t \<and> content t = []"
begin

lemma queue_order:
  "inv s \<Longrightarrow> \<exists>inp out r. queue_run enq deq count copy ops s = Some (inp, out, r) \<and> inv r \<and>
     content s @ inp = out @ content r"
proof (induction ops arbitrary: s)
  case Nil
  then show ?case by simp
next
  case (Cons p ops)
  show ?case
  proof (cases p)
    case (Enqueue x)
    obtain b t where t: "enq x s = Done b t" "inv t" "content t = content s \<or> content t = content s @ [copy x]"
      using enq_law [OF Cons.prems] by blast
    obtain inp out r where "queue_run enq deq count copy ops t = Some (inp, out, r)" "inv r" "content t @ inp = out @ content r"
      using Cons.IH [OF t(2)] by blast
    moreover have "content t = content s @ (if count s < count t then [copy x] else [])"
      using t(3) count_law [OF Cons.prems] count_law [OF t(2)] by auto
    ultimately show ?thesis using t(1) Enqueue by simp
  next
    case Dequeue
    show ?thesis
    proof (cases "content s")
      case Nil
      then obtain y t where t: "deq s = Done y t" "inv t" "content t = []"
        using deq_empty_law [OF Cons.prems] by blast
      moreover have "count s = 0" using count_law [OF Cons.prems] Nil by simp
      ultimately show ?thesis using Cons.IH [OF t(2)] Dequeue Nil by auto
    next
      case (Cons y ys)
      then obtain t where t: "deq s = Done y t" "inv t" "content t = ys"
        using deq_law [OF Cons.prems(1)] by blast
      moreover have "count s \<noteq> 0" using count_law [OF Cons.prems(1)] Cons by simp
      ultimately show ?thesis using Cons.IH [OF t(2)] Dequeue Cons by auto
    qed
  qed
qed

end

interpretation winpr_queue: object_fifo "\<lambda>q. q_inv q \<and> q_object q = ob \<and> q_event q = (q_content q \<noteq> [])" q_content "Queue_Enqueue A" Queue_Dequeue
    Queue_Count "new_object ob" for A ob
proof
  fix s x y ys
  assume s: "q_inv s \<and> q_object s = ob \<and> q_event s = (q_content s \<noteq> [])"
  then have e: "q_size s = 0 \<longleftrightarrow> q_content s = []" by (metis length_q_content length_0_conv)
  show "Queue_Count s = length (q_content s)" using s by (simp add: Queue_Count_def)
  show "\<exists>b t. Queue_Enqueue A x s = Done b t \<and> (q_inv t \<and> q_object t = ob \<and> q_event t = (q_content t \<noteq> [])) \<and>
      (q_content t = q_content s \<or> q_content t = q_content s @ [new_object ob x])"
    using enqueue_spec [of s A x] s e by auto
  show "\<exists>t. Queue_Dequeue s = Done y t \<and> (q_inv t \<and> q_object t = ob \<and> q_event t = (q_content t \<noteq> [])) \<and> q_content t = ys"
    if "q_content s = y # ys"
    using dequeue_spec(2) [OF _ that] s that by auto
  show "\<exists>y t. Queue_Dequeue s = Done y t \<and> (q_inv t \<and> q_object t = ob \<and> q_event t = (q_content t \<noteq> [])) \<and> q_content t = []"
    if "q_content s = []"
    using dequeue_spec(1) [of s] s that by (auto simp: q_inv_def q_content_def)
qed

section \<open>Properties\<close>

text \<open>C13. The object queue is a queue. From any well-formed queue whose event tells whether it holds
  something, whatever the allocator does, any sequence of enqueues and dequeues runs without an abort
  through wrap-around and growth; the objects held at the start followed by the accepted ones are
  exactly the dequeued ones followed by those still held, in order, and the queue stays well formed
  with its event telling whether it is empty. An enqueue with a free slot is accepted. A new queue is
  well formed and empty, and a peek gives the object the next dequeue removes.\<close>

theorem queue_fifo:
  assumes "q_inv q" "q_event q = (q_content q \<noteq> [])"
  shows "(\<exists>inp out r. queue_run (Queue_Enqueue A) Queue_Dequeue Queue_Count (new_object (q_object q)) ops q = Some (inp, out, r) \<and>
      q_inv r \<and> q_event r = (q_content r \<noteq> []) \<and> q_content q @ inp = out @ q_content r)
    \<and> (Queue_Count q < Queue_Capacity q \<longrightarrow>
        (\<exists>r. Queue_Enqueue A x q = Done True r \<and> q_content r = q_content q @ [new_object (q_object q) x]))
    \<and> (\<forall>cap growth p. Queue_New A ok cap growth = Some p \<and> cap < 2 ^ 63 \<longrightarrow>
        q_inv p \<and> q_content p = [] \<and> \<not> q_event p)
    \<and> Queue_Peek q = Done (if q_content q = [] then 0 else hd (q_content q)) q"
proof (intro conjI)
  show "Queue_Count q < Queue_Capacity q \<longrightarrow>
      (\<exists>r. Queue_Enqueue A x q = Done True r \<and> q_content r = q_content q @ [new_object (q_object q) x])"
    using enqueue_spec [OF assms(1), of A x] by (auto simp: Queue_Count_def Queue_Capacity_def)
qed (use winpr_queue.queue_order [of q "q_object q" A ops] queue_new_inv queue_peek_spec [OF assms(1)] assms in blast)+

theorem queue_fifo_witness:
  "\<exists>q inp out r. Queue_New plain_allocator True 0 0 = Some q \<and>
     queue_run (Queue_Enqueue plain_allocator) Queue_Dequeue Queue_Count (new_object (q_object q))
       [Enqueue 7, Enqueue 8, Dequeue, Enqueue 9] q = Some (inp, out, r) \<and> q_content q @ inp = out @ q_content r"
proof -
  obtain q where q: "Queue_New plain_allocator True 0 0 = Some q"
    by (simp add: Queue_New_def Queue_EnsureCapacity_def Let_def SIZE_MAX_def size_add_def realloc_array_def
        plain_allocator_def PTRDIFF_MAX_def Queue_rearrange_def mem_read_def mem_write_def)
  then have "q_inv q" "q_event q = (q_content q \<noteq> [])" using queue_new_inv [OF q] by simp_all
  from queue_fifo [OF this, of plain_allocator "[Enqueue 7, Enqueue 8, Dequeue, Enqueue 9]"] q show ?thesis by blast
qed

text \<open>C14. Clearing empties the queue and returns. On a well-formed queue the loop of \<open>Queue_Clear\<close>
  ends, and the queue is then empty and not signalled. When it was not exactly full, every object it
  held has been released once, in order, if a release function is set; \<open>Queue_Free\<close> does the same.\<close>

theorem queue_clear_returns:
  assumes "q_inv q"
  shows "\<exists>q'. Queue_Clear q = Some (Done () q') \<and> q_inv q' \<and> q_content q' = [] \<and> \<not> q_event q' \<and>
    (q_size q < q_capacity q \<longrightarrow> q_freed q' = q_freed q @ (if fnObjectFree (q_object q) then q_content q else [])) \<and>
    Queue_Free q = Some (Done (q_freed q') q')"
proof -
  have "concat (map (free_object ob) xs) = (if fnObjectFree ob then xs else [])" for ob xs
    by (induction xs) (simp_all add: free_object_def)
  then show ?thesis using queue_clear_spec [OF assms] by (auto simp: Queue_Free_def)
qed

definition sample_queue :: "nat \<Rightarrow> ptr list \<Rightarrow> nat \<Rightarrow> wQueue" where
  "sample_queue head xs n = \<lparr>q_capacity = length xs, q_growthFactor = 2, q_head = head,
     q_tail = ring_pos (length xs) head n, q_size = n, q_array = xs, q_event = n > 0,
     q_object = default_object\<lparr>fnObjectFree := True\<rparr>, q_freed = []\<rparr>"

theorem queue_clear_returns_witness:
  "\<exists>q'. Queue_Clear (sample_queue 2 [9, 0, 7, 8] 3) = Some (Done () q') \<and> q_content q' = [] \<and> q_freed q' = [7, 8, 9]"
proof -
  have "q_inv (sample_queue 2 [9, 0, 7, 8] 3)"
    by (simp add: q_inv_def sample_queue_def ring_pos_def PTRDIFF_MAX_def SIZE_MAX_def)
  from queue_clear_returns [OF this] show ?thesis
    by (auto simp: sample_queue_def q_content_def default_object_def)
qed

text \<open>C31. An exactly full queue loses objects. When there is no memory to grow, \<open>Queue_Enqueue\<close>
  reports success although it has stored nothing; \<open>Queue_Clear\<close> forgets all the objects and releases
  none of them; and when the oldest one sits in slot 0, \<open>Queue_Contains\<close> finds none of them.\<close>

theorem queue_full_misreported:
  assumes "q_inv q" "Queue_Count q = Queue_Capacity q" "\<forall>n. \<not> alloc_ok A n"
  shows "Queue_Enqueue A obj q = Done True q
    \<and> (\<exists>q'. Queue_Clear q = Some (Done () q') \<and> q_content q' = [] \<and> q_freed q' = q_freed q)
    \<and> (q_head q = 0 \<longrightarrow> Queue_Contains q x = Done False q)"
proof (intro conjI impI)
  note inv = q_invD [OF assms(1)] and full = assms(2) [unfolded Queue_Count_def Queue_Capacity_def]
  have "q_capacity q < 2 ^ 60" using inv by simp
  then have "Queue_EnsureCapacity A 1 q = Fail q"
    using inv full assms(3) by (auto simp: Queue_EnsureCapacity_def Let_def realloc_array_def size_add_small)
  then show "Queue_Enqueue A obj q = Done True q" by (simp add: Queue_Enqueue_def)
  show "\<exists>q'. Queue_Clear q = Some (Done () q') \<and> q_content q' = [] \<and> q_freed q' = q_freed q"
    using queue_clear_spec [OF assms(1)] full by auto
  assume "q_head q = 0"
  then have "q_tail q = 0" using inv full by (simp add: ring_pos_def)
  then show "Queue_Contains q x = Done False q" by (simp add: Queue_Contains_def)
qed

theorem queue_full_misreported_witness:
  "Queue_Enqueue (plain_allocator\<lparr>alloc_ok := \<lambda>_. False\<rparr>) 5 (sample_queue 0 [7, 8] 2) = Done True (sample_queue 0 [7, 8] 2) \<and>
   q_content (sample_queue 0 [7, 8] 2) = [7, 8] \<and>
   Queue_Contains (sample_queue 0 [7, 8] 2) 7 = Done False (sample_queue 0 [7, 8] 2)"
proof -
  have "q_inv (sample_queue 0 [7, 8] 2)" "Queue_Count (sample_queue 0 [7, 8] 2) = Queue_Capacity (sample_queue 0 [7, 8] 2)"
    by (simp_all add: q_inv_def sample_queue_def ring_pos_def PTRDIFF_MAX_def SIZE_MAX_def Queue_Count_def Queue_Capacity_def)
  from queue_full_misreported [OF this, of "plain_allocator\<lparr>alloc_ok := \<lambda>_. False\<rparr>"] show ?thesis
    by (simp add: sample_queue_def q_content_def)
qed

end
