(* ===== verification/Object_List.thy ===== *)
theory Object_List
  imports Collections
begin

text \<open>
  The array list and the stack of \<open>winpr/libwinpr/utils/collections\<close> (\<open>ArrayList.c\<close>, \<open>Stack.c\<close>): a
  growing array whose first slots hold the objects. The theory shows that any sequence of operations
  behaves as on a list, which objects are released, and what the searches do outside the list.
\<close>

section \<open>The array list\<close>

record wArrayList =
  al_capacity :: nat
  al_growthFactor :: nat
  al_size :: nat
  al_array :: "ptr list"
  al_object :: wObject
  al_freed :: "ptr list"

definition ArrayList_Count :: "wArrayList \<Rightarrow> nat" where
  "ArrayList_Count l = al_size l"

definition ArrayList_GetItem :: "wArrayList \<Rightarrow> nat \<Rightarrow> (ptr, wArrayList) outcome" where
  "ArrayList_GetItem l index =
     (if index < al_size l then run_mem (array_get (al_array l) index) (\<lambda>obj. Done obj l) else Done 0 l)"

definition ArrayList_SetItem :: "wArrayList \<Rightarrow> nat \<Rightarrow> ptr \<Rightarrow> (unit, wArrayList) outcome" where
  "ArrayList_SetItem l index obj =
     (if index \<ge> al_size l then Fail l
      else
        case fnObjectNew (al_object l) of
          Some f \<Rightarrow>
            run_mem (array_set (al_array l) index (f obj)) (\<lambda>a.
              run_guard (\<not> (obj \<noteq> 0 \<and> f obj = 0)) (l\<lparr>al_array := a\<rparr>))
        | None \<Rightarrow> run_mem (array_set (al_array l) index obj) (\<lambda>a. Done () (l\<lparr>al_array := a\<rparr>)))"

definition ArrayList_EnsureCapacity :: "allocator \<Rightarrow> wArrayList \<Rightarrow> nat \<Rightarrow> (unit, wArrayList) outcome" where
  "ArrayList_EnsureCapacity A l count =
     run_bind (run_assert (count > 0) l) (\<lambda>_ l.
       if size_add (al_size l) count > al_capacity l then
         let newCapacity = size_mul (al_capacity l) (al_growthFactor l);
             newCapacity = (if newCapacity < size_add (al_size l) count then size_add (al_size l) count else newCapacity)
         in
         (case realloc_array A (al_array l) (size_mul 8 newCapacity) of
            None \<Rightarrow> Fail l
          | Some newArray \<Rightarrow> Done () (l\<lparr>al_array := newArray, al_capacity := newCapacity\<rparr>))
       else Done () l)"

definition ArrayList_Shift :: "allocator \<Rightarrow> wArrayList \<Rightarrow> nat \<Rightarrow> int \<Rightarrow> (unit, wArrayList) outcome" where
  "ArrayList_Shift A l index count =
     (if count > 0 then
        run_bind (ArrayList_EnsureCapacity A l (nat count)) (\<lambda>_ l.
          run_mem (mem_read (al_array l) index (size_sub (al_size l) index)) (\<lambda>d.
          run_mem (mem_write (al_array l) (size_add index (nat count)) d) (\<lambda>a.
            Done () (l\<lparr>al_array := a, al_size := size_add (al_size l) (nat count)\<rparr>))))
      else if count < 0 then
        let scount = nat (- count); off = size_add index scount in
        run_mem
          (if off < al_size l then
             Option.bind (mem_read (al_array l) off (al_size l - off)) (mem_write (al_array l) index)
           else Some (al_array l))
          (\<lambda>a. Done () (l\<lparr>al_array := a, al_size := size_sub (al_size l) scount\<rparr>))
      else Done () l)"

definition ArrayList_Clear :: "wArrayList \<Rightarrow> (unit, wArrayList) outcome" where
  "ArrayList_Clear l =
     run_mem (mem_read (al_array l) 0 (al_size l)) (\<lambda>xs.
     run_mem (mem_write (al_array l) 0 (replicate (al_size l) 0)) (\<lambda>a.
       Done () (l\<lparr>al_array := a, al_freed := al_freed l @ concat (map (free_object (al_object l)) xs), al_size := 0\<rparr>)))"

definition ArrayList_Contains :: "wArrayList \<Rightarrow> ptr \<Rightarrow> (bool, wArrayList) outcome" where
  "ArrayList_Contains l obj =
     run_mem (first_slot (\<lambda>x. fnObjectEquals (al_object l) x obj) (al_array l) 0 (al_size l)) (\<lambda>r. Done (r \<noteq> None) l)"

definition ArrayList_Append :: "allocator \<Rightarrow> wArrayList \<Rightarrow> ptr \<Rightarrow> (unit, wArrayList) outcome" where
  "ArrayList_Append A l obj =
     run_bind (ArrayList_EnsureCapacity A l 1) (\<lambda>_ l.
       ArrayList_SetItem (l\<lparr>al_size := size_add (al_size l) 1\<rparr>) (al_size l) obj)"

text \<open>An index above the size is reported as success.\<close>

definition ArrayList_Insert :: "allocator \<Rightarrow> wArrayList \<Rightarrow> nat \<Rightarrow> ptr \<Rightarrow> (unit, wArrayList) outcome" where
  "ArrayList_Insert A l index obj =
     (if index \<le> al_size l then
        run_bind (ArrayList_Shift A l index 1) (\<lambda>_ l. ArrayList_SetItem l index obj)
      else Done () l)"

definition ArrayList_RemoveAt :: "allocator \<Rightarrow> wArrayList \<Rightarrow> nat \<Rightarrow> (unit, wArrayList) outcome" where
  "ArrayList_RemoveAt A l index =
     (if index < al_size l then
        run_mem (array_get (al_array l) index) (\<lambda>x.
          ArrayList_Shift A (l\<lparr>al_freed := al_freed l @ free_object (al_object l) x\<rparr>) index (- 1))
      else Done () l)"

definition ArrayList_Remove :: "allocator \<Rightarrow> wArrayList \<Rightarrow> ptr \<Rightarrow> (unit, wArrayList) outcome" where
  "ArrayList_Remove A l obj =
     run_mem (first_slot (\<lambda>x. fnObjectEquals (al_object l) x obj) (al_array l) 0 (al_size l)) (\<lambda>found.
       case found of
         None \<Rightarrow> Done () l
       | Some index \<Rightarrow>
           run_mem (array_get (al_array l) index) (\<lambda>x.
             ArrayList_Shift A (l\<lparr>al_freed := al_freed l @ free_object (al_object l) x\<rparr>) index (- 1)))"

text \<open>A range that ends above the largest \<open>SSIZE_T\<close> overflows, which aborts here.\<close>

definition ArrayList_IndexOf :: "wArrayList \<Rightarrow> ptr \<Rightarrow> int \<Rightarrow> int \<Rightarrow> (int, wArrayList) outcome" where
  "ArrayList_IndexOf l obj startIndex count =
     (let sindex = (if startIndex < 0 then 0 else startIndex) in
      if count < 0 \<and> al_size l > PTRDIFF_MAX then Done (- 1) l
      else
        let cindex = (if count < 0 then int (al_size l) else count) in
        if sindex + cindex > int PTRDIFF_MAX then Abort
        else
          run_mem (first_slot (\<lambda>x. fnObjectEquals (al_object l) x obj) (al_array l) (nat sindex) (nat cindex)) (\<lambda>r.
            Done (case r of None \<Rightarrow> - 1 | Some index \<Rightarrow> int index) l))"

fun last_slot :: "(ptr \<Rightarrow> bool) \<Rightarrow> ptr list \<Rightarrow> nat \<Rightarrow> nat \<Rightarrow> int option" where
  "last_slot P a sindex 0 = Some (- 1)"
| "last_slot P a sindex (Suc n) =
     (case array_get a (sindex + n) of
        None \<Rightarrow> None
      | Some x \<Rightarrow> if P x then Some (int (sindex + Suc n)) else last_slot P a sindex n)"

definition ArrayList_LastIndexOf :: "wArrayList \<Rightarrow> ptr \<Rightarrow> int \<Rightarrow> int \<Rightarrow> (int, wArrayList) outcome" where
  "ArrayList_LastIndexOf l obj startIndex count =
     (let sindex = (if startIndex < 0 then 0 else startIndex) in
      run_bind (run_assert (count < 0 \<longrightarrow> al_size l \<le> PTRDIFF_MAX) l) (\<lambda>_ l.
        let cindex = (if count < 0 then int (al_size l) else count) in
        if sindex + cindex > int PTRDIFF_MAX then Abort
        else
          run_mem (last_slot (\<lambda>x. fnObjectEquals (al_object l) x obj) (al_array l) (nat sindex) (nat cindex)) (\<lambda>r.
            Done r l)))"

text \<open>The callback gets each object with its index and threads the application's state. It cannot
  change the list: a callback that appends to or removes from the list it visits is not modelled.\<close>

fun ArrayList_ForEach_loop ::
    "(ptr \<Rightarrow> nat \<Rightarrow> 'c \<Rightarrow> bool \<times> 'c) \<Rightarrow> wArrayList \<Rightarrow> nat \<Rightarrow> nat \<Rightarrow> 'c \<Rightarrow> (bool \<times> 'c, wArrayList) outcome" where
  "ArrayList_ForEach_loop fkt l index 0 c = Done (True, c) l"
| "ArrayList_ForEach_loop fkt l index (Suc n) c =
     run_bind (ArrayList_GetItem l index) (\<lambda>obj l.
       case fkt obj index c of
         (rs, c) \<Rightarrow> if rs then ArrayList_ForEach_loop fkt l (index + 1) n c else Done (False, c) l)"

definition ArrayList_ForEachAP ::
    "wArrayList \<Rightarrow> (ptr \<Rightarrow> nat \<Rightarrow> 'c \<Rightarrow> bool \<times> 'c) \<Rightarrow> 'c \<Rightarrow> (bool \<times> 'c, wArrayList) outcome" where
  "ArrayList_ForEachAP l fkt c = ArrayList_ForEach_loop fkt l 0 (ArrayList_Count l) c"

text \<open>The structure and the lock can be created where \<open>ok\<close> holds.\<close>

definition ArrayList_New :: "allocator \<Rightarrow> bool \<Rightarrow> wArrayList option" where
  "ArrayList_New A ok =
     (if \<not> ok then None
      else
        case ArrayList_EnsureCapacity A
               \<lparr>al_capacity = 0, al_growthFactor = 2, al_size = 0, al_array = [], al_object = default_object, al_freed = []\<rparr>
               32 of
          Done _ l \<Rightarrow> Some l
        | _ \<Rightarrow> None)"

definition ArrayList_Free :: "wArrayList \<Rightarrow> (ptr list, wArrayList) outcome" where
  "ArrayList_Free l = run_bind (ArrayList_Clear l) (\<lambda>_ l. Done (al_freed l) l)"

section \<open>The stack\<close>

record wStack =
  st_size :: nat
  st_capacity :: nat
  st_array :: "ptr list"
  st_object :: wObject
  st_freed :: "ptr list"

definition Stack_Count :: "wStack \<Rightarrow> nat" where
  "Stack_Count s = st_size s"

definition Stack_Clear :: "wStack \<Rightarrow> (unit, wStack) outcome" where
  "Stack_Clear s =
     run_mem (mem_read (st_array s) 0 (st_size s)) (\<lambda>xs.
     run_mem (mem_write (st_array s) 0 (replicate (st_size s) 0)) (\<lambda>a.
       Done () (s\<lparr>st_array := a, st_freed := st_freed s @ concat (map (free_object (st_object s)) xs), st_size := 0\<rparr>)))"

definition Stack_Contains :: "wStack \<Rightarrow> ptr \<Rightarrow> (bool, wStack) outcome" where
  "Stack_Contains s obj =
     run_mem (first_slot (\<lambda>x. fnObjectEquals (st_object s) x obj) (st_array s) 0 (st_size s)) (\<lambda>r. Done (r \<noteq> None) s)"

text \<open>The capacity is raised in steps of 128 until it exceeds what is needed; \<open>None\<close> is the assertion.\<close>

function Stack_new_cap :: "nat \<Rightarrow> nat \<Rightarrow> nat option" where
  "Stack_new_cap needed new_cap =
     (if new_cap > SIZE_MAX - 128 then None
      else if new_cap + 128 \<le> needed then Stack_new_cap needed (new_cap + 128)
      else Some (new_cap + 128))"
  by auto
termination by (relation "measure (\<lambda>(needed, new_cap). needed - new_cap)") auto

text \<open>Without memory the object is dropped.\<close>

definition Stack_Push :: "allocator \<Rightarrow> ptr \<Rightarrow> wStack \<Rightarrow> (unit, wStack) outcome" where
  "Stack_Push A obj s =
     run_bind (run_assert (st_size s < SIZE_MAX) s) (\<lambda>_ s.
       let store = (\<lambda>s. run_mem (array_set (st_array s) (st_size s) obj) (\<lambda>a.
             Done () (s\<lparr>st_array := a, st_size := st_size s + 1\<rparr>)))
       in
       if st_size s + 1 \<ge> st_capacity s then
         run_mem (Stack_new_cap (st_size s + 1) (st_capacity s)) (\<lambda>new_cap.
           case realloc_array A (st_array s) (size_mul 8 new_cap) of
             None \<Rightarrow> Done () s
           | Some new_arr \<Rightarrow> store (s\<lparr>st_array := new_arr, st_capacity := new_cap\<rparr>))
       else store s)"

definition Stack_Pop :: "wStack \<Rightarrow> (ptr, wStack) outcome" where
  "Stack_Pop s =
     (if st_size s > 0 then
        run_mem (array_get (st_array s) (st_size s - 1)) (\<lambda>obj. Done obj (s\<lparr>st_size := st_size s - 1\<rparr>))
      else Done 0 s)"

definition Stack_Peek :: "wStack \<Rightarrow> (ptr, wStack) outcome" where
  "Stack_Peek s =
     (if st_size s > 0 then run_mem (array_get (st_array s) (st_size s - 1)) (\<lambda>obj. Done obj s) else Done 0 s)"

definition Stack_New :: "allocator \<Rightarrow> bool \<Rightarrow> wStack option" where
  "Stack_New A ok =
     (if \<not> ok then None
      else
        case calloc_array A 32 of
          None \<Rightarrow> None
        | Some a \<Rightarrow>
            Some \<lparr>st_size = 0, st_capacity = 32, st_array = a, st_object = default_object, st_freed = []\<rparr>)"

text \<open>Only the array goes: the objects still on the stack are not released.\<close>

definition Stack_Free :: "wStack \<Rightarrow> ptr list" where
  "Stack_Free s = st_freed s"

section \<open>The array list as a list\<close>

definition al_inv :: "wArrayList \<Rightarrow> bool" where
  "al_inv l \<longleftrightarrow> al_size l \<le> al_capacity l \<and> length (al_array l) = al_capacity l \<and>
     8 * al_capacity l \<le> PTRDIFF_MAX \<and> al_growthFactor l = 2"

definition al_items :: "wArrayList \<Rightarrow> ptr list" where
  "al_items l = take (al_size l) (al_array l)"

text \<open>What is held and what has been released.\<close>

definition al_abs :: "wArrayList \<Rightarrow> ptr list \<times> ptr list" where
  "al_abs l = (al_items l, al_freed l)"

lemma length_al_items [simp]: "al_inv l \<Longrightarrow> length (al_items l) = al_size l"
  by (simp add: al_inv_def al_items_def)

lemma al_invD:
  assumes "al_inv l"
  shows "al_size l \<le> al_capacity l" "length (al_array l) = al_capacity l" "al_capacity l < 2 ^ 60" "al_size l < 2 ^ 60"
  using assms by (auto simp: al_inv_def PTRDIFF_MAX_def)

lemma ensure_list:
  assumes "al_inv l" "0 < n" "n < 2 ^ 60"
  shows "ArrayList_EnsureCapacity A l n = Fail l \<or>
    (\<exists>a c. ArrayList_EnsureCapacity A l n = Done () (l\<lparr>al_array := a, al_capacity := c\<rparr>) \<and>
      al_inv (l\<lparr>al_array := a, al_capacity := c\<rparr>) \<and> take (al_size l) a = al_items l \<and> al_size l + n \<le> c)"
proof (cases "al_size l + n > al_capacity l")
  case True
  note inv = al_invD [OF assms(1)]
  have g: "al_growthFactor l = 2" using assms(1) by (simp add: al_inv_def)
  define c where "c = (if al_capacity l * 2 < al_size l + n then al_size l + n else al_capacity l * 2)"
  have c: "c < 2 ^ 61" "al_size l + n \<le> c" "al_capacity l \<le> c"
    using inv assms(3) True by (auto simp: c_def)
  have nowrap: "size_add (al_size l) n = al_size l + n" "size_mul (al_capacity l) 2 = al_capacity l * 2" "size_mul 8 c = 8 * c"
    using inv assms(3) c(1) by (simp_all add: size_mul_def)
  have eq: "ArrayList_EnsureCapacity A l n =
      (case realloc_array A (al_array l) (8 * c) of None \<Rightarrow> Fail l
       | Some a \<Rightarrow> Done () (l\<lparr>al_array := a, al_capacity := c\<rparr>))"
    using True by (simp only: ArrayList_EnsureCapacity_def run_assert_def assms(2) if_True run_bind.simps Let_def g
        nowrap(1,2) c_def [symmetric] nowrap(3))
  show ?thesis
  proof (cases "realloc_array A (al_array l) (8 * c)")
    case None
    then show ?thesis using eq by simp
  next
    case (Some a)
    then have "length a = c" "take (al_capacity l) a = al_array l" "8 * c \<le> PTRDIFF_MAX"
      using realloc_array_Some [of A "al_array l" c a] inv c by simp_all
    moreover from this have "take (al_size l) a = al_items l"
      using inv(1) by (metis al_items_def min.absorb1 take_take)
    ultimately show ?thesis using Some eq c g by (auto simp: al_inv_def)
  qed
next
  case False
  moreover have "l\<lparr>al_array := al_array l, al_capacity := al_capacity l\<rparr> = l" by simp
  ultimately show ?thesis using assms al_invD [OF assms(1)]
    by (intro disjI2 exI [of _ "al_array l"] exI [of _ "al_capacity l"])
      (simp add: ArrayList_EnsureCapacity_def run_assert_def al_items_def)
qed

lemma one_small: "(0::nat) < 1" "(1::nat) < 2 ^ 60"
  by simp_all

text \<open>The clone of an object is an object.\<close>

definition clones :: "wObject \<Rightarrow> bool" where
  "clones ob \<longleftrightarrow> (\<forall>x. x \<noteq> 0 \<longrightarrow> new_object ob x \<noteq> 0)"

lemma set_item:
  assumes "al_inv l" "index < al_size l" "clones (al_object l)"
  shows "ArrayList_SetItem l index obj =
    Done () (l\<lparr>al_array := (al_array l)[index := new_object (al_object l) obj]\<rparr>)"
  using assms al_invD [OF assms(1)]
  by (auto simp: ArrayList_SetItem_def new_object_def clones_def run_guard_def split: option.splits)

lemma insert_spec:
  assumes "al_inv l" "index \<le> al_size l" "clones (al_object l)"
  shows "ArrayList_Insert A l index obj = Fail l \<or>
    (\<exists>l'. ArrayList_Insert A l index obj = Done () l' \<and> al_inv l' \<and> al_object l' = al_object l \<and> al_freed l' = al_freed l \<and>
      al_items l' = take index (al_items l) @ [new_object (al_object l) obj] @ drop index (al_items l))"
  using ensure_list [OF assms(1) one_small, of A]
proof (elim disjE exE conjE)
  assume "ArrayList_EnsureCapacity A l 1 = Fail l"
  then show ?thesis using assms(2) by (simp add: ArrayList_Insert_def ArrayList_Shift_def)
next
  fix a c
  assume e: "ArrayList_EnsureCapacity A l 1 = Done () (l\<lparr>al_array := a, al_capacity := c\<rparr>)"
    and inv: "al_inv (l\<lparr>al_array := a, al_capacity := c\<rparr>)" and keep: "take (al_size l) a = al_items l" and room: "al_size l + 1 \<le> c"
  note D = al_invD [OF inv, simplified]
  let ?d = "drop index (al_items l)" and ?n = "al_size l"
  let ?b = "take index a @ [a ! index] @ ?d @ drop (?n + 1) a"
  have sub: "size_sub ?n index = ?n - index" "size_add index 1 = index + 1" "size_add ?n 1 = ?n + 1"
    using assms(2) D by simp_all
  have rd: "mem_read a index (?n - index) = Some ?d"
    using D assms(2) room by (simp add: mem_read_def keep [symmetric] drop_take)
  have ld: "length ?d = ?n - index" using assms(1) by simp
  have "take (index + 1) a = take index a @ [a ! index]"
    using D room assms(2) by (simp add: take_Suc_conv_app_nth)
  then have wr: "mem_write a (index + 1) ?d = Some ?b"
    using D assms(2) room ld by (simp add: mem_write_def)
  have lb: "length ?b = c" using D ld assms(2) room by simp
  let ?l = "l\<lparr>al_capacity := c, al_array := ?b, al_size := ?n + 1\<rparr>"
  have "ArrayList_Insert A l index obj = ArrayList_SetItem ?l index obj"
    using assms(2) e rd wr sub by (simp add: ArrayList_Insert_def ArrayList_Shift_def)
  moreover have "al_inv ?l" using inv room lb by (simp add: al_inv_def)
  ultimately have run: "ArrayList_Insert A l index obj =
      Done () (?l\<lparr>al_array := ?b[index := new_object (al_object l) obj]\<rparr>)"
    using set_item [of ?l index obj] assms(2,3) by simp
  have ti: "take index a = take index (al_items l)" using keep assms(2) by (metis min.absorb1 take_take)
  have b: "?b[index := x] = take index (al_items l) @ [x] @ ?d @ drop (?n + 1) a" for x
    unfolding ti [symmetric] using D(1,2) assms(2) room by (simp add: list_update_append)
  then have "take (?n + 1) (?b[index := x]) = take index (al_items l) @ [x] @ ?d" for x
    using ld assms(1,2) by (simp add: Suc_diff_le)
  then show ?thesis using run \<open>al_inv ?l\<close> lb by (auto simp: al_inv_def al_items_def)
qed

lemma append_spec:
  assumes "al_inv l" "clones (al_object l)"
  shows "ArrayList_Append A l obj = Fail l \<or>
    (\<exists>l'. ArrayList_Append A l obj = Done () l' \<and> al_inv l' \<and> al_object l' = al_object l \<and> al_freed l' = al_freed l \<and>
      al_items l' = al_items l @ [new_object (al_object l) obj])"
  using ensure_list [OF assms(1) one_small, of A]
proof (elim disjE exE conjE)
  assume "ArrayList_EnsureCapacity A l 1 = Fail l"
  then show ?thesis by (simp add: ArrayList_Append_def)
next
  fix a c
  assume e: "ArrayList_EnsureCapacity A l 1 = Done () (l\<lparr>al_array := a, al_capacity := c\<rparr>)"
    and inv: "al_inv (l\<lparr>al_array := a, al_capacity := c\<rparr>)" and keep: "take (al_size l) a = al_items l" and room: "al_size l + 1 \<le> c"
  note D = al_invD [OF inv, simplified]
  let ?l = "l\<lparr>al_array := a, al_capacity := c, al_size := al_size l + 1\<rparr>"
  have l: "al_inv ?l" using inv room by (simp add: al_inv_def)
  have "ArrayList_Append A l obj = Done () (?l\<lparr>al_array := a[al_size l := new_object (al_object l) obj]\<rparr>)"
    using e set_item [OF l, of "al_size l" obj] assms(2) D by (simp add: ArrayList_Append_def)
  moreover have "take (al_size l + 1) (a[al_size l := x]) = al_items l @ [x]" for x
    using keep D room by (simp add: take_Suc_conv_app_nth)
  ultimately show ?thesis using l by (auto simp: al_inv_def al_items_def)
qed

lemma shift_down:
  assumes "al_inv l" "index < al_size l"
  shows "\<exists>a. ArrayList_Shift A l index (- 1) = Done () (l\<lparr>al_array := a, al_size := al_size l - 1\<rparr>) \<and>
    length a = al_capacity l \<and> take (al_size l - 1) a = take index (al_items l) @ drop (index + 1) (al_items l)"
proof -
  note D = al_invD [OF assms(1)]
  let ?n = "al_size l" and ?a = "al_array l"
  have off: "size_add index 1 = index + 1" "size_sub ?n 1 = ?n - 1" using assms(2) D by simp_all
  show ?thesis
  proof (cases "index + 1 < ?n")
    case True
    let ?d = "drop (index + 1) (al_items l)"
    let ?b = "take index ?a @ ?d @ drop (?n - 1) ?a"
    have "mem_read ?a (index + 1) (?n - (index + 1)) = Some ?d"
      using D True by (simp add: mem_read_def al_items_def drop_take)
    moreover have "mem_write ?a index ?d = Some ?b"
      using D True assms(1) by (simp add: mem_write_def)
    ultimately have "ArrayList_Shift A l index (- 1) = Done () (l\<lparr>al_array := ?b, al_size := ?n - 1\<rparr>)"
      using True off by (simp add: ArrayList_Shift_def Let_def)
    moreover have "take index ?a = take index (al_items l)" using True by (simp add: al_items_def)
    moreover have "length ?b = al_capacity l" using D True assms(1) by simp
    ultimately show ?thesis using D True assms(1) by (intro exI [of _ ?b]) simp
  next
    case False
    then have "index = ?n - 1" using assms(2) by simp
    then show ?thesis using off D assms by (intro exI [of _ ?a]) (simp add: ArrayList_Shift_def Let_def al_items_def)
  qed
qed

lemma drop_item_spec:
  assumes "al_inv l" "index < al_size l"
  shows "\<exists>l'. run_mem (array_get (al_array l) index) (\<lambda>x.
      ArrayList_Shift A (l\<lparr>al_freed := al_freed l @ free_object (al_object l) x\<rparr>) index (- 1)) = Done () l' \<and>
    al_inv l' \<and> al_object l' = al_object l \<and> al_abs l' = (take index (al_items l) @ drop (index + 1) (al_items l),
      al_freed l @ free_object (al_object l) (al_items l ! index))"
proof -
  let ?l = "l\<lparr>al_freed := al_freed l @ free_object (al_object l) (al_array l ! index)\<rparr>"
  have l: "al_inv ?l" "index < al_size ?l" "al_items ?l = al_items l" using assms by (simp_all add: al_inv_def al_items_def)
  have "al_items l ! index = al_array l ! index" using assms(2) by (simp add: al_items_def)
  then show ?thesis
    using shift_down [OF l(1,2), of A] l(3) assms al_invD [OF assms(1)] by (auto simp: al_inv_def al_items_def al_abs_def)
qed

lemma clear_spec:
  assumes "al_inv l"
  shows "\<exists>l'. ArrayList_Clear l = Done () l' \<and> al_inv l' \<and> al_object l' = al_object l \<and>
    al_abs l' = ([], al_freed l @ concat (map (free_object (al_object l)) (al_items l)))"
  using al_invD [OF assms] assms
  by (auto simp: ArrayList_Clear_def mem_read_def mem_write_def al_inv_def al_items_def al_abs_def)

section \<open>Operations of a list\<close>

datatype list_op =
    ListAppend ptr | ListInsert nat ptr | ListRemove ptr | ListRemoveAt nat | ListSet nat ptr | ListGet nat
  | ListContains ptr | ListCount | ListClear

fun list_step :: "allocator \<Rightarrow> list_op \<Rightarrow> wArrayList \<Rightarrow> (answer, wArrayList) outcome" where
  "list_step A (ListAppend x) l = result_of (ArrayList_Append A l x)"
| "list_step A (ListInsert i x) l = result_of (ArrayList_Insert A l i x)"
| "list_step A (ListRemove x) l = result_of (ArrayList_Remove A l x)"
| "list_step A (ListRemoveAt i) l = result_of (ArrayList_RemoveAt A l i)"
| "list_step A (ListSet i x) l = result_of (ArrayList_SetItem l i x)"
| "list_step A (ListGet i) l = run_bind (ArrayList_GetItem l i) (\<lambda>x. Done (Object x))"
| "list_step A (ListContains x) l = run_bind (ArrayList_Contains l x) (\<lambda>b. Done (Result b))"
| "list_step A ListCount l = Done (Number (ArrayList_Count l)) l"
| "list_step A ListClear l = result_of (ArrayList_Clear l)"

text \<open>
  The same operations on a list, with the objects released so far. Only an append and an insert may
  fail, and then nothing has changed.
\<close>

definition without :: "wObject \<Rightarrow> nat \<Rightarrow> ptr list \<times> ptr list \<Rightarrow> ptr list \<times> ptr list" where
  "without ob i = (\<lambda>(xs, freed). (take i xs @ drop (i + 1) xs, freed @ free_object ob (xs ! i)))"

fun list_spec :: "wObject \<Rightarrow> list_op \<Rightarrow> answer \<Rightarrow> ptr list \<times> ptr list \<Rightarrow> (ptr list \<times> ptr list) option" where
  "list_spec ob (ListAppend x) (Result b) (xs, freed) =
     Some (if b then xs @ [new_object ob x] else xs, freed)"
| "list_spec ob (ListInsert i x) (Result b) (xs, freed) =
     (if b then Some (if i \<le> length xs then take i xs @ [new_object ob x] @ drop i xs else xs, freed)
      else if i \<le> length xs then Some (xs, freed) else None)"
| "list_spec ob (ListRemove x) (Result True) (xs, freed) =
     Some (case first_match (\<lambda>y. fnObjectEquals ob y x) xs of
             None \<Rightarrow> (xs, freed)
           | Some i \<Rightarrow> without ob i (xs, freed))"
| "list_spec ob (ListRemoveAt i) (Result True) (xs, freed) =
     Some (if i < length xs then without ob i (xs, freed) else (xs, freed))"
| "list_spec ob (ListSet i x) (Result b) (xs, freed) =
     (if b = (i < length xs) then Some (xs[i := new_object ob x], freed) else None)"
| "list_spec ob (ListGet i) (Object p) (xs, freed) =
     (if p = (if i < length xs then xs ! i else 0) then Some (xs, freed) else None)"
| "list_spec ob (ListContains x) (Result b) (xs, freed) =
     (if b = list_ex (\<lambda>y. fnObjectEquals ob y x) xs then Some (xs, freed) else None)"
| "list_spec ob ListCount (Number n) (xs, freed) = (if n = length xs then Some (xs, freed) else None)"
| "list_spec ob ListClear (Result True) (xs, freed) =
     Some ([], freed @ concat (map (free_object ob) xs))"
| "list_spec ob _ _ _ = None"

lemma first_match_list_ex: "first_match P xs \<noteq> None \<longleftrightarrow> list_ex P xs"
  by (induction xs) simp_all

lemma list_step_simulates:
  assumes "al_inv l" "clones (al_object l)"
  shows "\<exists>r l'. list_step A p l = Done r l' \<and> al_inv l' \<and> al_object l' = al_object l \<and>
    list_spec (al_object l) p r (al_abs l) = Some (al_abs l')"
proof -
  note D = al_invD [OF assms(1)] and n = length_al_items [OF assms(1)]
  have abs: "al_abs l = (al_items l, al_freed l)" by (simp add: al_abs_def)
  have found: "first_slot P (al_array l) 0 (al_size l) = Some (first_match P (al_items l))" for P
    using D first_slot_all by (simp add: al_items_def)
  show ?thesis
  proof (cases p)
    case (ListAppend x)
    then show ?thesis using append_spec [OF assms, of A x] assms(1) by (auto simp: al_abs_def)
  next
    case (ListInsert i x)
    show ?thesis
    proof (cases "i \<le> al_size l")
      case True
      then show ?thesis using insert_spec [OF assms(1) True assms(2), of A x] ListInsert assms(1) n by (auto simp: al_abs_def)
    next
      case False
      then show ?thesis using ListInsert assms(1) n by (auto simp: ArrayList_Insert_def al_abs_def)
    qed
  next
    case (ListRemove x)
    show ?thesis
    proof (cases "first_match (\<lambda>y. fnObjectEquals (al_object l) y x) (al_items l)")
      case None
      then show ?thesis using ListRemove found assms(1) by (auto simp: ArrayList_Remove_def al_abs_def)
    next
      case (Some i)
      then have "i < al_size l" using first_match_Some [OF Some] n by simp
      then show ?thesis using drop_item_spec [OF assms(1), of i A] Some ListRemove found abs
        by (auto simp: ArrayList_Remove_def without_def)
    qed
  next
    case (ListRemoveAt i)
    then show ?thesis using drop_item_spec [OF assms(1), of i A] assms(1) abs n
      by (auto simp: ArrayList_RemoveAt_def without_def)
  next
    case (ListSet i x)
    show ?thesis
    proof (cases "i < al_size l")
      case True
      moreover have "al_inv (l\<lparr>al_array := (al_array l)[i := new_object (al_object l) x]\<rparr>)" using assms(1) by (simp add: al_inv_def)
      ultimately show ?thesis using set_item [OF assms(1) True assms(2)] ListSet n
        by (simp add: al_abs_def al_items_def take_update_swap)
    next
      case False
      then show ?thesis using ListSet n assms(1) by (simp add: ArrayList_SetItem_def abs list_update_beyond)
    qed
  next
    case (ListGet i)
    then show ?thesis using D n assms(1) abs by (auto simp: ArrayList_GetItem_def al_items_def)
  next
    case (ListContains x)
    then show ?thesis using found first_match_list_ex assms(1) abs by (simp add: ArrayList_Contains_def)
  next
    case ListCount
    then show ?thesis using assms(1) abs n by (simp add: ArrayList_Count_def)
  next
    case ListClear
    then show ?thesis using clear_spec [OF assms(1)] abs by auto
  qed
qed

interpretation array_list: simulation "\<lambda>l. al_inv l \<and> al_object l = ob \<and> clones ob" al_abs "list_step A" "list_spec ob" for A ob
  using list_step_simulates by unfold_locales metis

section \<open>The stack as a list\<close>

definition st_inv :: "wStack \<Rightarrow> bool" where
  "st_inv s \<longleftrightarrow> st_size s \<le> st_capacity s \<and> length (st_array s) = st_capacity s \<and> 8 * st_capacity s \<le> PTRDIFF_MAX"

definition st_abs :: "wStack \<Rightarrow> ptr list \<times> ptr list" where
  "st_abs s = (rev (take (st_size s) (st_array s)), st_freed s)"

lemma st_invD:
  assumes "st_inv s"
  shows "st_size s \<le> st_capacity s" "length (st_array s) = st_capacity s" "st_capacity s < 2 ^ 60"
  using assms by (auto simp: st_inv_def PTRDIFF_MAX_def)

lemma new_cap_Some:
  "needed \<le> c + 1 \<Longrightarrow> c < 2 ^ 60 \<Longrightarrow> \<exists>m. Stack_new_cap needed c = Some m \<and> needed < m \<and> c \<le> m \<and> m < 2 ^ 61"
  by (subst Stack_new_cap.simps) (simp add: SIZE_MAX_def)

datatype stack_op = StackPush ptr | StackPop | StackPeek | StackContains ptr | StackCount | StackClear

text \<open>A push counts as stored when the stack has grown; \<open>Stack_Push\<close> has no result of its own.\<close>

fun stack_step :: "allocator \<Rightarrow> stack_op \<Rightarrow> wStack \<Rightarrow> (answer, wStack) outcome" where
  "stack_step A (StackPush x) s = run_bind (Stack_Push A x s) (\<lambda>_ t. Done (Result (Stack_Count s < Stack_Count t)) t)"
| "stack_step A StackPop s = run_bind (Stack_Pop s) (\<lambda>x. Done (Object x))"
| "stack_step A StackPeek s = run_bind (Stack_Peek s) (\<lambda>x. Done (Object x))"
| "stack_step A (StackContains x) s = run_bind (Stack_Contains s x) (\<lambda>b. Done (Result b))"
| "stack_step A StackCount s = Done (Number (Stack_Count s)) s"
| "stack_step A StackClear s = result_of (Stack_Clear s)"

fun stack_spec :: "wObject \<Rightarrow> stack_op \<Rightarrow> answer \<Rightarrow> ptr list \<times> ptr list \<Rightarrow> (ptr list \<times> ptr list) option" where
  "stack_spec ob (StackPush x) (Result b) (xs, freed) = Some (if b then x # xs else xs, freed)"
| "stack_spec ob StackPop (Object p) (xs, freed) =
     (if p = (case xs of [] \<Rightarrow> 0 | x # _ \<Rightarrow> x) then Some (tl xs, freed) else None)"
| "stack_spec ob StackPeek (Object p) (xs, freed) =
     (if p = (case xs of [] \<Rightarrow> 0 | x # _ \<Rightarrow> x) then Some (xs, freed) else None)"
| "stack_spec ob (StackContains x) (Result b) (xs, freed) =
     (if b = list_ex (\<lambda>y. fnObjectEquals ob y x) xs then Some (xs, freed) else None)"
| "stack_spec ob StackCount (Number n) (xs, freed) = (if n = length xs then Some (xs, freed) else None)"
| "stack_spec ob StackClear (Result True) (xs, freed) =
     Some ([], freed @ concat (map (free_object ob) (rev xs)))"
| "stack_spec ob _ _ _ = None"

lemma push_spec:
  assumes "st_inv s"
  shows "Stack_Push A x s = Done () s \<or>
    (\<exists>a c. Stack_Push A x s = Done () (s\<lparr>st_array := a, st_capacity := c, st_size := st_size s + 1\<rparr>) \<and>
      length a = c \<and> 8 * c \<le> PTRDIFF_MAX \<and> st_size s < c \<and> take (st_size s + 1) a = take (st_size s) (st_array s) @ [x])"
proof -
  note D = st_invD [OF assms]
  let ?n = "st_size s"
  have put: "take (?n + 1) (a[?n := x]) = take ?n a @ [x]" if "?n < length a" for a
    using that by (simp add: take_Suc_conv_app_nth)
  have assertion: "run_assert (?n < SIZE_MAX) s = Done () s" using D by (simp add: run_assert_def SIZE_MAX_def)
  show ?thesis
  proof (cases "?n + 1 \<ge> st_capacity s")
    case True
    obtain m where m: "Stack_new_cap (?n + 1) (st_capacity s) = Some m" "?n + 1 < m" "st_capacity s \<le> m" "m < 2 ^ 61"
      using new_cap_Some [of "?n + 1" "st_capacity s"] D by auto
    then have mul: "size_mul 8 m = 8 * m" by (simp add: size_mul_def)
    show ?thesis
    proof (cases "realloc_array A (st_array s) (8 * m)")
      case None
      then show ?thesis using True m mul assertion by (simp add: Stack_Push_def)
    next
      case (Some a)
      note a = realloc_array_Some [OF Some]
      have "length a = m" "take (st_capacity s) a = st_array s" "8 * m \<le> PTRDIFF_MAX" using a m D by simp_all
      moreover from this have "take ?n a = take ?n (st_array s)" using D(1) by (metis min.absorb1 take_take)
      moreover have "Stack_Push A x s = Done () (s\<lparr>st_array := a[?n := x], st_capacity := m, st_size := ?n + 1\<rparr>)"
        using True m mul assertion Some a D by (simp add: Stack_Push_def Let_def)
      ultimately show ?thesis using m put [of a] by (intro disjI2 exI [of _ "a[?n := x]"] exI [of _ m]) simp
    qed
  next
    case False
    then have "Stack_Push A x s = Done () (s\<lparr>st_array := (st_array s)[?n := x], st_capacity := st_capacity s, st_size := ?n + 1\<rparr>)"
      using assertion D by (simp add: Stack_Push_def Let_def)
    then show ?thesis using False D put [of "st_array s"] assms
      by (intro disjI2 exI [of _ "(st_array s)[?n := x]"] exI [of _ "st_capacity s"]) (simp add: st_inv_def)
  qed
qed

lemma top_spec:
  assumes "st_inv s"
  shows "st_size s > 0 \<Longrightarrow> rev (take (st_size s) (st_array s)) =
    st_array s ! (st_size s - 1) # rev (take (st_size s - 1) (st_array s))"
  using st_invD [OF assms] take_Suc_conv_app_nth [of "st_size s - 1" "st_array s"] by simp

lemma stack_step_simulates:
  assumes "st_inv s"
  shows "\<exists>r t. stack_step A p s = Done r t \<and> st_inv t \<and> st_object t = st_object s \<and>
    stack_spec (st_object s) p r (st_abs s) = Some (st_abs t)"
proof -
  note D = st_invD [OF assms]
  show ?thesis
  proof (cases p)
    case (StackPush x)
    then show ?thesis using push_spec [OF assms, of A x] assms
      by (auto simp: st_abs_def Stack_Count_def st_inv_def)
  next
    case StackPop
    show ?thesis
    proof (cases "st_size s > 0")
      case True
      then show ?thesis using StackPop D top_spec [OF assms True] assms by (auto simp: Stack_Pop_def st_abs_def st_inv_def)
    next
      case False
      then show ?thesis using StackPop assms by (simp add: Stack_Pop_def st_abs_def)
    qed
  next
    case StackPeek
    show ?thesis
    proof (cases "st_size s > 0")
      case True
      then show ?thesis using StackPeek D top_spec [OF assms True] assms by (auto simp: Stack_Peek_def st_abs_def)
    next
      case False
      then show ?thesis using StackPeek assms by (simp add: Stack_Peek_def st_abs_def)
    qed
  next
    case (StackContains x)
    then show ?thesis using D assms first_match_list_ex
      by (simp add: Stack_Contains_def st_abs_def first_slot_all list_ex_iff)
  next
    case StackCount
    then show ?thesis using D assms by (simp add: Stack_Count_def st_abs_def)
  next
    case StackClear
    then show ?thesis using D assms by (auto simp: Stack_Clear_def mem_read_def mem_write_def st_abs_def st_inv_def)
  qed
qed

interpretation object_stack: simulation "\<lambda>s. st_inv s \<and> st_object s = ob" st_abs "stack_step A" "stack_spec ob" for A ob
  using stack_step_simulates by unfold_locales metis

section \<open>Searches\<close>

text \<open>The last match in a list.\<close>

definition last_match :: "('a \<Rightarrow> bool) \<Rightarrow> 'a list \<Rightarrow> nat option" where
  "last_match P xs = map_option (\<lambda>i. length xs - 1 - i) (first_match P (rev xs))"

lemma last_slot_inside:
  "sindex + n \<le> length a \<Longrightarrow> last_slot P a sindex n =
     Some (case last_match P (take n (drop sindex a)) of None \<Rightarrow> - 1 | Some i \<Rightarrow> int (sindex + i + 1))"
proof (induction n)
  case (Suc n)
  then have t: "take (Suc n) (drop sindex a) = take n (drop sindex a) @ [a ! (sindex + n)]"
    by (simp add: take_Suc_conv_app_nth)
  let ?f = "first_match P (rev (take n (drop sindex a)))"
  have "last_match P (take n (drop sindex a) @ [y]) =
      (if P y then Some n else last_match P (take n (drop sindex a)))" for y
    using Suc.prems by (simp add: last_match_def option.map_comp o_def)
  then show ?case using Suc unfolding t by simp
qed (simp add: last_match_def)

text \<open>C17. The array list is a list. From any well-formed array list whose clone function succeeds,
  whatever the allocator does, any sequence of appends, inserts, removals, assignments, look-ups and
  clears runs without an abort and answers as the same operations on a list do, where only an append
  or insert without memory may fail, which leaves the list unchanged; each object that is removed or
  cleared is released exactly then. The list stays well formed and keeps its object functions. A new
  list is well formed and empty. Within the list, the search from the front finds the first match.\<close>

theorem arraylist_is_list:
  assumes "al_inv l" "clones (al_object l)"
  shows "(\<exists>rs t. run_ops (list_step A) ps l = Some (rs, t) \<and> al_inv t \<and> al_object t = al_object l \<and>
      spec_ops (list_spec (al_object l)) ps rs (al_items l, al_freed l) = Some (al_items t, al_freed t))
    \<and> (\<forall>new. ArrayList_New A ok = Some new \<longrightarrow> al_inv new \<and> al_items new = [] \<and> clones (al_object new))
    \<and> (\<forall>i n. i + n \<le> length (al_items l) \<longrightarrow>
        ArrayList_IndexOf l x (int i) (int n) =
          Done (case first_match (\<lambda>y. fnObjectEquals (al_object l) y x) (take n (drop i (al_items l))) of
                  None \<Rightarrow> - 1 | Some k \<Rightarrow> int (i + k)) l)"
proof -
  have run: "\<exists>rs t. run_ops (list_step A) ps l = Some (rs, t) \<and> al_inv t \<and> al_object t = al_object l \<and>
      spec_ops (list_spec (al_object l)) ps rs (al_items l, al_freed l) = Some (al_items t, al_freed t)"
    using array_list.simulated [of l "al_object l" A ps] assms unfolding al_abs_def by blast
  have new: "al_inv new \<and> al_items new = [] \<and> clones (al_object new)" if "ArrayList_New A ok = Some new" for new
  proof -
    let ?l = "\<lparr>al_capacity = 0, al_growthFactor = 2, al_size = 0, al_array = [], al_object = default_object, al_freed = []\<rparr>"
    have "al_inv ?l" by (simp add: al_inv_def)
    then show ?thesis using that ensure_list [of ?l 32 A]
      by (auto simp: ArrayList_New_def al_items_def clones_def new_object_def default_object_def split: if_splits outcome.splits)
  qed
  have search: "ArrayList_IndexOf l x (int i) (int n) =
      Done (case first_match (\<lambda>y. fnObjectEquals (al_object l) y x) (take n (drop i (al_items l))) of
              None \<Rightarrow> - 1 | Some k \<Rightarrow> int (i + k)) l" if "i + n \<le> length (al_items l)" for i n
  proof -
    have i: "i + n \<le> al_size l" using that assms(1) by simp
    then have t: "take n (drop i (al_array l)) = take n (drop i (al_items l))"
      by (simp add: al_items_def drop_take min_absorb1)
    have "int i + int n \<le> int PTRDIFF_MAX" using i al_invD [OF assms(1)] by (simp add: PTRDIFF_MAX_def)
    then show ?thesis
      using i al_invD [OF assms(1)] by (simp add: ArrayList_IndexOf_def Let_def first_slot_inside t split: option.splits)
  qed
  show ?thesis using run new search by blast
qed

theorem arraylist_is_list_witness:
  "\<exists>l rs t. ArrayList_New plain_allocator True = Some l \<and>
     run_ops (list_step plain_allocator) [ListAppend 7, ListInsert 0 8, ListRemove 7, ListGet 0] l = Some (rs, t) \<and>
     spec_ops (list_spec (al_object l)) [ListAppend 7, ListInsert 0 8, ListRemove 7, ListGet 0] rs (al_items l, al_freed l) =
       Some (al_items t, al_freed t)"
proof -
  let ?l = "\<lparr>al_capacity = 0, al_growthFactor = 2, al_size = 0, al_array = [], al_object = default_object, al_freed = []\<rparr>"
  have "al_inv ?l" "clones (al_object ?l)" by (simp_all add: al_inv_def clones_def default_object_def new_object_def)
  note made = arraylist_is_list [OF this, of plain_allocator "[]" True]
  obtain l where l: "ArrayList_New plain_allocator True = Some l"
    by (simp add: ArrayList_New_def ArrayList_EnsureCapacity_def run_assert_def realloc_array_def plain_allocator_def
        PTRDIFF_MAX_def size_mul_def)
  then have "al_inv l" "clones (al_object l)" using made by blast+
  from arraylist_is_list [OF this, of plain_allocator "[ListAppend 7, ListInsert 0 8, ListRemove 7, ListGet 0]"] l
  show ?thesis by blast
qed

text \<open>C18. The stack is a stack. From any well-formed stack, whatever the allocator does, any sequence
  of pushes, pops, peeks, searches and clears runs without an abort, the capacity loop included, and
  answers as the same operations on a list with its top in front, where a push without memory leaves
  the stack unchanged. A new stack is well formed and empty. Freeing a stack releases nothing more
  than what a clear has released before.\<close>

theorem stack_is_stack:
  assumes "st_inv s"
  shows "(\<exists>rs t. run_ops (stack_step A) ps s = Some (rs, t) \<and> st_inv t \<and>
      spec_ops (stack_spec (st_object s)) ps rs (st_abs s) = Some (st_abs t) \<and> Stack_Free t = snd (st_abs t))
    \<and> (\<forall>new. Stack_New A ok = Some new \<longrightarrow> st_inv new \<and> st_abs new = ([], []))"
proof -
  have "st_inv new \<and> st_abs new = ([], [])" if "Stack_New A ok = Some new" for new
    using that by (auto simp: Stack_New_def st_inv_def st_abs_def dest: calloc_array_Some split: if_splits option.splits)
  then show ?thesis using object_stack.simulated [of s "st_object s" A ps] assms by (auto simp: Stack_Free_def st_abs_def)
qed

theorem stack_is_stack_witness:
  "\<exists>s rs t. Stack_New plain_allocator True = Some s \<and>
     run_ops (stack_step plain_allocator) [StackPush 7, StackPush 8, StackPop, StackPeek] s = Some (rs, t) \<and>
     spec_ops (stack_spec (st_object s)) [StackPush 7, StackPush 8, StackPop, StackPeek] rs (st_abs s) = Some (st_abs t)"
proof -
  obtain s where s: "Stack_New plain_allocator True = Some s"
    by (simp add: Stack_New_def calloc_array_def plain_allocator_def PTRDIFF_MAX_def)
  then have "st_inv s"
    by (auto simp: Stack_New_def st_inv_def dest: calloc_array_Some split: option.splits)
  from stack_is_stack [OF this, of plain_allocator "[StackPush 7, StackPush 8, StackPop, StackPeek]"] s
  show ?thesis by blast
qed

text \<open>C33. Where the array list departs from a list. \<open>ArrayList_LastIndexOf\<close> answers one more than the
  index of the last match; a search from a start index with the count left open runs past the size by
  that start index, and out of the block when the list fills it and nothing matches; an insert
  beyond the end reports success and does nothing; and an append whose clone fails reports the
  failure but leaves a null object in the list.\<close>

theorem arraylist_departures:
  assumes "al_inv l"
  shows "(\<forall>k. last_match (\<lambda>y. fnObjectEquals (al_object l) y x) (al_items l) = Some k \<longrightarrow>
        ArrayList_LastIndexOf l x 0 (- 1) = Done (int k + 1) l)
    \<and> (al_size l = al_capacity l \<and> 0 < start \<and> start \<le> int (al_size l) \<and>
        first_match (\<lambda>y. fnObjectEquals (al_object l) y x) (al_items l) = None \<longrightarrow>
        ArrayList_IndexOf l x start (- 1) = Abort)
    \<and> (index > al_size l \<longrightarrow> ArrayList_Insert A l index x = Done () l)
    \<and> (al_size l < al_capacity l \<and> fnObjectNew (al_object l) = Some (\<lambda>_. 0) \<and> x \<noteq> 0 \<longrightarrow>
        (\<exists>t. ArrayList_Append A l x = Fail t \<and> al_items t = al_items l @ [0]))"
proof (intro conjI allI impI; (elim conjE)?)
  note D = al_invD [OF assms]
  have max: "al_size l \<le> PTRDIFF_MAX" using D by (simp add: PTRDIFF_MAX_def)
  fix k
  assume "last_match (\<lambda>y. fnObjectEquals (al_object l) y x) (al_items l) = Some k"
  then show "ArrayList_LastIndexOf l x 0 (- 1) = Done (int k + 1) l"
    using D max by (simp add: ArrayList_LastIndexOf_def run_assert_def last_slot_inside al_items_def)
next
  note D = al_invD [OF assms]
  assume a: "al_size l = al_capacity l" "0 < start" "start \<le> int (al_size l)"
    "first_match (\<lambda>y. fnObjectEquals (al_object l) y x) (al_items l) = None"
  have out: "first_slot P a i n = None" if "i \<le> length a" "length a < i + n" "first_match P a = None" for P a i n
    using that
  proof (induction n arbitrary: i)
    case (Suc n)
    then show ?case by (cases "i = length a") (auto simp: array_get_def first_match_None)
  qed simp
  have "first_slot (\<lambda>y. fnObjectEquals (al_object l) y x) (al_array l) (nat start) (al_size l) = None"
    using a D by (intro out) (auto simp: al_items_def)
  moreover have "start + int (al_size l) \<le> int PTRDIFF_MAX" "al_size l \<le> PTRDIFF_MAX" using a D by (simp_all add: PTRDIFF_MAX_def)
  ultimately show "ArrayList_IndexOf l x start (- 1) = Abort"
    using a(2) by (simp add: ArrayList_IndexOf_def Let_def)
next
  note D = al_invD [OF assms]
  assume "al_size l < al_capacity l" "fnObjectNew (al_object l) = Some (\<lambda>_. 0)" "x \<noteq> 0"
  then show "\<exists>t. ArrayList_Append A l x = Fail t \<and> al_items t = al_items l @ [0]"
    using D by (simp add: ArrayList_Append_def ArrayList_EnsureCapacity_def run_assert_def ArrayList_SetItem_def run_guard_def
        al_items_def take_Suc_conv_app_nth)
qed (simp add: ArrayList_Insert_def)

definition sample_list :: "nat \<Rightarrow> ptr list \<Rightarrow> wObject \<Rightarrow> wArrayList" where
  "sample_list n xs ob = \<lparr>al_capacity = length xs, al_growthFactor = 2, al_size = n, al_array = xs, al_object = ob, al_freed = []\<rparr>"

theorem arraylist_departures_witness:
  "ArrayList_LastIndexOf (sample_list 3 [7, 8, 7] default_object) 7 0 (- 1) = Done 3 (sample_list 3 [7, 8, 7] default_object) \<and>
   ArrayList_IndexOf (sample_list 3 [7, 8, 7] default_object) 5 1 (- 1) = Abort \<and>
   ArrayList_Insert plain_allocator (sample_list 3 [7, 8, 7] default_object) 9 5 = Done () (sample_list 3 [7, 8, 7] default_object) \<and>
   (\<exists>t. ArrayList_Append plain_allocator (sample_list 1 [7, 8] (default_object\<lparr>fnObjectNew := Some (\<lambda>_. 0)\<rparr>)) 5 = Fail t \<and>
      al_items t = [7, 0])"
proof -
  let ?a = "sample_list 3 [7, 8, 7] default_object" and ?b = "sample_list 1 [7, 8] (default_object\<lparr>fnObjectNew := Some (\<lambda>_. 0)\<rparr>)"
  have "al_inv ?a" "al_inv ?b" by (simp_all add: al_inv_def sample_list_def PTRDIFF_MAX_def)
  then have a: "(\<forall>k. last_match (\<lambda>y. fnObjectEquals (al_object ?a) y 7) (al_items ?a) = Some k \<longrightarrow>
        ArrayList_LastIndexOf ?a 7 0 (- 1) = Done (int k + 1) ?a)"
    and b: "al_size ?a = al_capacity ?a \<and> 0 < (1::int) \<and> 1 \<le> int (al_size ?a) \<and>
        first_match (\<lambda>y. fnObjectEquals (al_object ?a) y 5) (al_items ?a) = None \<longrightarrow> ArrayList_IndexOf ?a 5 1 (- 1) = Abort"
    and c: "9 > al_size ?a \<longrightarrow> ArrayList_Insert plain_allocator ?a 9 5 = Done () ?a"
    and d: "al_size ?b < al_capacity ?b \<and> fnObjectNew (al_object ?b) = Some (\<lambda>_. 0) \<and> (5::ptr) \<noteq> 0 \<longrightarrow>
        (\<exists>t. ArrayList_Append plain_allocator ?b 5 = Fail t \<and> al_items t = al_items ?b @ [0])"
    using arraylist_departures by blast+
  show ?thesis using a b c d by (simp add: sample_list_def al_items_def last_match_def default_object_def)
qed

end
