(* ===== verification/Hash_Table.thy ===== *)
theory Hash_Table
  imports Object_List "HOL-Library.Multiset"
begin

text \<open>
  The hash table of \<open>winpr/libwinpr/utils/collections/HashTable.c\<close>: an array of chains that grows
  when the chains get long. A chain is the list of its pairs, linked from its head; a table owns its
  pairs, so no two chains share one. The theory shows that any sequence of operations is one on a
  finite map, through every rehash, that \<open>HashTable_Foreach\<close> may remove what it visits, and what
  happens where its protocol for removals breaks.
\<close>

section \<open>Single precision arithmetic\<close>

text \<open>
  The fill ratio is computed in \<open>float\<close>. A non-negative \<open>float\<close> is a pair of a mantissa and a count
  of binary places; an integer and a quotient are rounded to 24 bits, to the nearest and to even.
\<close>

fun bit_length :: "nat \<Rightarrow> nat" where
  "bit_length n = (if n = 0 then 0 else Suc (bit_length (n div 2)))"

declare bit_length.simps [simp del]

definition round_quotient :: "nat \<Rightarrow> nat \<Rightarrow> nat" where
  "round_quotient a b =
     (let q = a div b; r = a mod b in if 2 * r > b \<or> 2 * r = b \<and> odd q then q + 1 else q)"

definition float_of_size :: "nat \<Rightarrow> nat" where
  "float_of_size n = (let s = bit_length n - 24 in round_quotient n (2 ^ s) * 2 ^ s)"

definition float_quotient :: "nat \<Rightarrow> nat \<Rightarrow> nat \<times> int" where
  "float_quotient a b =
     (let s = int (bit_length b) - int (bit_length a) + 24;
          s = (if a * 2 ^ nat s div (b * 2 ^ nat (- s)) \<ge> 2 ^ 24 then s - 1 else s)
      in (round_quotient (a * 2 ^ nat s) (b * 2 ^ nat (- s)), s))"

definition float_above :: "nat \<times> int \<Rightarrow> nat \<Rightarrow> bool" where
  "float_above f k = (case f of (m, s) \<Rightarrow> m * 2 ^ nat (- s) > k * 2 ^ nat s)"

definition float_below :: "nat \<times> int \<Rightarrow> nat \<Rightarrow> bool" where
  "float_below f k = (case f of (m, s) \<Rightarrow> m * 2 ^ nat (- s) < k * 2 ^ nat s)"

definition float_truncate :: "nat \<times> int \<Rightarrow> nat" where
  "float_truncate f = (case f of (m, s) \<Rightarrow> m * 2 ^ nat (- s) div 2 ^ nat s)"

section \<open>State\<close>

record wKeyValuePair =
  pkey :: ptr
  pvalue :: ptr
  markedForRemove :: bool

text \<open>The key and value functions release what the two lists at the end record.\<close>

record wHashTable =
  numOfBuckets :: nat
  numOfElements :: nat
  bucketArray :: "wKeyValuePair list list"
  ht_hash :: "ptr \<Rightarrow> u32"
  ht_key :: wObject
  ht_value :: wObject
  foreachRecursionLevel :: u32
  pendingRemoves :: u32
  freedKeys :: "ptr list"
  freedValues :: "ptr list"

text \<open>The three ratios never change.\<close>

definition idealRatio :: nat where
  "idealRatio = 3"

definition lowerRehashThreshold :: nat where
  "lowerRehashThreshold = 0"

definition upperRehashThreshold :: nat where
  "upperRehashThreshold = 15"

definition HashTable_PointerCompare :: "ptr \<Rightarrow> ptr \<Rightarrow> bool" where
  "HashTable_PointerCompare pointer1 pointer2 \<longleftrightarrow> pointer1 = pointer2"

definition HashTable_PointerHash :: "ptr \<Rightarrow> u32" where
  "HashTable_PointerHash pointer = drop_bit 4 (ucast pointer)"

text \<open>The characters at a pointer are those of the application's memory, up to the terminator.\<close>

definition HashTable_StringCompare :: "(ptr \<Rightarrow> byte list) \<Rightarrow> ptr \<Rightarrow> ptr \<Rightarrow> bool" where
  "HashTable_StringCompare chars string1 string2 \<longleftrightarrow>
     (if string1 = 0 \<or> string2 = 0 then string1 = string2 else chars string1 = chars string2)"

definition HashTable_StringHash :: "(ptr \<Rightarrow> byte list) \<Rightarrow> ptr \<Rightarrow> u32" where
  "HashTable_StringHash chars key = foldl (\<lambda>hash c. hash * 33 + ucast c) 5381 (chars key)"

section \<open>Buckets\<close>

fun HashTable_IsProbablePrime_loop :: "u64 \<Rightarrow> nat list \<Rightarrow> bool" where
  "HashTable_IsProbablePrime_loop oddNumber [] = True"
| "HashTable_IsProbablePrime_loop oddNumber (i # is) =
     (if unat oddNumber = i then True
      else if unat oddNumber mod i = 0 then False
      else HashTable_IsProbablePrime_loop oddNumber is)"

definition HashTable_IsProbablePrime :: "u64 \<Rightarrow> bool" where
  "HashTable_IsProbablePrime oddNumber =
     HashTable_IsProbablePrime_loop oddNumber (map (\<lambda>j. 3 + 2 * j) [0..<24])"

lemma probable_prime_small:
  "HashTable_IsProbablePrime 1" "HashTable_IsProbablePrime 2" "\<not> HashTable_IsProbablePrime 0"
  by (simp_all add: HashTable_IsProbablePrime_def upt_conv_Cons)

function HashTable_next_prime :: "u64 \<Rightarrow> u64" where
  "HashTable_next_prime n = (if HashTable_IsProbablePrime n then n else HashTable_next_prime (n + 2))"
  by auto
termination
proof (relation "measure (\<lambda>n. if n = 0 then 1 else if n \<le> 2 then 0 else 2 ^ 64 - unat n + 2)")
  fix n :: u64
  assume not_prime: "\<not> HashTable_IsProbablePrime n"
  show "(n + 2, n) \<in> measure (\<lambda>n. if n = 0 then 1 else if n \<le> 2 then 0 else 2 ^ 64 - unat n + 2)"
  proof (cases "n \<le> 2")
    case True
    then have "unat n \<le> 2" by (simp add: word_le_nat_alt)
    then have "unat n = 0 \<or> unat n = 1 \<or> unat n = 2" by linarith
    then have "n = 0 \<or> n = 1 \<or> n = 2" by (simp add: word_unat_eq_iff)
    then have "n = 0" using not_prime probable_prime_small by auto
    then show ?thesis by simp
  next
    case False
    then have n: "unat n > 2" by (simp add: word_le_nat_alt)
    have "unat (n + 2) = (unat n + 2) mod 2 ^ 64" by (simp add: unat_word_ariths)
    then show ?thesis using n unsigned_less [of n, where 'a = nat]
      by (cases "unat n + 2 < 2 ^ 64") (auto simp: word_le_nat_alt le_mod_geq)
  qed
qed simp

declare HashTable_next_prime.simps [simp del]

definition HashTable_CalculateIdealNumOfBuckets :: "wHashTable \<Rightarrow> nat" where
  "HashTable_CalculateIdealNumOfBuckets t =
     (let tmp = float_quotient (float_of_size (numOfElements t)) idealRatio;
          idealNumOfBuckets = (of_nat (float_truncate tmp) :: u64);
          idealNumOfBuckets = (if idealNumOfBuckets < 5 then 5 else idealNumOfBuckets OR 1)
      in unat (HashTable_next_prime idealNumOfBuckets))"

definition bucket_of :: "(ptr \<Rightarrow> u32) \<Rightarrow> nat \<Rightarrow> ptr \<Rightarrow> nat" where
  "bucket_of h n key = unat (h key) mod n"

text \<open>Every pair in turn moves to the front of its new chain.\<close>

definition HashTable_move :: "(ptr \<Rightarrow> u32) \<Rightarrow> nat \<Rightarrow> wKeyValuePair \<Rightarrow> wKeyValuePair list list \<Rightarrow> wKeyValuePair list list" where
  "HashTable_move h n p bs = (let i = bucket_of h n (pkey p) in bs[i := p # bs ! i])"

definition HashTable_Rehash :: "allocator \<Rightarrow> wHashTable \<Rightarrow> nat \<Rightarrow> wHashTable" where
  "HashTable_Rehash A t buckets =
     (let n = (if buckets = 0 then HashTable_CalculateIdealNumOfBuckets t else buckets) in
      if n = numOfBuckets t then t
      else
        case calloc_array A n of
          None \<Rightarrow> t
        | Some _ \<Rightarrow>
            t\<lparr>bucketArray := fold (HashTable_move (ht_hash t) n) (concat (take (numOfBuckets t) (bucketArray t)))
                (replicate n []),
              numOfBuckets := n\<rparr>)"

definition HashTable_Equals :: "wHashTable \<Rightarrow> wKeyValuePair \<Rightarrow> ptr \<Rightarrow> bool" where
  "HashTable_Equals t pair key = fnObjectEquals (ht_key t) key (pkey pair)"

text \<open>The chain of a key and the position of the key in it; there is no chain without buckets.\<close>

definition key_chain :: "wHashTable \<Rightarrow> ptr \<Rightarrow> (nat \<times> wKeyValuePair list) option" where
  "key_chain t key =
     (let i = bucket_of (ht_hash t) (numOfBuckets t) key in
      if numOfBuckets t = 0 \<or> i \<ge> length (bucketArray t) then None else Some (i, bucketArray t ! i))"

definition HashTable_Get :: "wHashTable \<Rightarrow> ptr \<Rightarrow> (wKeyValuePair option, wHashTable) outcome" where
  "HashTable_Get t key =
     (if key = 0 then Done None t
      else run_mem (key_chain t key) (\<lambda>(i, chain).
        Done (map_option (nth chain) (first_match (\<lambda>p. HashTable_Equals t p key) chain)) t))"

definition disposeKey :: "ptr \<Rightarrow> wHashTable \<Rightarrow> wHashTable" where
  "disposeKey key t = t\<lparr>freedKeys := freedKeys t @ free_object (ht_key t) key\<rparr>"

definition disposeValue :: "ptr \<Rightarrow> wHashTable \<Rightarrow> wHashTable" where
  "disposeValue v t = t\<lparr>freedValues := freedValues t @ free_object (ht_value t) v\<rparr>"

definition disposePair :: "wKeyValuePair \<Rightarrow> wHashTable \<Rightarrow> wHashTable" where
  "disposePair pair t = disposeValue (pvalue pair) (disposeKey (pkey pair) t)"

definition setKey :: "ptr \<Rightarrow> wKeyValuePair \<times> wHashTable \<Rightarrow> wKeyValuePair \<times> wHashTable" where
  "setKey key = (\<lambda>(pair, t). (pair\<lparr>pkey := new_object (ht_key t) key\<rparr>, disposeKey (pkey pair) t))"

definition setValue :: "ptr \<Rightarrow> wKeyValuePair \<times> wHashTable \<Rightarrow> wKeyValuePair \<times> wHashTable" where
  "setValue v = (\<lambda>(pair, t). (pair\<lparr>pvalue := new_object (ht_value t) v\<rparr>, disposeValue (pvalue pair) t))"

definition put_pair :: "nat \<Rightarrow> wKeyValuePair list \<Rightarrow> wHashTable \<Rightarrow> wHashTable" where
  "put_pair i chain t = t\<lparr>bucketArray := (bucketArray t)[i := chain]\<rparr>"

section \<open>Operations\<close>

definition HashTable_Count :: "wHashTable \<Rightarrow> nat" where
  "HashTable_Count t = numOfElements t"

text \<open>The two branches of the insertion: the pair is there, or a new one goes in front of the chain.\<close>

definition HashTable_Insert_found :: "wHashTable \<Rightarrow> nat \<Rightarrow> wKeyValuePair list \<Rightarrow> nat \<Rightarrow> ptr \<Rightarrow> ptr \<Rightarrow> wHashTable" where
  "HashTable_Insert_found t i chain j key v =
     (let pair = chain ! j;
          (pair, t) = (if markedForRemove pair
            then (pair\<lparr>markedForRemove := False\<rparr>,
                  t\<lparr>pendingRemoves := pendingRemoves t - 1, numOfElements := size_add (numOfElements t) 1\<rparr>)
            else (pair, t));
          (pair, t) = (if pkey pair \<noteq> key then setKey key (pair, t) else (pair, t));
          (pair, t) = (if pvalue pair \<noteq> v then setValue v (pair, t) else (pair, t))
      in put_pair i (chain[j := pair]) t)"

definition HashTable_Insert_new :: "allocator \<Rightarrow> wHashTable \<Rightarrow> nat \<Rightarrow> wKeyValuePair list \<Rightarrow> ptr \<Rightarrow> ptr \<Rightarrow> wHashTable" where
  "HashTable_Insert_new A t i chain key v =
     (let (pair, t) = setValue v (setKey key (\<lparr>pkey = 0, pvalue = 0, markedForRemove = False\<rparr>, t));
          t = (put_pair i (pair # chain) t)\<lparr>numOfElements := size_add (numOfElements t) 1\<rparr>
      in
      if foreachRecursionLevel t = 0 \<and> upperRehashThreshold > idealRatio \<and>
         float_above (float_quotient (float_of_size (numOfElements t)) (float_of_size (numOfBuckets t))) upperRehashThreshold
      then HashTable_Rehash A t 0 else t)"

definition HashTable_Insert :: "allocator \<Rightarrow> wHashTable \<Rightarrow> ptr \<Rightarrow> ptr \<Rightarrow> (unit, wHashTable) outcome" where
  "HashTable_Insert A t key v =
     (if key = 0 \<or> v = 0 then Fail t
      else run_mem (key_chain t key) (\<lambda>(i, chain).
        case first_match (\<lambda>p. HashTable_Equals t p key) chain of
          Some j \<Rightarrow> Done () (HashTable_Insert_found t i chain j key v)
        | None \<Rightarrow>
            if c_calloc A 32 = None then Fail t else Done () (HashTable_Insert_new A t i chain key v)))"

definition HashTable_Remove :: "allocator \<Rightarrow> wHashTable \<Rightarrow> ptr \<Rightarrow> (unit, wHashTable) outcome" where
  "HashTable_Remove A t key =
     (if key = 0 then Fail t
      else run_mem (key_chain t key) (\<lambda>(i, chain).
        case first_match (\<lambda>p. HashTable_Equals t p key) chain of
          None \<Rightarrow> Fail t
        | Some j \<Rightarrow>
            if foreachRecursionLevel t \<noteq> 0 then
              Done () ((put_pair i (chain[j := (chain ! j)\<lparr>markedForRemove := True\<rparr>]) t)
                \<lparr>pendingRemoves := pendingRemoves t + 1, numOfElements := size_sub (numOfElements t) 1\<rparr>)
            else
              let t = disposePair (chain ! j) (put_pair i (take j chain @ drop (j + 1) chain) t);
                  t = t\<lparr>numOfElements := size_sub (numOfElements t) 1\<rparr>
              in
              Done () (if foreachRecursionLevel t = 0 \<and> lowerRehashThreshold > 0 \<and>
                  float_below (float_quotient (float_of_size (numOfElements t)) (float_of_size (numOfBuckets t))) lowerRehashThreshold
                then HashTable_Rehash A t 0 else t)))"

definition HashTable_GetItemValue :: "wHashTable \<Rightarrow> ptr \<Rightarrow> (ptr, wHashTable) outcome" where
  "HashTable_GetItemValue t key =
     run_bind (HashTable_Get t key) (\<lambda>found t.
       Done (case found of None \<Rightarrow> 0 | Some pair \<Rightarrow> if markedForRemove pair then 0 else pvalue pair) t)"

definition HashTable_SetItemValue :: "wHashTable \<Rightarrow> ptr \<Rightarrow> ptr \<Rightarrow> (unit, wHashTable) outcome" where
  "HashTable_SetItemValue t key v =
     (if key = 0 then Fail t
      else run_mem (key_chain t key) (\<lambda>(i, chain).
        case first_match (\<lambda>p. HashTable_Equals t p key) chain of
          None \<Rightarrow> Fail t
        | Some j \<Rightarrow>
            if markedForRemove (chain ! j) then Fail t
            else
              let (pair, t) = setValue v (chain ! j, t) in Done () (put_pair i (chain[j := pair]) t)))"

definition HashTable_Contains :: "wHashTable \<Rightarrow> ptr \<Rightarrow> (bool, wHashTable) outcome" where
  "HashTable_Contains t key =
     run_bind (HashTable_Get t key) (\<lambda>found t.
       Done (case found of None \<Rightarrow> False | Some pair \<Rightarrow> \<not> markedForRemove pair) t)"

definition HashTable_ContainsKey :: "wHashTable \<Rightarrow> ptr \<Rightarrow> (bool, wHashTable) outcome" where
  "HashTable_ContainsKey t key =
     run_bind (HashTable_Get t key) (\<lambda>found t.
       Done (case found of None \<Rightarrow> False | Some pair \<Rightarrow> \<not> markedForRemove pair) t)"

text \<open>The value is compared with the keys.\<close>

definition HashTable_ContainsValue :: "wHashTable \<Rightarrow> ptr \<Rightarrow> (bool, wHashTable) outcome" where
  "HashTable_ContainsValue t v =
     (if v = 0 then Done False t
      else run_mem (mem_read (bucketArray t) 0 (numOfBuckets t)) (\<lambda>buckets.
        Done (list_ex (\<lambda>p. \<not> markedForRemove p \<and> HashTable_Equals t p v) (concat buckets)) t))"

text \<open>
  The loop of \<open>HashTable_Clear\<close> over one chain. Inside a \<open>HashTable_Foreach\<close> it marks the first pair
  again and again.
\<close>

partial_function (option) HashTable_Clear_chain :: "wKeyValuePair list \<Rightarrow> wHashTable \<Rightarrow> wHashTable option" where
  "HashTable_Clear_chain chain t =
     (case chain of
        [] \<Rightarrow> Some t
      | pair # nextPair \<Rightarrow>
          if foreachRecursionLevel t \<noteq> 0 then
            HashTable_Clear_chain (pair\<lparr>markedForRemove := True\<rparr> # nextPair) (t\<lparr>pendingRemoves := pendingRemoves t + 1\<rparr>)
          else HashTable_Clear_chain nextPair (disposePair pair t))"

fun HashTable_Clear_buckets :: "nat \<Rightarrow> nat \<Rightarrow> wHashTable \<Rightarrow> (unit, wHashTable) outcome option" where
  "HashTable_Clear_buckets index 0 t = Some (Done () t)"
| "HashTable_Clear_buckets index (Suc n) t =
     (if index \<ge> length (bucketArray t) then Some Abort
      else Option.bind (HashTable_Clear_chain (bucketArray t ! index) t) (\<lambda>t.
        HashTable_Clear_buckets (index + 1) n (put_pair index [] t)))"

definition HashTable_Clear :: "allocator \<Rightarrow> wHashTable \<Rightarrow> (unit, wHashTable) outcome option" where
  "HashTable_Clear A t =
     map_option (\<lambda>r. run_bind r (\<lambda>_ t.
         let t = t\<lparr>numOfElements := 0\<rparr> in
         Done () (if foreachRecursionLevel t = 0 then HashTable_Rehash A t 5 else t)))
       (HashTable_Clear_buckets 0 (numOfBuckets t) t)"

text \<open>The keys go into an array for as many keys as there are elements.\<close>

definition HashTable_GetKeys :: "allocator \<Rightarrow> wHashTable \<Rightarrow> (ptr list, wHashTable) outcome" where
  "HashTable_GetKeys A t =
     (if numOfElements t < 1 then Done [] t
      else
        case calloc_array A (numOfElements t) of
          None \<Rightarrow> Done [] t
        | Some pKeys \<Rightarrow>
            run_mem (mem_read (bucketArray t) 0 (numOfBuckets t)) (\<lambda>buckets.
            run_mem (mem_write pKeys 0 (map pkey (filter (\<lambda>p. \<not> markedForRemove p) (concat buckets)))) (\<lambda>pKeys.
              Done pKeys t)))"

text \<open>
  A visit of the last \<open>k\<close> pairs of a chain. While a visit is under way, pairs are only added in front
  and none is unlinked, so a pair is found again by its distance from the end. The callback gets the
  key and the value, may use the table, and threads the application's state.
\<close>

fun HashTable_Foreach_chain :: "(ptr \<Rightarrow> ptr \<Rightarrow> 'c \<Rightarrow> wHashTable \<Rightarrow> (bool \<times> 'c, wHashTable) outcome) \<Rightarrow>
    nat \<Rightarrow> nat \<Rightarrow> 'c \<Rightarrow> wHashTable \<Rightarrow> (bool \<times> 'c, wHashTable) outcome" where
  "HashTable_Foreach_chain fn index 0 c t = Done (True, c) t"
| "HashTable_Foreach_chain fn index (Suc k) c t =
     (let chain = bucketArray t ! index in
      if index \<ge> length (bucketArray t) \<or> Suc k > length chain then Abort
      else
        let pair = chain ! (length chain - Suc k) in
        if markedForRemove pair then HashTable_Foreach_chain fn index k c t
        else
          run_bind (fn (pkey pair) (pvalue pair) c t) (\<lambda>(ok, c) t.
            if ok then HashTable_Foreach_chain fn index k c t else Done (False, c) t))"

fun HashTable_Foreach_buckets :: "(ptr \<Rightarrow> ptr \<Rightarrow> 'c \<Rightarrow> wHashTable \<Rightarrow> (bool \<times> 'c, wHashTable) outcome) \<Rightarrow>
    nat \<Rightarrow> nat \<Rightarrow> 'c \<Rightarrow> wHashTable \<Rightarrow> (bool \<times> 'c, wHashTable) outcome" where
  "HashTable_Foreach_buckets fn index 0 c t = Done (True, c) t"
| "HashTable_Foreach_buckets fn index (Suc n) c t =
     (if index \<ge> length (bucketArray t) then Abort
      else
        run_bind (HashTable_Foreach_chain fn index (length (bucketArray t ! index)) c t) (\<lambda>(ok, c) t.
          if ok then HashTable_Foreach_buckets fn (index + 1) n c t else Done (False, c) t))"

text \<open>The pairs marked during the visit are unlinked and released.\<close>

definition HashTable_Cleanup :: "wHashTable \<Rightarrow> wHashTable" where
  "HashTable_Cleanup t =
     (fold disposePair (filter markedForRemove (concat (bucketArray t))) t)
       \<lparr>bucketArray := map (filter (\<lambda>p. \<not> markedForRemove p)) (bucketArray t), pendingRemoves := 0\<rparr>"

definition HashTable_Foreach :: "(ptr \<Rightarrow> ptr \<Rightarrow> 'c \<Rightarrow> wHashTable \<Rightarrow> (bool \<times> 'c, wHashTable) outcome) \<Rightarrow>
    'c \<Rightarrow> wHashTable \<Rightarrow> (bool \<times> 'c, wHashTable) outcome" where
  "HashTable_Foreach fn c t =
     run_bind (HashTable_Foreach_buckets fn 0 (numOfBuckets t) c
         (t\<lparr>foreachRecursionLevel := foreachRecursionLevel t + 1\<rparr>)) (\<lambda>(ret, c) t.
       if \<not> ret then Done (False, c) t
       else
         let t = t\<lparr>foreachRecursionLevel := foreachRecursionLevel t - 1\<rparr> in
         Done (True, c) (if foreachRecursionLevel t = 0 \<and> pendingRemoves t \<noteq> 0 then HashTable_Cleanup t else t))"

definition HashTable_New :: "allocator \<Rightarrow> bool \<Rightarrow> wHashTable option" where
  "HashTable_New A ok =
     (if \<not> ok \<or> calloc_array A 64 = None then None
      else Some \<lparr>numOfBuckets = 64, numOfElements = 0, bucketArray = replicate 64 [], ht_hash = HashTable_PointerHash,
        ht_key = default_object\<lparr>fnObjectEquals := HashTable_PointerCompare\<rparr>,
        ht_value = default_object\<lparr>fnObjectEquals := HashTable_PointerCompare\<rparr>,
        foreachRecursionLevel = 0, pendingRemoves = 0, freedKeys = [], freedValues = []\<rparr>)"

definition HashTable_Free :: "wHashTable \<Rightarrow> (unit, wHashTable) outcome" where
  "HashTable_Free t =
     run_mem (mem_read (bucketArray t) 0 (numOfBuckets t)) (\<lambda>buckets. Done () (fold disposePair (concat buckets) t))"

definition HashTable_SetHashFunction :: "(ptr \<Rightarrow> u32) \<Rightarrow> wHashTable \<Rightarrow> wHashTable" where
  "HashTable_SetHashFunction fn t = t\<lparr>ht_hash := fn\<rparr>"

text \<open>Strings are compared and hashed by their characters, and stored as clones. A clone that runs out
  of memory is null: as in the source, \<open>setKey\<close> then stores a null key.\<close>

definition HashTable_SetupForStringData :: "(ptr \<Rightarrow> byte list) \<Rightarrow> (ptr \<Rightarrow> ptr) \<Rightarrow> bool \<Rightarrow> wHashTable \<Rightarrow> wHashTable" where
  "HashTable_SetupForStringData chars clone stringValues t =
     (let obj = \<lparr>fnObjectNew = Some clone, fnObjectFree = True, fnObjectEquals = HashTable_StringCompare chars\<rparr>;
          t = (HashTable_SetHashFunction (HashTable_StringHash chars) t)\<lparr>ht_key := obj\<rparr>
      in if stringValues then t\<lparr>ht_value := obj\<rparr> else t)"

section \<open>Keys\<close>

text \<open>
  What a table asks of the functions for its keys: the comparison is an equivalence that the hash
  respects, and the copy of a key is an equal key.
\<close>

locale hash_key =
  fixes eq :: "ptr \<Rightarrow> ptr \<Rightarrow> bool" and h :: "ptr \<Rightarrow> u32" and copy :: "ptr \<Rightarrow> ptr"
  assumes eq_refl: "eq x x"
    and eq_sym: "eq x y \<Longrightarrow> eq y x"
    and eq_trans: "eq x y \<Longrightarrow> eq y z \<Longrightarrow> eq x z"
    and hash_cong: "eq x y \<Longrightarrow> h x = h y"
    and copy_key: "x \<noteq> 0 \<Longrightarrow> copy x \<noteq> 0 \<and> eq (copy x) x"

interpretation pointer_keys: hash_key HashTable_PointerCompare HashTable_PointerHash "\<lambda>x. x"
  by unfold_locales (simp_all add: HashTable_PointerCompare_def)

lemma string_keys:
  assumes "\<And>s. s \<noteq> 0 \<Longrightarrow> clone s \<noteq> 0 \<and> chars (clone s) = chars s"
  shows "hash_key (HashTable_StringCompare chars) (HashTable_StringHash chars) clone"
  using assms by unfold_locales (auto simp: HashTable_StringCompare_def HashTable_StringHash_def split: if_splits)

definition key_class :: "(ptr \<Rightarrow> ptr \<Rightarrow> bool) \<Rightarrow> wKeyValuePair \<Rightarrow> ptr set" where
  "key_class eq p = {x. eq x (pkey p)}"

definition lookup :: "(ptr \<Rightarrow> ptr \<Rightarrow> bool) \<Rightarrow> wKeyValuePair list \<Rightarrow> ptr \<Rightarrow> ptr option" where
  "lookup eq ps k = (if k = 0 then None else map_option pvalue (find (\<lambda>p. \<not> markedForRemove p \<and> eq k (pkey p)) ps))"

abbreviation unique_keys :: "(ptr \<Rightarrow> ptr \<Rightarrow> bool) \<Rightarrow> wKeyValuePair list \<Rightarrow> bool" where
  "unique_keys eq ps \<equiv> distinct (map (key_class eq) ps)"

lemma find_append: "find P (xs @ ys) = (case find P xs of None \<Rightarrow> find P ys | Some x \<Rightarrow> Some x)"
  by (induction xs) simp_all

context hash_key
begin

lemma class_equal: "{x. eq x a} = {x. eq x b} \<longleftrightarrow> eq a b"
proof
  assume "{x. eq x a} = {x. eq x b}"
  then show "eq a b" using eq_refl [of a] by blast
next
  assume "eq a b"
  then have "eq x a = eq x b" for x using eq_trans [of x a b] eq_trans [of x b a] eq_sym [of a b] by blast
  then show "{x. eq x a} = {x. eq x b}" by simp
qed

lemma same_class: "key_class eq p = key_class eq q \<longleftrightarrow> eq (pkey p) (pkey q)"
  unfolding key_class_def by (rule class_equal)

lemma unique_split:
  "unique_keys eq (L @ p # R) \<longleftrightarrow> unique_keys eq (L @ R) \<and> (\<forall>q\<in>set (L @ R). \<not> eq (pkey p) (pkey q))"
proof -
  have "unique_keys eq (L @ p # R) \<longleftrightarrow> unique_keys eq (L @ R) \<and> (\<forall>q\<in>set (L @ R). key_class eq p \<noteq> key_class eq q)"
    by auto
  then show ?thesis unfolding same_class .
qed

lemma lookup_split:
  assumes "\<And>q. q \<in> set L \<union> set R \<Longrightarrow> \<not> eq (pkey p) (pkey q)"
  shows "lookup eq (L @ p # R) x =
    (if x \<noteq> 0 \<and> eq x (pkey p) then (if markedForRemove p then None else Some (pvalue p)) else lookup eq (L @ R) x)"
proof (cases "eq x (pkey p)")
  case True
  then have "\<not> eq x (pkey q)" if "q \<in> set L \<union> set R" for q using that assms eq_sym eq_trans by blast
  then have "find (\<lambda>p. \<not> markedForRemove p \<and> eq x (pkey p)) L = None" "find (\<lambda>p. \<not> markedForRemove p \<and> eq x (pkey p)) R = None"
    by (auto simp: find_None_iff)
  then show ?thesis using True by (simp add: lookup_def find_append)
next
  case False
  then show ?thesis by (simp add: lookup_def find_append split: option.splits)
qed

lemma lookup_map_of:
  "k \<noteq> 0 \<Longrightarrow> lookup eq ps k =
     map_of (map (\<lambda>p. (key_class eq p, pvalue p)) (filter (\<lambda>p. \<not> markedForRemove p) ps)) {x. eq x k}"
proof (induction ps)
  case (Cons p ps)
  have "key_class eq p = {x. eq x k} \<longleftrightarrow> eq k (pkey p)"
    unfolding key_class_def class_equal using eq_sym by blast
  then show ?case using Cons by (auto simp: lookup_def)
qed (simp add: lookup_def)

lemma lookup_perm:
  assumes "unique_keys eq ps" "mset ps = mset qs"
  shows "lookup eq ps = lookup eq qs"
proof
  fix k
  let ?f = "\<lambda>p. (key_class eq p, pvalue p)" and ?u = "filter (\<lambda>p. \<not> markedForRemove p)"
  have d: "distinct (map (key_class eq) (?u xs))" if "unique_keys eq xs" for xs using that by (rule distinct_map_filter)
  have "unique_keys eq qs" using assms by (metis mset_eq_imp_distinct_iff mset_map)
  then have "distinct (map fst (map ?f (?u ps)))" "distinct (map fst (map ?f (?u qs)))"
    using d assms(1) by (simp_all add: o_def)
  moreover have "set (map ?f (?u ps)) = set (map ?f (?u qs))" using mset_eq_setD [OF assms(2)] by simp
  ultimately have "map_of (map ?f (?u ps)) = map_of (map ?f (?u qs))" by (rule map_of_inject_set [THEN iffD2])
  then show "lookup eq ps k = lookup eq qs k"
  proof (cases "k = 0")
    case False
    then show ?thesis using \<open>map_of _ = map_of _\<close> by (simp only: lookup_map_of not_False_eq_True)
  qed (simp add: lookup_def)
qed

end

section \<open>The invariant\<close>

abbreviation table_pairs :: "wHashTable \<Rightarrow> wKeyValuePair list" where
  "table_pairs t \<equiv> concat (bucketArray t)"

abbreviation key_equal :: "wHashTable \<Rightarrow> ptr \<Rightarrow> ptr \<Rightarrow> bool" where
  "key_equal t \<equiv> fnObjectEquals (ht_key t)"

text \<open>Each pair is in the chain of its key.\<close>

definition buckets_wf :: "(ptr \<Rightarrow> u32) \<Rightarrow> nat \<Rightarrow> wKeyValuePair list list \<Rightarrow> bool" where
  "buckets_wf h n bs \<longleftrightarrow> length bs = n \<and> (\<forall>i<n. \<forall>p\<in>set (bs ! i). pkey p \<noteq> 0 \<and> bucket_of h n (pkey p) = i)"

definition ht_wf :: "wHashTable \<Rightarrow> bool" where
  "ht_wf t \<longleftrightarrow> 0 < numOfBuckets t \<and> buckets_wf (ht_hash t) (numOfBuckets t) (bucketArray t) \<and>
     unique_keys (key_equal t) (table_pairs t)"

text \<open>The application's functions for the keys fit; in particular the copy of a key never fails.\<close>

definition keys_fit :: "wHashTable \<Rightarrow> bool" where
  "keys_fit t \<longleftrightarrow> hash_key (key_equal t) (ht_hash t) (new_object (ht_key t))"

text \<open>Between visits no pair is marked, and the element count is that of the pairs.\<close>

definition ht_inv :: "wHashTable \<Rightarrow> bool" where
  "ht_inv t \<longleftrightarrow> ht_wf t \<and> keys_fit t \<and> foreachRecursionLevel t = 0 \<and> pendingRemoves t = 0 \<and>
     (\<forall>p\<in>set (table_pairs t). \<not> markedForRemove p) \<and> numOfElements t = length (table_pairs t) mod 2 ^ 64"

definition ht_lookup :: "wHashTable \<Rightarrow> ptr \<Rightarrow> ptr option" where
  "ht_lookup t = lookup (key_equal t) (table_pairs t)"

lemma concat_update:
  assumes "i < length bs"
  shows "concat (bs[i := c]) = concat (take i bs) @ c @ concat (drop (Suc i) bs)"
    and "concat bs = concat (take i bs) @ bs ! i @ concat (drop (Suc i) bs)"
proof -
  show "concat (bs[i := c]) = concat (take i bs) @ c @ concat (drop (Suc i) bs)"
    using assms by (simp add: upd_conv_take_nth_drop)
  show "concat bs = concat (take i bs) @ bs ! i @ concat (drop (Suc i) bs)"
    using assms by (metis concat.simps(2) concat_append id_take_nth_drop)
qed

lemma buckets_wf_update:
  assumes "buckets_wf h n bs" "\<And>p. p \<in> set c \<Longrightarrow> pkey p \<noteq> 0 \<and> bucket_of h n (pkey p) = i"
  shows "buckets_wf h n (bs[i := c])"
  unfolding buckets_wf_def
proof (intro conjI allI impI ballI)
  fix k p
  assume "k < n" "p \<in> set (bs[i := c] ! k)"
  then show "pkey p \<noteq> 0" "bucket_of h n (pkey p) = k"
    using assms by (cases "k = i"; auto simp: buckets_wf_def)+
qed (use assms(1) in \<open>simp add: buckets_wf_def\<close>)

lemma move_pairs:
  assumes "buckets_wf h n bs" "0 < n" "\<And>p. p \<in> set ps \<Longrightarrow> pkey p \<noteq> 0"
  shows "buckets_wf h n (fold (HashTable_move h n) ps bs) \<and> mset (concat (fold (HashTable_move h n) ps bs)) = mset ps + mset (concat bs)"
  using assms(1,3)
proof (induction ps arbitrary: bs)
  case (Cons p ps)
  let ?i = "bucket_of h n (pkey p)"
  have i: "?i < length bs" using Cons.prems(1) assms(2) by (simp add: buckets_wf_def bucket_of_def)
  have m: "HashTable_move h n p bs = bs[?i := p # bs ! ?i]" by (simp add: HashTable_move_def Let_def)
  have "buckets_wf h n (bs[?i := p # bs ! ?i])"
    using Cons.prems i by (intro buckets_wf_update) (auto simp: buckets_wf_def)
  moreover have "mset (concat (bs[?i := p # bs ! ?i])) = mset (concat bs) + {#p#}"
    unfolding concat_update(1) [OF i] concat_update(2) [OF i] by simp
  ultimately show ?case using Cons.IH [of "bs[?i := p # bs ! ?i]"] Cons.prems(2) m by simp
qed simp

section \<open>Chains of a well-formed table\<close>

lemma key_chain_wf:
  assumes "ht_wf t"
  shows "\<exists>i. i < length (bucketArray t) \<and> i = bucket_of (ht_hash t) (numOfBuckets t) key \<and>
    key_chain t key = Some (i, bucketArray t ! i)"
proof -
  have "0 < numOfBuckets t" "length (bucketArray t) = numOfBuckets t" using assms by (simp_all add: ht_wf_def buckets_wf_def)
  moreover from this(1) have "bucket_of (ht_hash t) (numOfBuckets t) key < numOfBuckets t" by (simp add: bucket_of_def)
  ultimately show ?thesis by (simp add: key_chain_def Let_def)
qed

lemma key_absent:
  assumes "ht_wf t" "keys_fit t" "i = bucket_of (ht_hash t) (numOfBuckets t) key" "i < length (bucketArray t)"
    "first_match (\<lambda>p. HashTable_Equals t p key) (bucketArray t ! i) = None" "p \<in> set (table_pairs t)"
  shows "\<not> key_equal t key (pkey p)"
proof
  assume eq: "key_equal t key (pkey p)"
  obtain k where k: "k < length (bucketArray t)" "p \<in> set (bucketArray t ! k)"
    using assms(6) by (auto simp: in_set_conv_nth [of _ "bucketArray t"])
  then have "bucket_of (ht_hash t) (numOfBuckets t) (pkey p) = k"
    using assms(1) by (simp add: ht_wf_def buckets_wf_def)
  moreover have "ht_hash t key = ht_hash t (pkey p)"
    using eq assms(2) unfolding keys_fit_def by (metis hash_key.hash_cong)
  ultimately have "k = i" using assms(3) by (simp add: bucket_of_def)
  then show False using assms(5) k eq by (auto simp: first_match_None HashTable_Equals_def)
qed

lemma key_present:
  assumes "i < length (bucketArray t)" "first_match (\<lambda>p. HashTable_Equals t p key) (bucketArray t ! i) = Some j"
  defines "chain \<equiv> bucketArray t ! i"
  defines "L \<equiv> concat (take i (bucketArray t)) @ take j chain" and "R \<equiv> drop (j + 1) chain @ concat (drop (Suc i) (bucketArray t))"
  shows "table_pairs t = L @ chain ! j # R" "key_equal t key (pkey (chain ! j))" "j < length chain"
    "concat ((bucketArray t)[i := chain[j := q]]) = L @ q # R"
    "concat ((bucketArray t)[i := take j chain @ drop (j + 1) chain]) = L @ R"
proof -
  have j: "j < length chain" "key_equal t key (pkey (chain ! j))"
    using first_match_Some [OF assms(2)] by (simp_all add: chain_def HashTable_Equals_def)
  then show "j < length chain" "key_equal t key (pkey (chain ! j))" by simp_all
  show "table_pairs t = L @ chain ! j # R"
    unfolding concat_update(2) [OF assms(1)] L_def R_def chain_def [symmetric] using j id_take_nth_drop [OF j(1)] by simp
  show "concat ((bucketArray t)[i := chain[j := q]]) = L @ q # R"
    using j by (simp add: concat_update(1) [OF assms(1)] L_def R_def upd_conv_take_nth_drop)
  show "concat ((bucketArray t)[i := take j chain @ drop (j + 1) chain]) = L @ R"
    by (simp add: concat_update(1) [OF assms(1)] L_def R_def)
qed

lemma next_prime_prime: "HashTable_IsProbablePrime (HashTable_next_prime n)"
proof (induction n rule: HashTable_next_prime.induct)
  case (1 n)
  then show ?case by (cases "HashTable_IsProbablePrime n") (simp_all add: HashTable_next_prime.simps [of n])
qed

lemma ideal_buckets_pos: "0 < HashTable_CalculateIdealNumOfBuckets t"
proof -
  have "HashTable_next_prime n \<noteq> 0" for n using next_prime_prime [of n] probable_prime_small(3) by metis
  then show ?thesis by (simp add: HashTable_CalculateIdealNumOfBuckets_def Let_def unat_gt_0)
qed

lemma rehash_wf:
  assumes "ht_wf t" "keys_fit t"
  shows "\<exists>bs n. HashTable_Rehash A t b = t\<lparr>bucketArray := bs, numOfBuckets := n\<rparr> \<and>
    ht_wf (t\<lparr>bucketArray := bs, numOfBuckets := n\<rparr>) \<and> mset (concat bs) = mset (table_pairs t)"
proof -
  define n where "n = (if b = 0 then HashTable_CalculateIdealNumOfBuckets t else b)"
  define bs where "bs = fold (HashTable_move (ht_hash t) n) (table_pairs t) (replicate n [])"
  have keep: "t = t\<lparr>bucketArray := bucketArray t, numOfBuckets := numOfBuckets t\<rparr>" by simp
  have n: "0 < n" using ideal_buckets_pos by (simp add: n_def)
  have "pkey p \<noteq> 0" if "p \<in> set (table_pairs t)" for p
    using that assms(1) by (auto simp: ht_wf_def buckets_wf_def in_set_conv_nth [of _ "bucketArray t"])
  then have moved: "buckets_wf (ht_hash t) n bs" "mset (concat bs) = mset (table_pairs t)"
    using move_pairs [of "ht_hash t" n "replicate n []" "table_pairs t"] n by (auto simp: bs_def buckets_wf_def)
  then have "unique_keys (key_equal t) (concat bs)"
    using assms(1) by (metis ht_wf_def mset_eq_imp_distinct_iff mset_map)
  then have wf: "ht_wf (t\<lparr>bucketArray := bs, numOfBuckets := n\<rparr>)" using n moved by (simp add: ht_wf_def)
  have eq: "HashTable_Rehash A t b =
      (if n = numOfBuckets t \<or> calloc_array A n = None then t else t\<lparr>bucketArray := bs, numOfBuckets := n\<rparr>)"
    using assms(1) by (auto simp: HashTable_Rehash_def Let_def n_def bs_def ht_wf_def buckets_wf_def split: option.splits)
  show ?thesis
  proof (cases "n = numOfBuckets t \<or> calloc_array A n = None")
    case True
    then show ?thesis using eq keep assms(1)
      by (intro exI [of _ "bucketArray t"] exI [of _ "numOfBuckets t"]) simp
  next
    case False
    then show ?thesis using eq wf moved(2) by auto
  qed
qed

lemma lookup_rehashed:
  assumes "ht_wf t" "keys_fit t" "mset (concat bs) = mset (table_pairs t)"
  shows "lookup (key_equal t) (concat bs) = ht_lookup t"
  using hash_key.lookup_perm [of "key_equal t" "ht_hash t" "new_object (ht_key t)" "table_pairs t" "concat bs"] assms
  by (simp add: keys_fit_def ht_wf_def ht_lookup_def)

lemma rehash_inv:
  assumes "ht_inv t"
  shows "ht_inv (HashTable_Rehash A t b)" "ht_lookup (HashTable_Rehash A t b) = ht_lookup t"
    "length (table_pairs (HashTable_Rehash A t b)) = length (table_pairs t)"
    "ht_key (HashTable_Rehash A t b) = ht_key t" "ht_value (HashTable_Rehash A t b) = ht_value t"
    "ht_hash (HashTable_Rehash A t b) = ht_hash t"
    "freedKeys (HashTable_Rehash A t b) = freedKeys t" "freedValues (HashTable_Rehash A t b) = freedValues t"
proof -
  have wf: "ht_wf t" "keys_fit t" using assms by (simp_all add: ht_inv_def)
  obtain bs n where r: "HashTable_Rehash A t b = t\<lparr>bucketArray := bs, numOfBuckets := n\<rparr>"
      "ht_wf (t\<lparr>bucketArray := bs, numOfBuckets := n\<rparr>)" "mset (concat bs) = mset (table_pairs t)"
    using rehash_wf [OF wf] by blast
  have "set (concat bs) = set (table_pairs t)" "length (concat bs) = length (table_pairs t)"
    using r(3) by (metis set_mset_mset, metis size_mset)
  then show "ht_inv (HashTable_Rehash A t b)" "length (table_pairs (HashTable_Rehash A t b)) = length (table_pairs t)"
    using r assms by (simp_all add: ht_inv_def keys_fit_def)
  show "ht_lookup (HashTable_Rehash A t b) = ht_lookup t"
    using lookup_rehashed [OF wf r(3)] r(1) by (simp add: ht_lookup_def)
qed (simp_all add: HashTable_Rehash_def Let_def split: option.splits)

section \<open>Updates of a well-formed table\<close>

definition map_put :: "(ptr \<Rightarrow> ptr \<Rightarrow> bool) \<Rightarrow> ptr \<Rightarrow> ptr option \<Rightarrow> (ptr \<Rightarrow> ptr option) \<Rightarrow> ptr \<Rightarrow> ptr option" where
  "map_put eq k v m = (\<lambda>x. if x \<noteq> 0 \<and> eq x k then v else m x)"

lemma map_put_cong:
  assumes "keys_fit t" "key_equal t k k'"
  shows "map_put (key_equal t) k v m = map_put (key_equal t) k' v m"
  using assms hash_key.eq_trans hash_key.eq_sym unfolding keys_fit_def map_put_def by metis

lemma ht_invD:
  assumes "ht_inv t"
  shows "ht_wf t" "keys_fit t" "foreachRecursionLevel t = 0" "pendingRemoves t = 0"
    "p \<in> set (table_pairs t) \<Longrightarrow> \<not> markedForRemove p" "numOfElements t = length (table_pairs t) mod 2 ^ 64"
    "0 < numOfBuckets t" "buckets_wf (ht_hash t) (numOfBuckets t) (bucketArray t)" "unique_keys (key_equal t) (table_pairs t)"
    "hash_key (key_equal t) (ht_hash t) (new_object (ht_key t))"
  using assms by (auto simp: ht_inv_def ht_wf_def keys_fit_def)

lemma same_bucket:
  assumes "keys_fit t" "key_equal t x y"
  shows "bucket_of (ht_hash t) n x = bucket_of (ht_hash t) n y"
  using assms hash_key.hash_cong unfolding keys_fit_def bucket_of_def by metis

lemma replace_pair:
  assumes "ht_wf t" "keys_fit t" "i = bucket_of (ht_hash t) (numOfBuckets t) key" "i < length (bucketArray t)"
    "first_match (\<lambda>p. HashTable_Equals t p key) (bucketArray t ! i) = Some j"
    "pkey q \<noteq> 0" "key_equal t (pkey q) key"
  defines "bs \<equiv> (bucketArray t)[i := (bucketArray t ! i)[j := q]]"
  shows "buckets_wf (ht_hash t) (numOfBuckets t) bs" "unique_keys (key_equal t) (concat bs)" "length (concat bs) = length (table_pairs t)"
    "lookup (key_equal t) (concat bs) = map_put (key_equal t) key (if markedForRemove q then None else Some (pvalue q)) (ht_lookup t)"
    "set (concat bs) \<subseteq> insert q (set (table_pairs t))"
proof -
  note fit = assms(2) [unfolded keys_fit_def]
  note wf = assms(1) [unfolded ht_wf_def]
  obtain L p R where s: "table_pairs t = L @ p # R" "key_equal t key (pkey p)" "concat bs = L @ q # R"
    using key_present [OF assms(4,5)] unfolding bs_def by metis
  have qp: "key_equal t (pkey q) (pkey p)" using hash_key.eq_trans [OF fit assms(7) s(2)] .
  have u: "unique_keys (key_equal t) (L @ p # R)" using wf s(1) by simp
  then have p: "\<And>r. r \<in> set L \<union> set R \<Longrightarrow> \<not> key_equal t (pkey p) (pkey r)"
    unfolding hash_key.unique_split [OF fit] by simp
  then have q: "\<And>r. r \<in> set L \<union> set R \<Longrightarrow> \<not> key_equal t (pkey q) (pkey r)"
    using qp hash_key.eq_sym [OF fit] hash_key.eq_trans [OF fit] by blast
  show "unique_keys (key_equal t) (concat bs)"
    unfolding s(3) hash_key.unique_split [OF fit] using u [unfolded hash_key.unique_split [OF fit]] q by simp
  show "length (concat bs) = length (table_pairs t)" "set (concat bs) \<subseteq> insert q (set (table_pairs t))"
    unfolding s by auto
  have "bucket_of (ht_hash t) (numOfBuckets t) (pkey q) = i" using same_bucket [OF assms(2,7)] assms(3) by simp
  then show "buckets_wf (ht_hash t) (numOfBuckets t) bs"
    unfolding bs_def using wf assms(4,6)
    by (intro buckets_wf_update) (auto simp: buckets_wf_def dest: set_update_subset_insert [THEN subsetD])
  show "lookup (key_equal t) (concat bs) = map_put (key_equal t) key (if markedForRemove q then None else Some (pvalue q)) (ht_lookup t)"
  proof
    fix x
    have "key_equal t x (pkey q) = key_equal t x key" "key_equal t x (pkey p) = key_equal t x key"
      using assms(7) s(2) hash_key.eq_sym [OF fit] hash_key.eq_trans [OF fit] by blast+
    then show "lookup (key_equal t) (concat bs) x =
        map_put (key_equal t) key (if markedForRemove q then None else Some (pvalue q)) (ht_lookup t) x"
      using hash_key.lookup_split [OF fit q, where L = L and R = R and x = x]
        hash_key.lookup_split [OF fit p, where L = L and R = R and x = x]
      unfolding ht_lookup_def s(1,3) map_put_def by auto
  qed
qed

lemma unlink_pair:
  assumes "ht_wf t" "keys_fit t" "i = bucket_of (ht_hash t) (numOfBuckets t) key" "i < length (bucketArray t)"
    "first_match (\<lambda>p. HashTable_Equals t p key) (bucketArray t ! i) = Some j"
  defines "bs \<equiv> (bucketArray t)[i := take j (bucketArray t ! i) @ drop (j + 1) (bucketArray t ! i)]"
  shows "buckets_wf (ht_hash t) (numOfBuckets t) bs" "unique_keys (key_equal t) (concat bs)"
    "length (table_pairs t) = length (concat bs) + 1"
    "lookup (key_equal t) (concat bs) = map_put (key_equal t) key None (ht_lookup t)"
    "set (concat bs) \<subseteq> set (table_pairs t)"
proof -
  note fit = assms(2) [unfolded keys_fit_def]
  note wf = assms(1) [unfolded ht_wf_def]
  obtain L p R where s: "table_pairs t = L @ p # R" "key_equal t key (pkey p)" "concat bs = L @ R"
    using key_present [OF assms(4,5)] unfolding bs_def by metis
  have u: "unique_keys (key_equal t) (L @ p # R)" using wf s(1) by simp
  then have p: "\<And>r. r \<in> set L \<union> set R \<Longrightarrow> \<not> key_equal t (pkey p) (pkey r)"
    unfolding hash_key.unique_split [OF fit] by simp
  show "unique_keys (key_equal t) (concat bs)" "length (table_pairs t) = length (concat bs) + 1"
    "set (concat bs) \<subseteq> set (table_pairs t)"
    unfolding s using u by auto
  show "buckets_wf (ht_hash t) (numOfBuckets t) bs"
    unfolding bs_def using wf assms(4)
    by (intro buckets_wf_update) (auto simp: buckets_wf_def dest: in_set_takeD in_set_dropD)
  show "lookup (key_equal t) (concat bs) = map_put (key_equal t) key None (ht_lookup t)"
  proof
    fix x
    have none: "lookup (key_equal t) (L @ R) x = None" if "key_equal t x (pkey p)"
    proof -
      have "\<not> key_equal t x (pkey r)" if "r \<in> set L \<union> set R" for r
        using that p \<open>key_equal t x (pkey p)\<close> hash_key.eq_sym [OF fit] hash_key.eq_trans [OF fit] by blast
      then show ?thesis by (auto simp: lookup_def find_None_iff)
    qed
    have "key_equal t x (pkey p) = key_equal t x key"
      using s(2) hash_key.eq_sym [OF fit] hash_key.eq_trans [OF fit] by blast
    then show "lookup (key_equal t) (concat bs) x = map_put (key_equal t) key None (ht_lookup t) x"
      using hash_key.lookup_split [OF fit p, where L = L and R = R and x = x] none
      unfolding ht_lookup_def s(1,3) map_put_def by auto
  qed
qed

lemma link_pair:
  assumes "ht_wf t" "keys_fit t" "i = bucket_of (ht_hash t) (numOfBuckets t) key" "i < length (bucketArray t)"
    "first_match (\<lambda>p. HashTable_Equals t p key) (bucketArray t ! i) = None"
    "pkey q \<noteq> 0" "key_equal t (pkey q) key" "\<not> markedForRemove q"
  defines "bs \<equiv> (bucketArray t)[i := q # bucketArray t ! i]"
  shows "buckets_wf (ht_hash t) (numOfBuckets t) bs" "unique_keys (key_equal t) (concat bs)"
    "length (concat bs) = length (table_pairs t) + 1"
    "lookup (key_equal t) (concat bs) = map_put (key_equal t) key (Some (pvalue q)) (ht_lookup t)"
    "set (concat bs) = insert q (set (table_pairs t))"
    "ht_lookup t key = None"
proof -
  note fit = assms(2) [unfolded keys_fit_def]
  note wf = assms(1) [unfolded ht_wf_def]
  let ?L = "concat (take i (bucketArray t))" and ?R = "bucketArray t ! i @ concat (drop (Suc i) (bucketArray t))"
  have s: "table_pairs t = ?L @ ?R" "concat bs = ?L @ q # ?R"
    unfolding bs_def concat_update(1) [OF assms(4)] using concat_update(2) [OF assms(4)] by simp_all
  have absent: "\<not> key_equal t key (pkey r)" if "r \<in> set (table_pairs t)" for r
    using key_absent [OF assms(1-5) that] .
  then show "ht_lookup t key = None" by (auto simp: ht_lookup_def lookup_def find_None_iff)
  have q: "\<And>r. r \<in> set ?L \<union> set ?R \<Longrightarrow> \<not> key_equal t (pkey q) (pkey r)"
    using absent s(1) assms(7) hash_key.eq_sym [OF fit] hash_key.eq_trans [OF fit] by (metis set_append)
  have "unique_keys (key_equal t) (?L @ ?R)" using wf s(1) by simp
  then show "unique_keys (key_equal t) (concat bs)"
    unfolding s(2) hash_key.unique_split [OF fit] using q by simp
  show "length (concat bs) = length (table_pairs t) + 1" "set (concat bs) = insert q (set (table_pairs t))"
    unfolding s by auto
  have "bucket_of (ht_hash t) (numOfBuckets t) (pkey q) = i" using same_bucket [OF assms(2,7)] assms(3) by simp
  then show "buckets_wf (ht_hash t) (numOfBuckets t) bs"
    unfolding bs_def using wf assms(4,6) by (intro buckets_wf_update) (auto simp: buckets_wf_def)
  show "lookup (key_equal t) (concat bs) = map_put (key_equal t) key (Some (pvalue q)) (ht_lookup t)"
  proof
    fix x
    have "key_equal t x (pkey q) = key_equal t x key"
      using assms(7) hash_key.eq_sym [OF fit] hash_key.eq_trans [OF fit] by blast
    then show "lookup (key_equal t) (concat bs) x = map_put (key_equal t) key (Some (pvalue q)) (ht_lookup t) x"
      using hash_key.lookup_split [OF fit q, where L = ?L and R = ?R and x = x] assms(8) unfolding ht_lookup_def s map_put_def by auto
  qed
qed

section \<open>The table as a map\<close>

text \<open>What the table maps its keys to, and how many keys there are.\<close>

definition ht_abs :: "wHashTable \<Rightarrow> (ptr \<Rightarrow> ptr option) \<times> nat" where
  "ht_abs t = (ht_lookup t, length (table_pairs t))"

text \<open>The functions that make up the configuration of a table.\<close>

definition same_setup :: "wHashTable \<Rightarrow> wHashTable \<Rightarrow> bool" where
  "same_setup t t' \<longleftrightarrow> ht_key t' = ht_key t \<and> ht_value t' = ht_value t \<and> ht_hash t' = ht_hash t"

datatype hash_op =
    HashInsert ptr ptr | HashRemove ptr | HashSet ptr ptr | HashGet ptr | HashContains ptr | HashCount | HashClear

fun hash_step :: "allocator \<Rightarrow> hash_op \<Rightarrow> wHashTable \<Rightarrow> (answer, wHashTable) outcome" where
  "hash_step A (HashInsert k v) t = result_of (HashTable_Insert A t k v)"
| "hash_step A (HashRemove k) t = result_of (HashTable_Remove A t k)"
| "hash_step A (HashSet k v) t = result_of (HashTable_SetItemValue t k v)"
| "hash_step A (HashGet k) t = run_bind (HashTable_GetItemValue t k) (\<lambda>v. Done (Object v))"
| "hash_step A (HashContains k) t = run_bind (HashTable_Contains t k) (\<lambda>b. Done (Result b))"
| "hash_step A HashCount t = Done (Number (HashTable_Count t)) t"
| "hash_step A HashClear t = (case HashTable_Clear A t of None \<Rightarrow> Abort | Some r \<Rightarrow> result_of r)"

text \<open>
  The same operations on a map. Only the insertion of a new key may fail for want of memory; a value
  is stored as its copy, unless the pointer itself is already stored under the key. The count is that
  of a machine word.
\<close>

fun hash_spec :: "(ptr \<Rightarrow> ptr \<Rightarrow> bool) \<Rightarrow> (ptr \<Rightarrow> ptr) \<Rightarrow> hash_op \<Rightarrow> answer \<Rightarrow> (ptr \<Rightarrow> ptr option) \<times> nat \<Rightarrow>
    ((ptr \<Rightarrow> ptr option) \<times> nat) option" where
  "hash_spec eq copy (HashInsert k v) (Result b) (m, n) =
     (if k = 0 \<or> v = 0 then (if b then None else Some (m, n))
      else if b then Some (map_put eq k (Some (if m k = Some v then v else copy v)) m, if m k = None then n + 1 else n)
      else if m k = None then Some (m, n)
      else None)"
| "hash_spec eq copy (HashRemove k) (Result b) (m, n) =
     (if b \<noteq> (m k \<noteq> None) then None
      else Some (if b then (map_put eq k None m, n - 1) else (m, n)))"
| "hash_spec eq copy (HashSet k v) (Result b) (m, n) =
     (if b \<noteq> (m k \<noteq> None) then None
      else Some (if b then map_put eq k (Some (copy v)) m else m, n))"
| "hash_spec eq copy (HashGet k) (Object p) (m, n) =
     (if p = (case m k of None \<Rightarrow> 0 | Some v \<Rightarrow> v) then Some (m, n) else None)"
| "hash_spec eq copy (HashContains k) (Result b) (m, n) = (if b = (m k \<noteq> None) then Some (m, n) else None)"
| "hash_spec eq copy HashCount (Number c) (m, n) = (if c = n mod 2 ^ 64 then Some (m, n) else None)"
| "hash_spec eq copy HashClear (Result True) (m, n) = Some (\<lambda>_. None, 0)"
| "hash_spec eq copy _ _ _ = None"

lemma size_add_one: "size_add (n mod 2 ^ 64) 1 = (n + 1) mod 2 ^ 64"
  by (simp add: size_add_def mod_Suc_eq)

lemma size_sub_one: "size_sub ((n + 1) mod 2 ^ 64) 1 = n mod 2 ^ 64"
proof -
  have "size_sub ((n + 1) mod 2 ^ 64) 1 = ((n + 1) mod 2 ^ 64 + (2 ^ 64 - 1)) mod 2 ^ 64" by (simp add: size_sub_def)
  also have "\<dots> = (n + 1 + (2 ^ 64 - 1)) mod 2 ^ 64" by (rule mod_add_left_eq)
  also have "n + 1 + (2 ^ 64 - 1) = n + 2 ^ 64" by simp
  finally show ?thesis by simp
qed

lemma key_found:
  assumes "ht_inv t" "key \<noteq> 0"
  obtains (absent) i where "i = bucket_of (ht_hash t) (numOfBuckets t) key" "i < length (bucketArray t)"
      "key_chain t key = Some (i, bucketArray t ! i)"
      "first_match (\<lambda>p. HashTable_Equals t p key) (bucketArray t ! i) = None" "ht_lookup t key = None"
  | (present) i j where "i = bucket_of (ht_hash t) (numOfBuckets t) key" "i < length (bucketArray t)"
      "key_chain t key = Some (i, bucketArray t ! i)"
      "first_match (\<lambda>p. HashTable_Equals t p key) (bucketArray t ! i) = Some j"
      "ht_lookup t key = Some (pvalue (bucketArray t ! i ! j))" "\<not> markedForRemove (bucketArray t ! i ! j)"
      "key_equal t key (pkey (bucketArray t ! i ! j))" "pkey (bucketArray t ! i ! j) \<noteq> 0" "j < length (bucketArray t ! i)"
proof -
  note inv = ht_invD [OF assms(1)]
  obtain i where i: "i < length (bucketArray t)" "i = bucket_of (ht_hash t) (numOfBuckets t) key"
      "key_chain t key = Some (i, bucketArray t ! i)"
    using key_chain_wf [OF inv(1)] by blast
  show ?thesis
  proof (cases "first_match (\<lambda>p. HashTable_Equals t p key) (bucketArray t ! i)")
    case None
    have "\<not> key_equal t key (pkey p)" if "p \<in> set (table_pairs t)" for p
      using key_absent [OF inv(1,2) i(2,1) None that] .
    then have "ht_lookup t key = None" by (auto simp: ht_lookup_def lookup_def find_None_iff)
    then show ?thesis using absent i None by blast
  next
    case (Some j)
    let ?p = "bucketArray t ! i ! j"
    note kp = key_present [OF i(1) Some]
    have m: "\<not> markedForRemove ?p" using inv(5) [of ?p] kp(1) by simp
    have nz: "pkey ?p \<noteq> 0"
      using inv(8) i(1) kp(3) by (simp add: buckets_wf_def)
    have "ht_lookup t key = Some (pvalue ?p)"
    proof -
      let ?L = "concat (take i (bucketArray t)) @ take j (bucketArray t ! i)"
        and ?R = "drop (j + 1) (bucketArray t ! i) @ concat (drop (Suc i) (bucketArray t))"
      have "unique_keys (key_equal t) (?L @ ?p # ?R)" using inv(9) kp(1) by simp
      then have "\<And>q. q \<in> set ?L \<union> set ?R \<Longrightarrow> \<not> key_equal t (pkey ?p) (pkey q)"
        unfolding hash_key.unique_split [OF inv(10)] by simp
      from hash_key.lookup_split [OF inv(10) this, where L = ?L and R = ?R and x = key] show ?thesis
        using kp(2) assms(2) m unfolding ht_lookup_def kp(1) by simp
    qed
    then show ?thesis using present i Some m kp(2,3) nz by blast
  qed
qed

lemma insert_found_shape:
  assumes "\<not> markedForRemove (chain ! j)"
  shows "\<exists>q fk fv. HashTable_Insert_found t i chain j key v =
      t\<lparr>bucketArray := (bucketArray t)[i := chain[j := q]], freedKeys := fk, freedValues := fv\<rparr> \<and>
    \<not> markedForRemove q \<and> pkey q = (if pkey (chain ! j) = key then key else new_object (ht_key t) key) \<and>
    pvalue q = (if pvalue (chain ! j) = v then v else new_object (ht_value t) v)"
proof -
  let ?p = "chain ! j"
  let ?q = "?p\<lparr>pkey := (if pkey ?p = key then key else new_object (ht_key t) key),
    pvalue := (if pvalue ?p = v then v else new_object (ht_value t) v)\<rparr>"
  let ?fk = "if pkey ?p = key then freedKeys t else freedKeys t @ free_object (ht_key t) (pkey ?p)"
    and ?fv = "if pvalue ?p = v then freedValues t else freedValues t @ free_object (ht_value t) (pvalue ?p)"
  have "HashTable_Insert_found t i chain j key v =
      t\<lparr>bucketArray := (bucketArray t)[i := chain[j := ?q]], freedKeys := ?fk, freedValues := ?fv\<rparr>"
    using assms
    by (auto simp: HashTable_Insert_found_def Let_def setKey_def setValue_def disposeKey_def disposeValue_def put_pair_def
        intro!: arg_cong [where f = "\<lambda>q. (bucketArray t)[i := chain[j := q]]"])
  then show ?thesis using assms by (intro exI [of _ ?q] exI [of _ ?fk] exI [of _ ?fv]) simp
qed

lemma ht_invI:
  assumes "ht_inv t" "same_setup t u" "numOfBuckets u = numOfBuckets t" "foreachRecursionLevel u = foreachRecursionLevel t"
    "pendingRemoves u = pendingRemoves t" "buckets_wf (ht_hash t) (numOfBuckets t) (bucketArray u)"
    "unique_keys (key_equal t) (table_pairs u)" "\<And>p. p \<in> set (table_pairs u) \<Longrightarrow> \<not> markedForRemove p"
    "numOfElements u = length (table_pairs u) mod 2 ^ 64"
  shows "ht_inv u"
  using ht_invD [OF assms(1)] assms(2-9) by (simp add: ht_inv_def ht_wf_def keys_fit_def same_setup_def del: set_concat)

lemma insert_new_shape:
  fixes A t i chain key v
  defines "u \<equiv> t\<lparr>freedKeys := freedKeys t @ free_object (ht_key t) 0, freedValues := freedValues t @ free_object (ht_value t) 0,
    bucketArray := (bucketArray t)[i := \<lparr>pkey = new_object (ht_key t) key, pvalue = new_object (ht_value t) v,
      markedForRemove = False\<rparr> # chain], numOfElements := size_add (numOfElements t) 1\<rparr>"
  shows "HashTable_Insert_new A t i chain key v = u \<or> HashTable_Insert_new A t i chain key v = HashTable_Rehash A u 0"
  unfolding HashTable_Insert_new_def Let_def setKey_def setValue_def disposeKey_def disposeValue_def put_pair_def u_def
  by simp

lemma insert_table:
  assumes "ht_inv t" "key \<noteq> 0" "v \<noteq> 0"
  shows "HashTable_Insert A t key v = Fail t \<and> ht_lookup t key = None \<or>
    (\<exists>t'. HashTable_Insert A t key v = Done () t' \<and> ht_inv t' \<and> same_setup t t' \<and>
      ht_abs t' = (map_put (key_equal t) key (Some (if ht_lookup t key = Some v then v else new_object (ht_value t) v)) (ht_lookup t),
        if ht_lookup t key = None then length (table_pairs t) + 1 else length (table_pairs t)))"
  using assms(1,2)
proof (cases rule: key_found)
  case (absent i)
  note inv = ht_invD [OF assms(1)]
  show ?thesis
  proof (cases "c_calloc A 32 = None")
    case True
    then show ?thesis using absent assms by (simp add: HashTable_Insert_def)
  next
    case False
    let ?q = "\<lparr>pkey = new_object (ht_key t) key, pvalue = new_object (ht_value t) v, markedForRemove = False\<rparr>"
    let ?bs = "(bucketArray t)[i := ?q # bucketArray t ! i]"
    define u where "u = t\<lparr>freedKeys := freedKeys t @ free_object (ht_key t) 0, freedValues := freedValues t @ free_object (ht_value t) 0,
      bucketArray := ?bs, numOfElements := size_add (numOfElements t) 1\<rparr>"
    have q: "pkey ?q \<noteq> 0" "key_equal t (pkey ?q) key" using hash_key.copy_key [OF inv(10) assms(2)] by simp_all
    note link = link_pair [OF inv(1,2) absent(1,2,4) q]
    have u: "ht_inv u"
      using link inv(5,6) size_add_one [of "length (table_pairs t)"]
      by (intro ht_invI [OF assms(1)]) (auto simp: same_setup_def u_def simp del: set_concat)
    have "HashTable_Insert A t key v = Done () (HashTable_Insert_new A t i (bucketArray t ! i) key v)"
      using absent assms(2,3) False by (simp add: HashTable_Insert_def)
    then have "HashTable_Insert A t key v = Done () u \<or> HashTable_Insert A t key v = Done () (HashTable_Rehash A u 0)"
      using insert_new_shape [of A t i "bucketArray t ! i" key v] unfolding u_def by metis
    moreover have "ht_abs u = (map_put (key_equal t) key (Some (new_object (ht_value t) v)) (ht_lookup t), length (table_pairs t) + 1)"
      using link by (simp add: ht_abs_def ht_lookup_def u_def)
    moreover have "same_setup t u" by (simp add: same_setup_def u_def)
    ultimately show ?thesis using u rehash_inv [OF u, of A 0] absent(5)
      by (auto simp: same_setup_def ht_abs_def)
  qed
next
  case (present i j)
  note inv = ht_invD [OF assms(1)]
  let ?p = "bucketArray t ! i ! j"
  obtain q fk fv where s: "HashTable_Insert_found t i (bucketArray t ! i) j key v =
        t\<lparr>bucketArray := (bucketArray t)[i := (bucketArray t ! i)[j := q]], freedKeys := fk, freedValues := fv\<rparr>"
      "\<not> markedForRemove q" "pkey q = (if pkey ?p = key then key else new_object (ht_key t) key)"
      "pvalue q = (if pvalue ?p = v then v else new_object (ht_value t) v)"
    using insert_found_shape [OF present(6)] by blast
  have q: "pkey q \<noteq> 0" "key_equal t (pkey q) key"
    using s(3) assms(2) hash_key.copy_key [OF inv(10) assms(2)] hash_key.eq_refl [OF inv(10)] by (simp_all split: if_splits)
  note rep = replace_pair [OF inv(1,2) present(1,2,4) q]
  let ?t = "t\<lparr>bucketArray := (bucketArray t)[i := (bucketArray t ! i)[j := q]], freedKeys := fk, freedValues := fv\<rparr>"
  have "HashTable_Insert A t key v = Done () ?t"
    using present assms s(1) by (simp add: HashTable_Insert_def)
  moreover have "ht_inv ?t"
    using rep(1-3,5) inv(5,6) s(2) by (intro ht_invI [OF assms(1)]) (auto simp: same_setup_def simp del: set_concat)
  moreover have "ht_abs ?t = (map_put (key_equal t) key (Some (pvalue q)) (ht_lookup t), length (table_pairs t))"
    using rep(3,4) s(2) by (simp add: ht_abs_def ht_lookup_def)
  ultimately show ?thesis using present(5) s(4) by (auto simp: same_setup_def)
qed

lemma set_table:
  assumes "ht_inv t" "key \<noteq> 0"
  shows "HashTable_SetItemValue t key v = Fail t \<and> ht_lookup t key = None \<or>
    (\<exists>t'. HashTable_SetItemValue t key v = Done () t' \<and> ht_inv t' \<and> same_setup t t' \<and> ht_lookup t key \<noteq> None \<and>
      ht_abs t' = (map_put (key_equal t) key (Some (new_object (ht_value t) v)) (ht_lookup t), length (table_pairs t)) \<and>
      freedValues t' = freedValues t @ free_object (ht_value t) (the (ht_lookup t key)))"
  using assms
proof (cases rule: key_found)
  case (absent i)
  then show ?thesis using assms by (simp add: HashTable_SetItemValue_def)
next
  case (present i j)
  note inv = ht_invD [OF assms(1)]
  let ?p = "bucketArray t ! i ! j"
  let ?q = "?p\<lparr>pvalue := new_object (ht_value t) v\<rparr>"
  have q: "pkey ?q \<noteq> 0" "key_equal t (pkey ?q) key" "\<not> markedForRemove ?q"
    using present hash_key.eq_sym [OF inv(10)] by simp_all
  note rep = replace_pair [OF inv(1,2) present(1,2,4) q(1,2)]
  let ?t = "t\<lparr>freedValues := freedValues t @ free_object (ht_value t) (pvalue ?p),
    bucketArray := (bucketArray t)[i := (bucketArray t ! i)[j := ?q]]\<rparr>"
  have "HashTable_SetItemValue t key v = Done () ?t"
    using present assms by (simp add: HashTable_SetItemValue_def setValue_def disposeValue_def put_pair_def)
  moreover have "ht_inv ?t"
    using rep(1-3,5) inv(5,6) q(3) by (intro ht_invI [OF assms(1)]) (auto simp: same_setup_def simp del: set_concat)
  moreover have "ht_abs ?t = (map_put (key_equal t) key (Some (pvalue ?q)) (ht_lookup t), length (table_pairs t))"
    using rep(3,4) q(3) by (simp add: ht_abs_def ht_lookup_def)
  ultimately show ?thesis using present(5) by (auto simp: same_setup_def)
qed

lemma remove_table:
  assumes "ht_inv t" "key \<noteq> 0"
  shows "HashTable_Remove A t key = Fail t \<and> ht_lookup t key = None \<or>
    (\<exists>t'. HashTable_Remove A t key = Done () t' \<and> ht_inv t' \<and> same_setup t t' \<and> ht_lookup t key \<noteq> None \<and>
      ht_abs t' = (map_put (key_equal t) key None (ht_lookup t), length (table_pairs t) - 1) \<and>
      freedValues t' = freedValues t @ free_object (ht_value t) (the (ht_lookup t key)))"
  using assms
proof (cases rule: key_found)
  case (absent i)
  then show ?thesis using assms by (simp add: HashTable_Remove_def)
next
  case (present i j)
  note inv = ht_invD [OF assms(1)]
  let ?p = "bucketArray t ! i ! j"
  note un = unlink_pair [OF inv(1,2) present(1,2,4)]
  let ?bs = "(bucketArray t)[i := take j (bucketArray t ! i) @ drop (j + 1) (bucketArray t ! i)]"
  let ?t = "t\<lparr>bucketArray := ?bs, freedKeys := freedKeys t @ free_object (ht_key t) (pkey ?p),
    freedValues := freedValues t @ free_object (ht_value t) (pvalue ?p), numOfElements := size_sub (numOfElements t) 1\<rparr>"
  have "HashTable_Remove A t key = Done () ?t"
    using present assms inv(3)
    by (simp add: HashTable_Remove_def disposePair_def disposeKey_def disposeValue_def put_pair_def Let_def lowerRehashThreshold_def)
  moreover have "ht_inv ?t"
    using un(1-3,5) inv(5,6) size_sub_one [of "length (concat ?bs)"]
    by (intro ht_invI [OF assms(1)]) (auto simp: same_setup_def simp del: set_concat)
  moreover have "ht_abs ?t = (map_put (key_equal t) key None (ht_lookup t), length (table_pairs t) - 1)"
    using un(3,4) by (simp add: ht_abs_def ht_lookup_def)
  ultimately show ?thesis using present(5) by (auto simp: same_setup_def)
qed

lemma get_table:
  assumes "ht_inv t"
  shows "HashTable_GetItemValue t key = Done (case ht_lookup t key of None \<Rightarrow> 0 | Some v \<Rightarrow> v) t"
    "HashTable_Contains t key = Done (ht_lookup t key \<noteq> None) t"
proof -
  have "HashTable_GetItemValue t key = Done (case ht_lookup t key of None \<Rightarrow> 0 | Some v \<Rightarrow> v) t \<and>
      HashTable_Contains t key = Done (ht_lookup t key \<noteq> None) t"
  proof (cases "key = 0")
    case True
    then show ?thesis by (simp add: HashTable_GetItemValue_def HashTable_Contains_def HashTable_Get_def ht_lookup_def lookup_def)
  next
    case False
    with assms show ?thesis
    proof (cases rule: key_found)
      case (absent i)
      then show ?thesis using False by (simp add: HashTable_GetItemValue_def HashTable_Contains_def HashTable_Get_def)
    next
      case (present i j)
      then show ?thesis using False by (simp add: HashTable_GetItemValue_def HashTable_Contains_def HashTable_Get_def)
    qed
  qed
  then show "HashTable_GetItemValue t key = Done (case ht_lookup t key of None \<Rightarrow> 0 | Some v \<Rightarrow> v) t"
    "HashTable_Contains t key = Done (ht_lookup t key \<noteq> None) t" by simp_all
qed

lemma clear_chain:
  assumes "foreachRecursionLevel t = 0"
  shows "\<exists>fk fv. HashTable_Clear_chain chain t = Some (t\<lparr>freedKeys := fk, freedValues := fv\<rparr>) \<and>
    fv = freedValues t @ concat (map (free_object (ht_value t) \<circ> pvalue) chain)"
  using assms
proof (induction chain arbitrary: t)
  case Nil
  then show ?case by (intro exI [of _ "freedKeys t"] exI [of _ "freedValues t"]) (simp add: HashTable_Clear_chain.simps)
next
  case (Cons p chain)
  let ?t = "disposePair p t"
  have "foreachRecursionLevel ?t = 0" "ht_value ?t = ht_value t" "freedValues ?t = freedValues t @ free_object (ht_value t) (pvalue p)"
    using Cons.prems by (simp_all add: disposePair_def disposeKey_def disposeValue_def)
  moreover have "HashTable_Clear_chain (p # chain) t = HashTable_Clear_chain chain ?t"
    using Cons.prems by (simp add: HashTable_Clear_chain.simps [of "p # chain"])
  moreover have "?t\<lparr>freedKeys := fk, freedValues := fv\<rparr> = t\<lparr>freedKeys := fk, freedValues := fv\<rparr>" for fk fv
    by (simp add: disposePair_def disposeKey_def disposeValue_def)
  ultimately show ?case using Cons.IH [of ?t] by auto
qed

lemma clear_buckets:
  assumes "foreachRecursionLevel t = 0" "i + n = length (bucketArray t)"
  shows "\<exists>fk fv. HashTable_Clear_buckets i n t =
      Some (Done () (t\<lparr>bucketArray := take i (bucketArray t) @ replicate n [], freedKeys := fk, freedValues := fv\<rparr>)) \<and>
    fv = freedValues t @ concat (map (free_object (ht_value t) \<circ> pvalue) (concat (drop i (bucketArray t))))"
  using assms
proof (induction n arbitrary: i t)
  case 0
  then show ?case by (intro exI [of _ "freedKeys t"] exI [of _ "freedValues t"]) simp
next
  case (Suc n)
  obtain fk fv where c: "HashTable_Clear_chain (bucketArray t ! i) t = Some (t\<lparr>freedKeys := fk, freedValues := fv\<rparr>)"
      "fv = freedValues t @ concat (map (free_object (ht_value t) \<circ> pvalue) (bucketArray t ! i))"
    using clear_chain [OF Suc.prems(1)] by blast
  let ?t = "t\<lparr>freedKeys := fk, freedValues := fv, bucketArray := (bucketArray t)[i := []]\<rparr>"
  have step: "foreachRecursionLevel ?t = 0" "i + 1 + n = length (bucketArray ?t)" using Suc.prems by simp_all
  have "HashTable_Clear_buckets i (Suc n) t = HashTable_Clear_buckets (i + 1) n ?t"
    using Suc.prems c by (simp add: put_pair_def)
  moreover obtain fk' fv' where IH: "HashTable_Clear_buckets (i + 1) n ?t =
      Some (Done () (?t\<lparr>bucketArray := take (i + 1) (bucketArray ?t) @ replicate n [], freedKeys := fk', freedValues := fv'\<rparr>))"
      "fv' = freedValues ?t @ concat (map (free_object (ht_value ?t) \<circ> pvalue) (concat (drop (i + 1) (bucketArray ?t))))"
    using Suc.IH [OF step] by blast
  moreover have "take (i + 1) ((bucketArray t)[i := []]) = take i (bucketArray t) @ [[]]"
    using Suc.prems(2) by (simp add: take_Suc_conv_app_nth)
  moreover have "drop i (bucketArray t) = bucketArray t ! i # drop (i + 1) (bucketArray t)"
    using Suc.prems(2) by (simp add: Cons_nth_drop_Suc)
  ultimately show ?case using c(2) by - (rule exI [of _ fk'], rule exI [of _ fv'], simp add: o_def)
qed

lemma clear_table:
  assumes "ht_inv t"
  shows "\<exists>t'. HashTable_Clear A t = Some (Done () t') \<and> ht_inv t' \<and> same_setup t t' \<and> ht_abs t' = (\<lambda>_. None, 0) \<and>
    freedValues t' = freedValues t @ concat (map (free_object (ht_value t) \<circ> pvalue) (table_pairs t))"
proof -
  note inv = ht_invD [OF assms]
  have n: "length (bucketArray t) = numOfBuckets t" using inv(8) by (simp add: buckets_wf_def)
  obtain fk fv where c: "HashTable_Clear_buckets 0 (numOfBuckets t) t =
      Some (Done () (t\<lparr>bucketArray := replicate (numOfBuckets t) [], freedKeys := fk, freedValues := fv\<rparr>))"
      "fv = freedValues t @ concat (map (free_object (ht_value t) \<circ> pvalue) (table_pairs t))"
    using clear_buckets [OF inv(3), of 0 "numOfBuckets t"] n by auto
  let ?t = "t\<lparr>bucketArray := replicate (numOfBuckets t) [], freedKeys := fk, freedValues := fv, numOfElements := 0\<rparr>"
  have t: "ht_inv ?t" using inv by (intro ht_invI [OF assms]) (auto simp: same_setup_def buckets_wf_def)
  have "ht_abs ?t = (\<lambda>_. None, 0)" by (auto simp: ht_abs_def ht_lookup_def lookup_def)
  moreover have "HashTable_Clear A t = Some (Done () (HashTable_Rehash A ?t 5))"
    using c(1) inv(3) by (simp add: HashTable_Clear_def)
  ultimately show ?thesis using rehash_inv [OF t, of A 5] c(2) by (simp add: same_setup_def ht_abs_def)
qed

lemma same_setup_refl [simp]: "same_setup t t"
  by (simp add: same_setup_def)

lemma hash_step_simulates:
  assumes "ht_inv t"
  shows "\<exists>r u. hash_step A p t = Done r u \<and> ht_inv u \<and> same_setup t u \<and>
    hash_spec (key_equal t) (new_object (ht_value t)) p r (ht_abs t) = Some (ht_abs u)"
proof -
  have abs: "ht_abs t = (ht_lookup t, length (table_pairs t))" by (simp add: ht_abs_def)
  have null: "ht_lookup t 0 = None" by (simp add: ht_lookup_def lookup_def)
  show ?thesis
  proof (cases p)
    case (HashInsert k v)
    show ?thesis
    proof (cases "k = 0 \<or> v = 0")
      case True
      then show ?thesis using HashInsert assms abs by (simp add: HashTable_Insert_def)
    next
      case False
      then show ?thesis using insert_table [OF assms, of k v A] HashInsert assms abs by auto
    qed
  next
    case (HashRemove k)
    show ?thesis
    proof (cases "k = 0")
      case True
      then show ?thesis using HashRemove assms abs null by (simp add: HashTable_Remove_def)
    next
      case False
      then show ?thesis using remove_table [OF assms False, of A] HashRemove assms abs by auto
    qed
  next
    case (HashSet k v)
    show ?thesis
    proof (cases "k = 0")
      case True
      then show ?thesis using HashSet assms abs null by (simp add: HashTable_SetItemValue_def)
    next
      case False
      then show ?thesis using set_table [OF assms False, of v] HashSet assms abs by auto
    qed
  next
    case (HashGet k)
    then show ?thesis using get_table [OF assms] assms abs by simp
  next
    case (HashContains k)
    then show ?thesis using get_table [OF assms] assms abs by simp
  next
    case HashCount
    then show ?thesis using ht_invD(6) [OF assms] assms abs by (simp add: HashTable_Count_def)
  next
    case HashClear
    then show ?thesis using clear_table [OF assms, of A] abs by auto
  qed
qed

interpretation hash_table: simulation "\<lambda>u. ht_inv u \<and> same_setup t u" ht_abs "hash_step A"
    "hash_spec (key_equal t) (new_object (ht_value t))" for A t
proof
  fix s p
  assume s: "ht_inv s \<and> same_setup t s"
  then have "key_equal s = key_equal t" "ht_value s = ht_value t" by (simp_all add: same_setup_def)
  then show "\<exists>r u. hash_step A p s = Done r u \<and> (ht_inv u \<and> same_setup t u) \<and>
      hash_spec (key_equal t) (new_object (ht_value t)) p r (ht_abs s) = Some (ht_abs u)"
    using hash_step_simulates [of s A p] s by (auto simp: same_setup_def)
qed

lemma new_object_plain: "fnObjectNew ob = None \<Longrightarrow> new_object ob = (\<lambda>x. x)"
  and new_object_clone: "fnObjectNew ob = Some f \<Longrightarrow> new_object ob = f"
  by (rule ext, simp add: new_object_def)+

lemma new_table_inv:
  assumes "HashTable_New A ok = Some t"
  shows "ht_inv t \<and> ht_abs t = (\<lambda>_. None, 0)"
    and "(\<And>s. s \<noteq> 0 \<Longrightarrow> clone s \<noteq> 0 \<and> chars (clone s) = chars s) \<Longrightarrow> ht_inv (HashTable_SetupForStringData chars clone sv t)"
proof -
  have t: "bucketArray t = replicate 64 []" "numOfBuckets t = 64" "numOfElements t = 0" "foreachRecursionLevel t = 0"
      "pendingRemoves t = 0" "ht_hash t = HashTable_PointerHash" "key_equal t = HashTable_PointerCompare"
      "new_object (ht_key t) = (\<lambda>x. x)"
    using assms by (auto simp: HashTable_New_def new_object_def default_object_def split: if_splits)
  then show "ht_inv t \<and> ht_abs t = (\<lambda>_. None, 0)"
    using pointer_keys.hash_key_axioms
    by (auto simp: ht_inv_def ht_wf_def buckets_wf_def keys_fit_def ht_abs_def ht_lookup_def lookup_def)
  assume "\<And>s. s \<noteq> 0 \<Longrightarrow> clone s \<noteq> 0 \<and> chars (clone s) = chars s"
  from string_keys [OF this] show "ht_inv (HashTable_SetupForStringData chars clone sv t)"
    using t by (auto simp: HashTable_SetupForStringData_def HashTable_SetHashFunction_def Let_def ht_inv_def ht_wf_def
        buckets_wf_def keys_fit_def new_object_clone)
qed

lemma get_keys_table:
  assumes "ht_inv t" "length (table_pairs t) < 2 ^ 64" "HashTable_GetKeys A t = Done ks u"
  shows "u = t \<and> (ks = [] \<or> ks = map pkey (table_pairs t))"
proof -
  note inv = ht_invD [OF assms(1)]
  have n: "numOfElements t = length (table_pairs t)" using inv(6) assms(2) by simp
  have "filter (\<lambda>p. \<not> markedForRemove p) (table_pairs t) = table_pairs t" using inv(5) by (simp add: filter_id_conv del: set_concat)
  moreover have "mem_read (bucketArray t) 0 (numOfBuckets t) = Some (bucketArray t)"
    using inv(8) by (simp add: mem_read_def buckets_wf_def)
  moreover have "mem_write xs 0 ys = Some ys" if "length ys = length xs" for xs ys :: "ptr list"
    using that by (simp add: mem_write_def)
  ultimately show ?thesis
    using assms(3) n by (auto simp: HashTable_GetKeys_def calloc_array_def split: if_splits)
qed

lemma get_keys_returns:
  assumes "ht_inv t" "length (table_pairs t) < 2 ^ 64"
  shows "\<exists>ks. HashTable_GetKeys A t = Done ks t"
proof -
  note inv = ht_invD [OF assms(1)]
  have "numOfElements t = length (table_pairs t)" using inv(6) assms(2) by simp
  moreover have "filter (\<lambda>p. \<not> markedForRemove p) (table_pairs t) = table_pairs t" using inv(5) by (simp add: filter_id_conv del: set_concat)
  moreover have "mem_read (bucketArray t) 0 (numOfBuckets t) = Some (bucketArray t)"
    using inv(8) by (simp add: mem_read_def buckets_wf_def)
  ultimately show ?thesis by (simp add: HashTable_GetKeys_def calloc_array_def mem_write_def)
qed

text \<open>C15. The hash table is a map. From any well-formed table whose key functions fit, so that the copy
  of a key never fails, whatever the allocator does, any sequence of insertions, removals,
  assignments, look-ups, counts and clears runs without an abort, through every rehash, and answers
  as the same operations on a finite map do; only the insertion of a new key may fail, without
  memory. The table stays well formed and keeps its key, value and hash functions. The array of keys,
  when there is memory for it, has exactly the keys of the map, each once. A new table is well formed
  and empty, and stays well formed when it is set up for strings that are cloned faithfully.\<close>

theorem hash_table_is_map:
  assumes "ht_inv t"
  shows "(\<exists>rs u. run_ops (hash_step A) ps t = Some (rs, u) \<and> ht_inv u \<and> same_setup t u \<and>
      spec_ops (hash_spec (key_equal t) (new_object (ht_value t))) ps rs (ht_abs t) = Some (ht_abs u))
    \<and> (snd (ht_abs t) < 2 ^ 64 \<longrightarrow>
        (\<exists>ks. HashTable_GetKeys A t = Done ks t \<and> (ks \<noteq> [] \<longrightarrow> length ks = snd (ht_abs t) \<and>
          (\<forall>k. fst (ht_abs t) k \<noteq> None \<longleftrightarrow> k \<noteq> 0 \<and> (\<exists>x\<in>set ks. key_equal t k x)))))
    \<and> (\<forall>new. HashTable_New A ok = Some new \<longrightarrow> ht_inv new \<and> ht_abs new = (\<lambda>_. None, 0) \<and>
        ((\<forall>s. s \<noteq> 0 \<longrightarrow> clone s \<noteq> 0 \<and> chars (clone s) = chars s) \<longrightarrow>
          ht_inv (HashTable_SetupForStringData chars clone stringValues new)))"
proof (intro conjI)
  note inv = ht_invD [OF assms]
  show "\<exists>rs u. run_ops (hash_step A) ps t = Some (rs, u) \<and> ht_inv u \<and> same_setup t u \<and>
      spec_ops (hash_spec (key_equal t) (new_object (ht_value t))) ps rs (ht_abs t) = Some (ht_abs u)"
    using hash_table.simulated [of t t A ps] assms by auto
  have dom: "ht_lookup t k \<noteq> None \<longleftrightarrow> k \<noteq> 0 \<and> (\<exists>x\<in>set (map pkey (table_pairs t)). key_equal t k x)" for k
  proof -
    have "ht_lookup t k = None \<longleftrightarrow> k = 0 \<or> \<not> (\<exists>x\<in>set (map pkey (table_pairs t)). key_equal t k x)"
      using inv(5) by (auto simp: ht_lookup_def lookup_def find_None_iff simp del: set_concat)
    then show ?thesis by simp
  qed
  show "snd (ht_abs t) < 2 ^ 64 \<longrightarrow>
      (\<exists>ks. HashTable_GetKeys A t = Done ks t \<and> (ks \<noteq> [] \<longrightarrow> length ks = snd (ht_abs t) \<and>
        (\<forall>k. fst (ht_abs t) k \<noteq> None \<longleftrightarrow> k \<noteq> 0 \<and> (\<exists>x\<in>set ks. key_equal t k x))))"
    unfolding ht_abs_def fst_conv snd_conv
    using get_keys_returns [OF assms, of A] get_keys_table [OF assms, of A] dom by (metis length_map)
  show "\<forall>new. HashTable_New A ok = Some new \<longrightarrow> ht_inv new \<and> ht_abs new = (\<lambda>_. None, 0) \<and>
      ((\<forall>s. s \<noteq> 0 \<longrightarrow> clone s \<noteq> 0 \<and> chars (clone s) = chars s) \<longrightarrow>
        ht_inv (HashTable_SetupForStringData chars clone stringValues new))"
    using new_table_inv by blast
qed

definition sample_table :: wHashTable where
  "sample_table = \<lparr>numOfBuckets = 2, numOfElements = 1,
     bucketArray = [[], [\<lparr>pkey = 0x10, pvalue = 7, markedForRemove = False\<rparr>]], ht_hash = HashTable_PointerHash,
     ht_key = default_object\<lparr>fnObjectEquals := HashTable_PointerCompare\<rparr>,
     ht_value = default_object\<lparr>fnObjectEquals := HashTable_PointerCompare, fnObjectFree := True\<rparr>,
     foreachRecursionLevel = 0, pendingRemoves = 0, freedKeys = [], freedValues = []\<rparr>"

lemma sample_table_inv: "ht_inv sample_table"
proof -
  have "hash_key HashTable_PointerCompare HashTable_PointerHash (new_object (default_object\<lparr>fnObjectEquals := HashTable_PointerCompare\<rparr>))"
    using pointer_keys.hash_key_axioms by (simp add: new_object_plain default_object_def)
  moreover have "HashTable_PointerHash 0x10 = 1" by (simp add: HashTable_PointerHash_def drop_bit_eq_div)
  ultimately show ?thesis
    by (auto simp: ht_inv_def ht_wf_def buckets_wf_def keys_fit_def sample_table_def bucket_of_def less_2_cases_iff)
qed

theorem hash_table_is_map_witness:
  "\<exists>rs u. run_ops (hash_step plain_allocator) [HashInsert 0x20 8, HashRemove 0x10, HashGet 0x20] sample_table = Some (rs, u) \<and>
     spec_ops (hash_spec HashTable_PointerCompare (\<lambda>v. v)) [HashInsert 0x20 8, HashRemove 0x10, HashGet 0x20] rs
       (ht_abs sample_table) = Some (ht_abs u)"
proof -
  have "key_equal sample_table = HashTable_PointerCompare" "new_object (ht_value sample_table) = (\<lambda>v. v)"
    by (simp_all add: sample_table_def new_object_plain default_object_def)
  note fns = this
  from hash_table_is_map [OF sample_table_inv, of plain_allocator "[HashInsert 0x20 8, HashRemove 0x10, HashGet 0x20]",
      THEN conjunct1]
  obtain rs u where "run_ops (hash_step plain_allocator) [HashInsert 0x20 8, HashRemove 0x10, HashGet 0x20] sample_table = Some (rs, u)"
      "spec_ops (hash_spec HashTable_PointerCompare (\<lambda>v. v)) [HashInsert 0x20 8, HashRemove 0x10, HashGet 0x20] rs
       (ht_abs sample_table) = Some (ht_abs u)"
    unfolding fns by (elim exE conjE)
  then show ?thesis by (intro exI conjI)
qed

section \<open>Visits\<close>

text \<open>A table with the same keys in the same places is as well formed.\<close>

lemma ht_wf_keys:
  assumes "ht_wf t" "map (map pkey) (bucketArray u) = map (map pkey) (bucketArray t)" "numOfBuckets u = numOfBuckets t" "same_setup t u"
  shows "ht_wf u"
proof -
  have len: "length (bucketArray u) = length (bucketArray t)" using arg_cong [OF assms(2), of length] by simp
  have "map pkey (bucketArray u ! i) = map pkey (bucketArray t ! i)" if "i < length (bucketArray t)" for i
    using arg_cong [OF assms(2), of "\<lambda>xs. xs ! i"] that len by simp
  then have keys: "pkey ` set (bucketArray u ! i) = pkey ` set (bucketArray t ! i)" if "i < length (bucketArray t)" for i
    using that by (metis list.set_map)
  have "buckets_wf (ht_hash t) (numOfBuckets t) (bucketArray u)"
    unfolding buckets_wf_def
  proof (intro conjI allI impI ballI)
    fix i p
    assume i: "i < numOfBuckets t" "p \<in> set (bucketArray u ! i)"
    then have "pkey p \<in> pkey ` set (bucketArray t ! i)" using keys assms(1) by (auto simp: ht_wf_def buckets_wf_def)
    then show "pkey p \<noteq> 0" "bucket_of (ht_hash t) (numOfBuckets t) (pkey p) = i"
      using assms(1) i(1) by (auto simp: ht_wf_def buckets_wf_def)
  qed (use assms(1) len in \<open>simp add: ht_wf_def buckets_wf_def\<close>)
  moreover have "map (key_class e) ps = map (\<lambda>k. {x. e x k}) (map pkey ps)" for e ps by (simp add: key_class_def)
  moreover have "map pkey (table_pairs u) = map pkey (table_pairs t)" using assms(2) by (simp add: map_concat)
  ultimately show ?thesis using assms(1,3,4) by (simp add: ht_wf_def same_setup_def del: map_map)
qed

text \<open>The callback that records what it is given and removes what satisfies \<open>P\<close>.\<close>

definition remove_if :: "allocator \<Rightarrow> (ptr \<Rightarrow> ptr \<Rightarrow> bool) \<Rightarrow>
    ptr \<Rightarrow> ptr \<Rightarrow> (ptr \<times> ptr) list \<Rightarrow> wHashTable \<Rightarrow> (bool \<times> (ptr \<times> ptr) list, wHashTable) outcome" where
  "remove_if A P k v c t =
     run_bind (if P k v then HashTable_Remove A t k else Done () t) (\<lambda>_ t. Done (True, c @ [(k, v)]) t)"

definition marked_if :: "(ptr \<Rightarrow> ptr \<Rightarrow> bool) \<Rightarrow> wKeyValuePair \<Rightarrow> wKeyValuePair" where
  "marked_if P p = (if P (pkey p) (pvalue p) then p\<lparr>markedForRemove := True\<rparr> else p)"

lemma marked_if_simps [simp]: "pkey (marked_if P p) = pkey p" "pvalue (marked_if P p) = pvalue p"
  "\<not> markedForRemove p \<Longrightarrow> markedForRemove (marked_if P p) = P (pkey p) (pvalue p)"
  by (simp_all add: marked_if_def)

definition entry :: "wKeyValuePair \<Rightarrow> ptr \<times> ptr" where
  "entry p = (pkey p, pvalue p)"

text \<open>The removal of a key during a visit marks its pair.\<close>

lemma remove_marks:
  assumes "ht_wf t" "keys_fit t" "foreachRecursionLevel t \<noteq> 0" "i < numOfBuckets t" "j < length (bucketArray t ! i)"
  shows "HashTable_Remove A t (pkey (bucketArray t ! i ! j)) =
    Done () (t\<lparr>bucketArray := (bucketArray t)[i := (bucketArray t ! i)[j := (bucketArray t ! i ! j)\<lparr>markedForRemove := True\<rparr>]],
      pendingRemoves := pendingRemoves t + 1, numOfElements := size_sub (numOfElements t) 1\<rparr>)"
proof -
  let ?chain = "bucketArray t ! i" and ?p = "bucketArray t ! i ! j"
  have wf: "length (bucketArray t) = numOfBuckets t" "pkey ?p \<noteq> 0" "bucket_of (ht_hash t) (numOfBuckets t) (pkey ?p) = i"
    using assms(1,4,5) by (simp_all add: ht_wf_def buckets_wf_def)
  have fit: "hash_key (key_equal t) (ht_hash t) (new_object (ht_key t))" using assms(2) by (simp add: keys_fit_def)
  have self: "HashTable_Equals t ?p (pkey ?p)" using hash_key.eq_refl [OF fit] by (simp add: HashTable_Equals_def)
  obtain k where k: "first_match (\<lambda>p. HashTable_Equals t p (pkey ?p)) ?chain = Some k"
    using first_match_None [of "\<lambda>p. HashTable_Equals t p (pkey ?p)" ?chain] self nth_mem [OF assms(5)] by blast
  have kk: "k < length ?chain" "key_equal t (pkey ?p) (pkey (?chain ! k))"
    using first_match_Some [OF k] by (simp_all add: HashTable_Equals_def)
  have "distinct (map (key_class (key_equal t)) ?chain)"
    using assms(1) concat_update(2) [of i "bucketArray t"] assms(4) wf(1) by (simp add: ht_wf_def)
  moreover have "key_class (key_equal t) ?p = key_class (key_equal t) (?chain ! k)"
    using kk(2) hash_key.same_class [OF fit] by blast
  ultimately have "k = j" using kk(1) assms(5) by (metis length_map nth_eq_iff_index_eq nth_map)
  moreover have "key_chain t (pkey ?p) = Some (i, ?chain)"
    using wf assms(4) by (simp add: key_chain_def Let_def)
  ultimately show ?thesis using wf(2) k assms(3) by (simp add: HashTable_Remove_def put_pair_def)
qed

abbreviation removals :: "(ptr \<Rightarrow> ptr \<Rightarrow> bool) \<Rightarrow> wKeyValuePair list \<Rightarrow> nat" where
  "removals P ps \<equiv> length (filter (\<lambda>p. P (pkey p) (pvalue p)) ps)"

lemma foreach_chain_step:
  assumes "ht_wf t" "keys_fit t" "foreachRecursionLevel t \<noteq> 0" "i < numOfBuckets t"
    "bucketArray t ! i = map (marked_if P) (take m chain) @ p # rest" "m < length chain" "\<not> markedForRemove p"
  shows "HashTable_Foreach_chain (remove_if A P) i (Suc (length rest)) c t =
    HashTable_Foreach_chain (remove_if A P) i (length rest) (c @ [entry p])
      (if P (pkey p) (pvalue p)
       then t\<lparr>bucketArray := (bucketArray t)[i := map (marked_if P) (take m chain) @ marked_if P p # rest],
         pendingRemoves := pendingRemoves t + 1, numOfElements := size_sub (numOfElements t) 1\<rparr>
       else t)"
proof -
  have len: "length (bucketArray t) = numOfBuckets t" using assms(1) by (simp add: ht_wf_def buckets_wf_def)
  have m: "length (bucketArray t ! i) = m + Suc (length rest)" "bucketArray t ! i ! m = p" "m < length (bucketArray t ! i)"
    using assms(5,6) by (simp_all add: nth_append)
  have "(bucketArray t ! i)[m := q] = map (marked_if P) (take m chain) @ q # rest" for q
    using assms(5,6) by (simp add: list_update_append)
  then have "HashTable_Remove A t (pkey p) =
      Done () (t\<lparr>bucketArray := (bucketArray t)[i := map (marked_if P) (take m chain) @ p\<lparr>markedForRemove := True\<rparr> # rest],
        pendingRemoves := pendingRemoves t + 1, numOfElements := size_sub (numOfElements t) 1\<rparr>)"
    using remove_marks [OF assms(1-4) m(3), of A] m(2) by simp
  then show ?thesis
    using len assms(4,7) m(1,2) by (simp add: remove_if_def entry_def marked_if_def Let_def)
qed

lemma foreach_chain:
  assumes "ht_wf t" "keys_fit t" "foreachRecursionLevel t \<noteq> 0" "i < numOfBuckets t"
    "bucketArray t ! i = map (marked_if P) (take m chain) @ drop m chain" "m + k = length chain"
    "\<And>p. p \<in> set chain \<Longrightarrow> \<not> markedForRemove p" "numOfElements t = (a + removals P (drop m chain)) mod 2 ^ 64"
  shows "HashTable_Foreach_chain (remove_if A P) i k c t = Done (True, c @ map entry (drop m chain))
    (t\<lparr>bucketArray := (bucketArray t)[i := map (marked_if P) chain],
       pendingRemoves := pendingRemoves t + of_nat (removals P (drop m chain)), numOfElements := a mod 2 ^ 64\<rparr>)"
  using assms
proof (induction k arbitrary: m c t)
  case 0
  then have "bucketArray t ! i = map (marked_if P) chain" "drop m chain = []" by simp_all
  then show ?case using 0 list_update_id [of "bucketArray t" i] by simp
next
  case (Suc k)
  let ?p = "chain ! m" and ?rest = "drop (m + 1) chain"
  have m: "m < length chain" using Suc.prems(6) by simp
  then have d: "drop m chain = ?p # ?rest" "length ?rest = k" using Suc.prems(6) by (simp_all add: Cons_nth_drop_Suc)
  have p: "\<not> markedForRemove ?p" using Suc.prems(7) m by simp
  have tk: "map (marked_if P) (take (m + 1) chain) = map (marked_if P) (take m chain) @ [marked_if P ?p]"
    using m by (simp add: take_Suc_conv_app_nth)
  have len: "length (bucketArray t) = numOfBuckets t" using Suc.prems(1) by (simp add: ht_wf_def buckets_wf_def)
  let ?new = "map (marked_if P) (take m chain) @ marked_if P ?p # ?rest"
  define u where "u = (if P (pkey ?p) (pvalue ?p)
    then t\<lparr>bucketArray := (bucketArray t)[i := ?new], pendingRemoves := pendingRemoves t + 1,
      numOfElements := size_sub (numOfElements t) 1\<rparr> else t)"
  have old: "bucketArray t ! i = map (marked_if P) (take m chain) @ ?p # ?rest" using Suc.prems(5) d(1) by simp
  have step: "HashTable_Foreach_chain (remove_if A P) i (Suc k) c t =
      HashTable_Foreach_chain (remove_if A P) i k (c @ [entry ?p]) u"
    using foreach_chain_step [OF Suc.prems(1-4) old m p, of A c] unfolding d(2) u_def .
  have same: "?new = bucketArray t ! i" if "\<not> P (pkey ?p) (pvalue ?p)"
    using that old by (simp add: marked_if_def)
  have bu: "bucketArray u = (bucketArray t)[i := ?new]" using same by (simp add: u_def)
  have nu: "numOfElements u = (a + removals P ?rest) mod 2 ^ 64"
    using Suc.prems(8) d(1) size_sub_one [of "a + removals P ?rest"] by (simp add: u_def)
  have keys: "map (map pkey) (bucketArray u) = map (map pkey) (bucketArray t)"
  proof -
    have "map pkey ?new = map pkey (bucketArray t ! i)" unfolding old by (simp add: o_def)
    then show ?thesis unfolding bu using Suc.prems(4) len 
      by (metis list_update_id map_update nth_map)
  qed
  have cfg: "same_setup t u" "numOfBuckets u = numOfBuckets t" "foreachRecursionLevel u = foreachRecursionLevel t"
    by (simp_all add: same_setup_def u_def)
  have u: "ht_wf u" "keys_fit u"
    using ht_wf_keys [OF Suc.prems(1) keys cfg(2,1)] Suc.prems(2) cfg(1) by (simp_all add: keys_fit_def same_setup_def)
  have "HashTable_Foreach_chain (remove_if A P) i k (c @ [entry ?p]) u =
      Done (True, (c @ [entry ?p]) @ map entry ?rest) (u\<lparr>bucketArray := (bucketArray u)[i := map (marked_if P) chain],
        pendingRemoves := pendingRemoves u + of_nat (removals P ?rest), numOfElements := a mod 2 ^ 64\<rparr>)"
    using Suc.prems(3,4,6,7) u cfg nu bu tk len by (intro Suc.IH) simp_all
  then show ?case unfolding step d(1) by (simp add: u_def bu)
qed

lemma foreach_buckets:
  assumes "ht_wf t" "keys_fit t" "foreachRecursionLevel t \<noteq> 0" "i + n = numOfBuckets t"
    "bucketArray t = map (map (marked_if P)) (take i bs) @ drop i bs" "length bs = numOfBuckets t"
    "\<And>p. p \<in> set (concat bs) \<Longrightarrow> \<not> markedForRemove p" "numOfElements t = (a + removals P (concat (drop i bs))) mod 2 ^ 64"
  shows "HashTable_Foreach_buckets (remove_if A P) i n c t = Done (True, c @ map entry (concat (drop i bs)))
    (t\<lparr>bucketArray := map (map (marked_if P)) bs,
       pendingRemoves := pendingRemoves t + of_nat (removals P (concat (drop i bs))), numOfElements := a mod 2 ^ 64\<rparr>)"
  using assms
proof (induction n arbitrary: i c t)
  case 0
  then have "bucketArray t = map (map (marked_if P)) bs" "drop i bs = []" by simp_all
  then show ?case using 0 by simp
next
  case (Suc n)
  let ?chain = "bs ! i" and ?rest = "concat (drop (i + 1) bs)"
  have i: "i < numOfBuckets t" "i < length bs" using Suc.prems(4,6) by simp_all
  have d: "concat (drop i bs) = ?chain @ ?rest" using i(2) by (simp add: Cons_nth_drop_Suc [symmetric])
  have bi: "bucketArray t ! i = ?chain" using Suc.prems(5) i(2) by (simp add: nth_append)
  have unmarked: "\<And>p. p \<in> set ?chain \<Longrightarrow> \<not> markedForRemove p" using Suc.prems(7) i(2) nth_mem by auto
  let ?u = "t\<lparr>bucketArray := (bucketArray t)[i := map (marked_if P) ?chain],
    pendingRemoves := pendingRemoves t + of_nat (removals P ?chain), numOfElements := (a + removals P ?rest) mod 2 ^ 64\<rparr>"
  have "HashTable_Foreach_chain (remove_if A P) i (length ?chain) c t = Done (True, c @ map entry ?chain) ?u"
    using foreach_chain [of t i P 0 ?chain "length ?chain" "a + removals P ?rest" A c] Suc.prems(1-3,8) i(1) bi unmarked d
    by (simp add: ac_simps)
  moreover have "i < length (bucketArray t)" using Suc.prems(5) i(2) by simp
  ultimately have step: "HashTable_Foreach_buckets (remove_if A P) i (Suc n) c t =
      HashTable_Foreach_buckets (remove_if A P) (i + 1) n (c @ map entry ?chain) ?u"
    using bi by simp
  have new: "bucketArray ?u = map (map (marked_if P)) (take (i + 1) bs) @ drop (i + 1) bs"
    using Suc.prems(5) i(2) by (simp add: take_Suc_conv_app_nth list_update_append Cons_nth_drop_Suc [symmetric])
  have keys: "map (map pkey) (bucketArray ?u) = map (map pkey) (bucketArray t)"
  proof -
    have "map (map pkey) (map (map (marked_if P)) xs @ ys) = map (map pkey) (xs @ ys)" for xs ys by (simp add: o_def)
    then have "map (map pkey) (map (map (marked_if P)) (take j bs) @ drop j bs) = map (map pkey) bs" for j
      by (metis append_take_drop_id)
    then show ?thesis unfolding new by (simp only: Suc.prems(5))
  qed
  have u: "ht_wf ?u" "keys_fit ?u"
    using ht_wf_keys [OF Suc.prems(1) keys] Suc.prems(2) by (simp_all add: keys_fit_def same_setup_def)
  have "HashTable_Foreach_buckets (remove_if A P) (i + 1) n (c @ map entry ?chain) ?u =
      Done (True, (c @ map entry ?chain) @ map entry ?rest) (?u\<lparr>bucketArray := map (map (marked_if P)) bs,
        pendingRemoves := pendingRemoves ?u + of_nat (removals P ?rest), numOfElements := a mod 2 ^ 64\<rparr>)"
    using Suc.prems(3,4,6,7) u new by (intro Suc.IH) simp_all
  then show ?case unfolding step d by (simp add: ac_simps)
qed

lemma dispose_pairs:
  "fold disposePair ps t = t\<lparr>freedKeys := freedKeys t @ concat (map (free_object (ht_key t) \<circ> pkey) ps),
     freedValues := freedValues t @ concat (map (free_object (ht_value t) \<circ> pvalue) ps)\<rparr>"
  by (induction ps arbitrary: t) (simp_all add: disposePair_def disposeKey_def disposeValue_def)

lemma filter_marked:
  assumes "\<And>p. p \<in> set ps \<Longrightarrow> \<not> markedForRemove p"
  shows "filter (\<lambda>p. \<not> markedForRemove p) (map (marked_if P) ps) = filter (\<lambda>p. \<not> P (pkey p) (pvalue p)) ps"
    "map pvalue (filter markedForRemove (map (marked_if P) ps)) = map pvalue (filter (\<lambda>p. P (pkey p) (pvalue p)) ps)"
  using assms by (induction ps) (auto simp: marked_if_def)

text \<open>C16. A visit may remove what it visits. On a well-formed table with fewer than \<open>2 ^ 32\<close> pairs,
  \<open>HashTable_Foreach\<close> with a callback that removes the entries satisfying \<open>P\<close> calls it exactly once for
  each pair and returns; afterwards the table is well formed, holds exactly the other pairs in their
  order, has released the removed values exactly once, and is no longer in a visit.\<close>

theorem hash_table_foreach:
  assumes "ht_inv t" "length (table_pairs t) < 2 ^ 32"
  shows "\<exists>u. HashTable_Foreach (remove_if A P) [] t = Done (True, map entry (table_pairs t)) u \<and> ht_inv u \<and>
    table_pairs u = filter (\<lambda>p. \<not> P (pkey p) (pvalue p)) (table_pairs t) \<and>
    freedValues u = freedValues t @
      concat (map (free_object (ht_value t) \<circ> pvalue) (filter (\<lambda>p. P (pkey p) (pvalue p)) (table_pairs t)))"
proof -
  note inv = ht_invD [OF assms(1)]
  let ?ps = "table_pairs t" and ?keep = "\<lambda>p. \<not> P (pkey p) (pvalue p)" and ?bs = "bucketArray t"
  define r a where "r = removals P ?ps" and "a = length (filter ?keep ?ps)"
  have sum: "length ?ps = a + r" unfolding r_def a_def using sum_length_filter_compl [of ?keep ?ps] by simp
  have len: "length ?bs = numOfBuckets t" using inv(8) by (simp add: buckets_wf_def)
  have unmarked: "\<And>p. p \<in> set ?ps \<Longrightarrow> \<not> markedForRemove p" using inv(5) .
  let ?t = "t\<lparr>foreachRecursionLevel := 1\<rparr>"
  have "ht_wf ?t" "keys_fit ?t" using inv(1,2) by (simp_all add: ht_wf_def keys_fit_def)
  then have visit: "HashTable_Foreach_buckets (remove_if A P) 0 (numOfBuckets t) [] ?t = Done (True, map entry ?ps)
      (?t\<lparr>bucketArray := map (map (marked_if P)) ?bs, pendingRemoves := of_nat r, numOfElements := a mod 2 ^ 64\<rparr>)"
    using foreach_buckets [of ?t 0 "numOfBuckets t" P ?bs a A "[]"] inv(4,6) len unmarked sum by (simp add: r_def)
  let ?bs' = "map (filter ?keep) ?bs"
  have kept: "concat ?bs' = filter ?keep ?ps" by (simp add: filter_concat)
  have marks: "filter (\<lambda>p. \<not> markedForRemove p) (map (marked_if P) ch) = filter ?keep ch" if "ch \<in> set ?bs" for ch
    using that unmarked by (intro filter_marked) auto
  have cleaned: "map (filter (\<lambda>p. \<not> markedForRemove p)) (map (map (marked_if P)) ?bs) = ?bs'"
    using marks by simp
  have wf': "buckets_wf (ht_hash t) (numOfBuckets t) ?bs'" "unique_keys (key_equal t) (concat ?bs')"
    using inv(8) distinct_map_filter [OF inv(9)] unfolding kept by (auto simp: buckets_wf_def)
  have released: "map pvalue (filter markedForRemove (concat (map (map (marked_if P)) ?bs))) =
      map pvalue (filter (\<lambda>p. P (pkey p) (pvalue p)) ?ps)"
    unfolding map_concat [symmetric] by (rule filter_marked(2) [OF unmarked])
  show ?thesis
  proof (cases "r = 0")
    case True
    then have all: "filter ?keep ?ps = ?ps" "filter (\<lambda>p. P (pkey p) (pvalue p)) ?ps = []"
      unfolding r_def by (simp_all add: filter_empty_conv filter_id_conv)
    have "marked_if P p = p" if "p \<in> set ?ps" for p
      using all(2) that by (auto simp: marked_if_def filter_empty_conv)
    then have "map (map (marked_if P)) ?bs = ?bs" by (intro map_idI) auto
    then have "HashTable_Foreach (remove_if A P) [] t = Done (True, map entry ?ps) t"
      using visit True inv(3,4,6) sum by (simp add: HashTable_Foreach_def)
    then show ?thesis using assms(1) all by simp
  next
    case False
    have "(of_nat r :: u32) \<noteq> 0"
      using False assms(2) sum by (simp add: of_nat_eq_0_iff word_of_nat_eq_0_iff nat_dvd_not_less)
    then have run: "HashTable_Foreach (remove_if A P) [] t = Done (True, map entry ?ps)
        (HashTable_Cleanup (t\<lparr>bucketArray := map (map (marked_if P)) ?bs, pendingRemoves := of_nat r, numOfElements := a mod 2 ^ 64,
          foreachRecursionLevel := 0\<rparr>))"
      using visit inv(3) by (simp add: HashTable_Foreach_def)
    let ?u = "HashTable_Cleanup (t\<lparr>bucketArray := map (map (marked_if P)) ?bs, pendingRemoves := of_nat r, numOfElements := a mod 2 ^ 64,
      foreachRecursionLevel := 0\<rparr>)"
    have u: "bucketArray ?u = ?bs'" "pendingRemoves ?u = 0" "numOfElements ?u = a mod 2 ^ 64" "same_setup t ?u"
        "numOfBuckets ?u = numOfBuckets t" "foreachRecursionLevel ?u = foreachRecursionLevel t"
      unfolding HashTable_Cleanup_def dispose_pairs using cleaned inv(3) by (simp_all add: same_setup_def)
    have "freedValues ?u = freedValues t @ concat (map (free_object (ht_value t))
        (map pvalue (filter markedForRemove (concat (map (map (marked_if P)) ?bs)))))"
      unfolding HashTable_Cleanup_def dispose_pairs by simp
    then have "freedValues ?u = freedValues t @
        concat (map (free_object (ht_value t) \<circ> pvalue) (filter (\<lambda>p. P (pkey p) (pvalue p)) ?ps))"
      unfolding released by simp
    moreover have "ht_inv ?u"
      using u wf' inv(4) unmarked kept a_def by (intro ht_invI [OF assms(1)]) (simp_all del: set_concat)
    ultimately show ?thesis using run u(1) kept by auto
  qed
qed

theorem hash_table_foreach_witness:
  "\<exists>u. HashTable_Foreach (remove_if plain_allocator (\<lambda>k v. v = 7)) [] sample_table = Done (True, [(0x10, 7)]) u \<and>
     table_pairs u = [] \<and> freedValues u = [7]"
proof -
  have "length (table_pairs sample_table) < 2 ^ 32" by (simp add: sample_table_def)
  from hash_table_foreach [OF sample_table_inv this, of plain_allocator "\<lambda>k v. v = 7"] show ?thesis
    by (auto simp: sample_table_def entry_def free_object_def)
qed

section \<open>Where the protocol of a visit breaks\<close>

lemma clear_chain_stuck:
  assumes "HashTable_Clear_chain chain t = Some u"
  shows "foreachRecursionLevel t = 0 \<or> chain = []"
proof (rule HashTable_Clear_chain.raw_induct [OF _ assms])
  fix f chain t u
  assume "\<And>chain t u. f chain t = Some u \<Longrightarrow> foreachRecursionLevel t = 0 \<or> chain = []"
    and "(case chain of [] \<Rightarrow> Some t
      | pair # nextPair \<Rightarrow>
          if foreachRecursionLevel t \<noteq> 0
          then f (pair\<lparr>markedForRemove := True\<rparr> # nextPair) (t\<lparr>pendingRemoves := pendingRemoves t + 1\<rparr>)
          else f nextPair (disposePair pair t)) = Some u"
  then show "foreachRecursionLevel t = 0 \<or> chain = []" by (fastforce split: list.splits if_splits)
qed

lemma clear_buckets_stuck:
  assumes "foreachRecursionLevel t \<noteq> 0" "i + n = length (bucketArray t)" "concat (drop i (bucketArray t)) \<noteq> []"
  shows "HashTable_Clear_buckets i n t = None"
  using assms
proof (induction n arbitrary: i t)
  case (Suc n)
  have d: "concat (drop i (bucketArray t)) = bucketArray t ! i @ concat (drop (i + 1) (bucketArray t))"
    using Suc.prems(2) by (simp add: Cons_nth_drop_Suc [symmetric])
  show ?case
  proof (cases "bucketArray t ! i = []")
    case True
    then have "HashTable_Clear_chain (bucketArray t ! i) t = Some t" by (simp add: HashTable_Clear_chain.simps)
    moreover have "HashTable_Clear_buckets (i + 1) n (put_pair i [] t) = None"
      using Suc.prems d True by (intro Suc.IH) (simp_all add: put_pair_def)
    ultimately show ?thesis using Suc.prems(2) by simp
  next
    case False
    then have "HashTable_Clear_chain (bucketArray t ! i) t = None"
      using clear_chain_stuck [of "bucketArray t ! i" t] Suc.prems(1) by (cases "HashTable_Clear_chain (bucketArray t ! i) t") auto
    then show ?thesis using Suc.prems(2) by simp
  qed
qed simp

lemma foreach_stops:
  assumes "i + n = length (bucketArray t)" "concat (drop i (bucketArray t)) \<noteq> []"
    "\<And>p. p \<in> set (table_pairs t) \<Longrightarrow> \<not> markedForRemove p"
  shows "HashTable_Foreach_buckets (\<lambda>k v c t. Done (False, c) t) i n c t = Done (False, c) t"
  using assms(1,2)
proof (induction n arbitrary: i)
  case (Suc n)
  have d: "concat (drop i (bucketArray t)) = bucketArray t ! i @ concat (drop (i + 1) (bucketArray t))"
    using Suc.prems(1) by (simp add: Cons_nth_drop_Suc [symmetric])
  have i: "i < length (bucketArray t)" using Suc.prems(1) by simp
  show ?case
  proof (cases "bucketArray t ! i")
    case Nil
    then show ?thesis using Suc.IH [of "i + 1"] Suc.prems d by simp
  next
    case (Cons p ps)
    then have "p \<in> set (table_pairs t)" using nth_mem [OF i] by force
    then have "\<not> markedForRemove p" by (rule assms(3))
    then show ?thesis using Cons i by simp
  qed
qed simp

text \<open>C32. Where the hash table departs from a map. Called from within a visit of a table that holds a
  pair, \<open>HashTable_Clear\<close> never returns. A visit that its callback stops leaves the table in the state
  of a visit. A second removal of the same key within a visit succeeds and is counted again. The
  question whether a value is contained is answered for the keys. And assigning a key the value it
  has releases that value and keeps it.\<close>

theorem hash_table_departures:
  assumes "ht_inv t" "ht_lookup t k = Some v"
  shows "HashTable_Clear A (t\<lparr>foreachRecursionLevel := 1\<rparr>) = None
    \<and> HashTable_Foreach (\<lambda>k v c t. Done (False, c) t) c t = Done (False, c) (t\<lparr>foreachRecursionLevel := 1\<rparr>)
    \<and> (\<exists>u w. HashTable_Remove A (t\<lparr>foreachRecursionLevel := 1\<rparr>) k = Done () u \<and> HashTable_Remove A u k = Done () w \<and>
        HashTable_Count w = size_sub (size_sub (HashTable_Count t) 1) 1)
    \<and> HashTable_ContainsValue t x = Done (x \<noteq> 0 \<and> (\<exists>p\<in>set (table_pairs t). key_equal t x (pkey p))) t
    \<and> (fnObjectFree (ht_value t) \<and> fnObjectNew (ht_value t) = None \<longrightarrow>
        (\<exists>u. HashTable_SetItemValue t k v = Done () u \<and> ht_lookup u k = Some v \<and> freedValues u = freedValues t @ [v]))"
proof (intro conjI)
  note inv = ht_invD [OF assms(1)]
  have k: "k \<noteq> 0" using assms(2) by (auto simp: ht_lookup_def lookup_def)
  have len: "length (bucketArray t) = numOfBuckets t" using inv(8) by (simp add: buckets_wf_def)
  have "lookup (key_equal t) [] k = None" by (simp add: lookup_def)
  then have ne: "table_pairs t \<noteq> []" using assms(2) unfolding ht_lookup_def by (metis option.distinct(1))
  show "HashTable_Clear A (t\<lparr>foreachRecursionLevel := 1\<rparr>) = None"
    using clear_buckets_stuck [of "t\<lparr>foreachRecursionLevel := 1\<rparr>" 0 "numOfBuckets t"] len ne by (simp add: HashTable_Clear_def del: concat_eq_Nil_conv)
  show "HashTable_Foreach (\<lambda>k v c t. Done (False, c) t) c t = Done (False, c) (t\<lparr>foreachRecursionLevel := 1\<rparr>)"
    using foreach_stops [of 0 "numOfBuckets t" "t\<lparr>foreachRecursionLevel := 1\<rparr>" c] len ne inv(3,5)
    by (simp add: HashTable_Foreach_def del: concat_eq_Nil_conv)
  show "HashTable_ContainsValue t x = Done (x \<noteq> 0 \<and> (\<exists>p\<in>set (table_pairs t). key_equal t x (pkey p))) t"
    using inv(5) len by (auto simp: HashTable_ContainsValue_def mem_read_def list_ex_iff HashTable_Equals_def simp del: set_concat)
  show "fnObjectFree (ht_value t) \<and> fnObjectNew (ht_value t) = None \<longrightarrow>
      (\<exists>u. HashTable_SetItemValue t k v = Done () u \<and> ht_lookup u k = Some v \<and> freedValues u = freedValues t @ [v])"
    using set_table [OF assms(1) k, of v] assms(2) k hash_key.eq_refl [OF inv(10)]
    by (auto simp: ht_abs_def map_put_def new_object_plain free_object_def)
  show "\<exists>u w. HashTable_Remove A (t\<lparr>foreachRecursionLevel := 1\<rparr>) k = Done () u \<and> HashTable_Remove A u k = Done () w \<and>
      HashTable_Count w = size_sub (size_sub (HashTable_Count t) 1) 1"
    using assms(1) k
  proof (cases rule: key_found)
    case (absent i)
    then show ?thesis using assms(2) by simp
  next
    case (present i j)
    let ?q = "(bucketArray t ! i ! j)\<lparr>markedForRemove := True\<rparr>"
    let ?u = "t\<lparr>foreachRecursionLevel := 1, bucketArray := (bucketArray t)[i := (bucketArray t ! i)[j := ?q]],
      pendingRemoves := pendingRemoves t + 1, numOfElements := size_sub (numOfElements t) 1\<rparr>"
    have chain: "key_chain (t\<lparr>foreachRecursionLevel := 1\<rparr>) k = Some (i, bucketArray t ! i)"
      using present(1,2) inv(7) by (simp add: key_chain_def Let_def)
    have u: "HashTable_Remove A (t\<lparr>foreachRecursionLevel := 1\<rparr>) k = Done () ?u"
      using present(4) chain k by (simp add: HashTable_Remove_def put_pair_def HashTable_Equals_def)
    have "first_match (\<lambda>p. HashTable_Equals ?u p k) ((bucketArray t ! i)[j := ?q]) \<noteq> None"
    proof -
      have "?q \<in> set ((bucketArray t ! i)[j := ?q])" using present(9) by (rule set_update_memI)
      moreover have "HashTable_Equals ?u ?q k" using present(7) by (simp add: HashTable_Equals_def)
      ultimately show ?thesis unfolding first_match_None by blast
    qed
    then obtain j' where "first_match (\<lambda>p. HashTable_Equals ?u p k) ((bucketArray t ! i)[j := ?q]) = Some j'" by blast
    moreover have "key_chain ?u k = Some (i, (bucketArray t ! i)[j := ?q])"
      using present(1,2) inv(7) len by (simp add: key_chain_def Let_def)
    ultimately have "\<exists>w. HashTable_Remove A ?u k = Done () w \<and> numOfElements w = size_sub (size_sub (numOfElements t) 1) 1"
      using k by (simp add: HashTable_Remove_def)
    then show ?thesis using u unfolding HashTable_Count_def by blast
  qed
qed

theorem hash_table_departures_witness:
  "HashTable_Clear plain_allocator (sample_table\<lparr>foreachRecursionLevel := 1\<rparr>) = None \<and>
   HashTable_ContainsValue sample_table 7 = Done False sample_table \<and>
   HashTable_ContainsValue sample_table 0x10 = Done True sample_table \<and>
   (\<exists>u. HashTable_SetItemValue sample_table 0x10 7 = Done () u \<and> ht_lookup u 0x10 = Some 7 \<and> freedValues u = [7])"
proof -
  have "ht_lookup sample_table 0x10 = Some 7"
    by (simp add: ht_lookup_def lookup_def sample_table_def HashTable_PointerCompare_def)
  note d = hash_table_departures [OF sample_table_inv this]
  have "fnObjectFree (ht_value sample_table)" "fnObjectNew (ht_value sample_table) = None" "freedValues sample_table = []"
    by (simp_all add: sample_table_def default_object_def)
  moreover have key: "(x \<noteq> 0 \<and> (\<exists>p\<in>set (table_pairs sample_table). key_equal sample_table x (pkey p))) = (x = 0x10)" for x
    by (auto simp: sample_table_def HashTable_PointerCompare_def)
  moreover have "HashTable_ContainsValue sample_table x = Done (x = 0x10) sample_table" for x
    using d [of plain_allocator "()" x] unfolding key by (elim conjE)
  moreover have "HashTable_Clear plain_allocator (sample_table\<lparr>foreachRecursionLevel := 1\<rparr>) = None"
    using d [of plain_allocator "()" 0] by (elim conjE)
  ultimately show ?thesis using d [of plain_allocator "()", THEN conjunct2, THEN conjunct2, THEN conjunct2, THEN conjunct2] by simp
qed

end
