(* ===== verification/Spec2Isabelle.thy ===== *)
theory Spec2Isabelle
  imports Channel_Join Ring_Buffer Object_Queue Hash_Table
begin

text \<open>
  A verification library for FreeRDP, an implementation of the Remote Desktop Protocol, and WinPR, the
  portability layer under it.

  \<^bold>\<open>The program.\<close> A client and a server exchange packets over a transport. A packet is framed by TPKT
  and X.224, carries an MCS domain PDU encoded with PER or, while connecting, BER, and is parsed from
  and built in a byte stream of WinPR. The connection runs through a state machine of which the
  channel join is one phase. Beside the protocol, the program keeps its bytes in ring buffers and its
  objects in the collections of WinPR.

  \<^bold>\<open>The theories and the code they model.\<close>

  \<^item> \<open>Prelude\<close>: machine integers, the outcome of a C function (it aborts, fails or is done), memory
    blocks, the allocator, and rings. Whether a request of the allocator succeeds, and what fresh memory
    holds, is any function of the requested size, one function for all requests of a run.
  \<^item> \<open>Wire_Stream\<close>: \<open>wStream\<close> with its readers, writers, checks and growth (\<open>winpr/stream.h\<close>,
    \<open>utils/stream.c\<close>, \<open>winpr/endian.h\<close>); one definition per function.
  \<^item> \<open>Wire_Codec\<close>: the calculus for code on streams. \<open>writes\<close> and \<open>emits\<close> say what a writer appends,
    \<open>consumes\<close> that a reader is safe on every input; the locales \<open>wire_codec\<close> and \<open>growing_codec\<close> are
    the interface of an encoding.
  \<^item> \<open>Per\<close>, \<open>Ber\<close>: \<open>crypto/per.c\<close> and \<open>crypto/ber.c\<close>; \<open>X224\<close>: \<open>core/tpkt.c\<close> and \<open>core/tpdu.c\<close>.
  \<^item> \<open>Mcs\<close>: \<open>core/mcs.c\<close>, the domain parameters and the PDUs that erect a domain, attach a user, join
    a channel and disconnect; the locale \<open>domain_pdu\<close> is what each of these PDUs promises.
  \<^item> \<open>Channel_Join\<close>: the handlers of the join phase on both sides (\<open>core/connection.c\<close>,
    \<open>core/rdp.c\<close>), with the client as the step relation \<open>client_step\<close>.
  \<^item> \<open>Ring_Buffer\<close>: \<open>utils/ringbuffer.c\<close>, an instance of the locale \<open>byte_fifo\<close>.
  \<^item> \<open>Collections\<close>: what the collections share, and the locale \<open>simulation\<close>: a collection answers every
    sequence of operations as an abstract container does.
  \<^item> \<open>Object_Queue\<close>: \<open>collections/Queue.c\<close>, an instance of \<open>object_fifo\<close>; \<open>Object_List\<close>:
    \<open>collections/ArrayList.c\<close> and \<open>collections/Stack.c\<close>; \<open>Hash_Table\<close>: \<open>collections/HashTable.c\<close>, over
    keys that meet the locale \<open>hash_key\<close>. The last three are instances of \<open>simulation\<close>.

  \<^bold>\<open>State and operations.\<close> A C structure is a record with the source's fields, an operation a function
  from the state to an outcome with the state after it. \<open>Abort\<close> stands for a failed assertion and for
  every access outside a memory block, so a theorem that a function does not abort is one of memory
  safety. What is outside the sources is an argument: the allocator, the transport \<open>tx\<close>, the
  application's callbacks.

  \<^bold>\<open>What the lemmas show.\<close> The readers of every layer are safe on every input and return values in
  range; the PER readers that compare with a block of the caller need that block to be as long as
  the caller says. What a writer wrote is read back, within exactly stated bounds. The client never leaves the
  join phase early, whatever it receives, handles boundedly many packets, and completes the phase
  with a server that agrees on the channels. The ring buffer and the collections refine queues,
  lists, stacks and maps through growth, wrap-around and rehashing, for every allocator of that kind.
  They assume of the application's functions what the theorems name: a clone of a key or of a list's
  object succeeds, and callbacks do not change the collection, but for the removals of
  \<open>hash_table_foreach\<close>. Where the code departs from what it means to do, a theorem of its own states how.

  \<^bold>\<open>Bounds and loops.\<close> \<open>size_t\<close> values are natural numbers with the wrap-around written out, and an
  allocation is at most \<open>PTRDIFF_MAX\<close> bytes. No fuel is used: loops are structural recursions, or
  functions with a termination proof, or \<open>partial_function (option)\<close> where the code can loop forever
  (\<open>Queue_Clear_loop\<close>, \<open>HashTable_Clear_chain\<close>), with theorems that say when it returns.

  \<^bold>\<open>Not modelled.\<close> Locks and threads: each operation runs alone. Logging. A failure to set an event. The
  user id that a receiver of the attach user confirm, or of a replayed join request, stores before it
  fails. The cryptographic libraries,
  sockets and codecs of third parties the program links. Of the modelled files: the stream pool and
  the character set conversions of streams, the BER functions that convert strings, the GCC
  conference data inside the MCS connect PDUs, and the connection states other than those of the
  join phase. The other parts of the repository (clients, servers, channels, graphics, codecs, caches,
  authentication, the remaining WinPR interfaces) are not modelled.
\<close>

end
